(* ===== verification/Hsed_Prelude.thy ===== *)
theory Hsed_Prelude
  imports Main "HOL-Library.Word" "HOL-Library.Multiset" "HOL-Library.Monad_Syntax"
    "HOL-Library.Sublist"
begin

text \<open>
  Shared vocabulary of the development: the machine types of the daemon, bounded character
  buffers with checked reads and writes (\<open>None\<close> is an access outside the array, which in C is
  undefined behaviour), the cursor idiom \<open>dst[o++] = c\<close>, and the list lemmas the components
  share.
\<close>

unbundle bit_operations_syntax

named_theorems buf_simps \<open>checked buffer accesses\<close>
named_theorems scan_simps \<open>unfolding of the scanner's operations\<close>
named_theorems trace_simps \<open>unfolding of the tracer's operations\<close>
named_theorems conn_simps \<open>unfolding of the connection handlers\<close>

type_synonym byte = "8 word"
type_synonym uid_t = "32 word"
type_synonym u64 = "64 word"
type_synonym ll = "64 word" \<comment> \<open>a C \<open>long long\<close> accumulator; read with \<open>sint\<close>\<close>

abbreviation NUL :: char where "NUL \<equiv> CHR 0x00"
abbreviation LF :: char where "LF \<equiv> CHR 0x0A"
abbreviation CR :: char where "CR \<equiv> CHR 0x0D"
abbreviation TAB :: char where "TAB \<equiv> CHR 0x09"
abbreviation QUOTE :: char where "QUOTE \<equiv> CHR 0x22"
abbreviation BSLASH :: char where "BSLASH \<equiv> CHR 0x5C"

section \<open>C strings\<close>

text \<open>The string a \<open>char *\<close> denotes: the bytes in front of the first NUL.\<close>

definition cstr :: "string \<Rightarrow> string" where
  "cstr s = takeWhile (\<lambda>c. c \<noteq> NUL) s"

lemma cstr_no_nul [simp]: "NUL \<notin> set (cstr s)"
  unfolding cstr_def by (induction s) auto

lemma cstr_id: "NUL \<notin> set s \<Longrightarrow> cstr s = s"
  unfolding cstr_def by (induction s) auto

lemma cstr_idem [simp]: "cstr (cstr s) = cstr s"
  by (simp add: cstr_id)

lemma cstr_append_nul: "NUL \<notin> set s \<Longrightarrow> cstr (s @ NUL # t) = s"
  unfolding cstr_def by (induction s) auto

lemma length_cstr_le [simp]: "length (cstr s) \<le> length s"
  unfolding cstr_def by (rule length_takeWhile_le)

lemma cstr_Nil [simp]: "cstr [] = []"
  by (simp add: cstr_def)

lemma cstr_Cons [simp]: "cstr (c # s) = (if c = NUL then [] else c # cstr s)"
  by (simp add: cstr_def)

lemma set_cstr_subset: "set (cstr s) \<subseteq> set s"
  unfolding cstr_def by (induction s) auto

section \<open>Arrays with checked accesses\<close>

definition rd :: "'a list \<Rightarrow> nat \<Rightarrow> 'a option" where
  "rd xs i = (if i < length xs then Some (xs ! i) else None)"

definition wr :: "'a list \<Rightarrow> nat \<Rightarrow> 'a \<Rightarrow> 'a list option" where
  "wr xs i v = (if i < length xs then Some (xs[i := v]) else None)"

lemma rd_in [buf_simps]: "i < length xs \<Longrightarrow> rd xs i = Some (xs ! i)"
  by (simp add: rd_def)

lemma wr_in [buf_simps]: "i < length xs \<Longrightarrow> wr xs i v = Some (xs[i := v])"
  by (simp add: wr_def)

text \<open>\<open>dst[o++] = c\<close>, on the pair of cursor and array.\<close>

definition putc :: "char \<Rightarrow> nat \<times> string \<Rightarrow> (nat \<times> string) option" where
  "putc c st = (case st of (pos, dst) \<Rightarrow>
     do { dst' \<leftarrow> wr dst pos c; Some (Suc pos, dst') })"

fun puts_at :: "string \<Rightarrow> nat \<times> string \<Rightarrow> (nat \<times> string) option" where
  "puts_at [] st = Some st"
| "puts_at (c # cs) st = do { st' \<leftarrow> putc c st; puts_at cs st' }"

text \<open>The array after \<open>s\<close> has been written at \<open>pos\<close>.\<close>

definition overwrite :: "nat \<Rightarrow> string \<Rightarrow> string \<Rightarrow> string" where
  "overwrite pos s dst = take pos dst @ s @ drop (pos + length s) dst"

lemma length_overwrite [simp]:
  "pos + length s \<le> length dst \<Longrightarrow> length (overwrite pos s dst) = length dst"
  by (simp add: overwrite_def)

lemma overwrite_Nil [simp]: "pos \<le> length dst \<Longrightarrow> overwrite pos [] dst = dst"
  by (simp add: overwrite_def)

lemma list_update_overwrite:
  "pos < length dst \<Longrightarrow> dst[pos := c] = overwrite pos [c] dst"
  by (simp add: overwrite_def upd_conv_take_nth_drop)

lemma take_overwrite:
  "pos + length s \<le> length dst \<Longrightarrow>
   take (pos + length s) (overwrite pos s dst) = take pos dst @ s"
  by (simp add: overwrite_def)

lemma overwrite_overwrite:
  assumes "pos + length s + length t \<le> length dst"
  shows "overwrite (pos + length s) t (overwrite pos s dst) = overwrite pos (s @ t) dst"
proof -
  have "take (pos + length s) (overwrite pos s dst) = take pos dst @ s"
    using assms by (intro take_overwrite) simp
  moreover have "drop (pos + length s + length t) (overwrite pos s dst)
      = drop (pos + length s + length t) dst"
    using assms by (simp add: overwrite_def ac_simps)
  ultimately show ?thesis
    by (simp add: overwrite_def [of "pos + length s" t] overwrite_def [of pos "s @ t"] ac_simps)
qed

lemma puts_at_ok:
  assumes "pos + length s \<le> length dst"
  shows "puts_at s (pos, dst) = Some (pos + length s, overwrite pos s dst)"
  using assms
proof (induction s arbitrary: pos dst)
  case Nil
  then show ?case by simp
next
  case (Cons c s)
  then have pos: "pos < length dst" by simp
  have "puts_at (c # s) (pos, dst) = puts_at s (Suc pos, overwrite pos [c] dst)"
    using pos by (simp add: putc_def buf_simps list_update_overwrite)
  also have "\<dots> = Some (Suc pos + length s, overwrite (Suc pos) s (overwrite pos [c] dst))"
    using Cons.prems by (intro Cons.IH) simp
  also have "overwrite (Suc pos) s (overwrite pos [c] dst) = overwrite pos (c # s) dst"
    using overwrite_overwrite [of pos "[c]" s dst] Cons.prems by simp
  finally show ?case by simp
qed

declare puts_at.simps(2) [simp del]

text \<open>
  What a finished buffer denotes: \<open>s\<close> written from the start and closed by a NUL, whatever
  stands behind it.
\<close>

lemma cstr_overwrite:
  assumes "length s < length dst" and "NUL \<notin> set s"
  shows "cstr ((overwrite 0 s dst)[length s := NUL]) = s"
proof -
  have "(overwrite 0 s dst)[length s := NUL] = s @ NUL # drop (Suc (length s)) dst"
    using assms(1) by (simp add: overwrite_def list_update_append Cons_nth_drop_Suc [symmetric])
  then show ?thesis using assms(2) by (simp add: cstr_append_nul)
qed

section \<open>Lists\<close>

lemma sum_list_mset_eq: "mset xs = mset ys \<Longrightarrow> sum_list (map f xs) = (sum_list (map f ys) :: 'b::comm_monoid_add)"
  by (metis mset_map sum_mset_sum_list)

lemma length_mset_eq: "mset xs = mset ys \<Longrightarrow> length xs = length ys"
  by (metis size_mset)

lemma take_list_update_ge [simp]: "n \<le> i \<Longrightarrow> take n (xs[i := v]) = take n xs"
  by (simp add: take_update_swap list_update_beyond)

lemma take_Suc_list_update:
  "n < length xs \<Longrightarrow> take (Suc n) (xs[n := v]) = take n xs @ [v]"
  by (simp add: take_Suc_conv_app_nth)

end
