(* ===== verification/Hsed_CLib.thy ===== *)
theory Hsed_CLib
  imports Hsed_Prelude
begin

text \<open>
  The parts of the C library the daemon calls, in the "C" locale of a 64-bit Linux: character
  classes, the \<open>printf\<close> conversions it uses, \<open>snprintf\<close> truncation, the \<open>strtol\<close> family with
  its saturation and the narrowing casts around it, \<open>strtok_r\<close>, \<open>strcasecmp\<close>, \<open>fgets\<close> on a
  fixed buffer and \<open>qsort\<close>. The sorting routine is used by its clients only through the contract
  \<open>qsort_contract\<close>, since C leaves the order of equal elements open.
\<close>

section \<open>Characters and decimal output\<close>

definition isdigit :: "char \<Rightarrow> bool" where
  "isdigit c = (48 \<le> (of_char c :: nat) \<and> (of_char c :: nat) \<le> 57)"

definition isspace :: "char \<Rightarrow> bool" where
  "isspace c = (c = CHR '' '' \<or> 9 \<le> (of_char c :: nat) \<and> (of_char c :: nat) \<le> 13)"

definition tolower :: "char \<Rightarrow> char" where
  "tolower c = (let n = (of_char c :: nat) in if 65 \<le> n \<and> n \<le> 90 then char_of (n + 32) else c)"

definition digit_char :: "nat \<Rightarrow> char" where
  "digit_char d = char_of (48 + d)"

definition digit_val :: "char \<Rightarrow> nat" where
  "digit_val c = of_char c - 48"

lemma of_digit_char [simp]: "d < 10 \<Longrightarrow> (of_char (digit_char d) :: nat) = 48 + d"
  by (simp add: digit_char_def)

lemma isdigit_digit_char [simp]: "d < 10 \<Longrightarrow> isdigit (digit_char d)"
  by (simp add: isdigit_def)

lemma digit_val_char [simp]: "d < 10 \<Longrightarrow> digit_val (digit_char d) = d"
  by (simp add: digit_val_def)

text \<open>\<open>%u\<close>, \<open>%zu\<close>, \<open>%llu\<close> on the value; \<open>%d\<close>, \<open>%ld\<close>, \<open>%lld\<close> on the signed value.\<close>

fun show_nat :: "nat \<Rightarrow> string" where
  "show_nat n = (if n < 10 then [digit_char n] else show_nat (n div 10) @ [digit_char (n mod 10)])"

declare show_nat.simps [simp del]

definition show_int :: "int \<Rightarrow> string" where
  "show_int i = (if i < 0 then CHR ''-'' # show_nat (nat (- i)) else show_nat (nat i))"

text \<open>\<open>snprintf(buf, n, ...)\<close>: what the buffer holds of the formatted text.\<close>

definition snprintf :: "nat \<Rightarrow> string \<Rightarrow> string" where
  "snprintf n text = take (n - 1) text"

lemma snprintf_fits: "length text < n \<Longrightarrow> snprintf n text = text"
  by (simp add: snprintf_def)

lemma length_snprintf: "0 < n \<Longrightarrow> length (snprintf n text) < n"
  by (simp add: snprintf_def)

lemma show_nat_digits: "\<forall>c \<in> set (show_nat n). isdigit c"
proof (induction n rule: show_nat.induct)
  case (1 n)
  then show ?case by (subst show_nat.simps) auto
qed

lemma show_nat_nonempty [simp]: "show_nat n \<noteq> []"
  by (subst show_nat.simps) simp

text \<open>A number below \<open>10 ^ k\<close> prints in at most \<open>k\<close> characters.\<close>

lemma length_show_nat: "n < 10 ^ k \<Longrightarrow> 0 < k \<Longrightarrow> length (show_nat n) \<le> k"
proof (induction n arbitrary: k rule: show_nat.induct)
  case (1 n)
  show ?case
  proof (cases "n < 10")
    case True
    with "1.prems" show ?thesis by (subst show_nat.simps) simp
  next
    case False
    then obtain j where k: "k = Suc j" and j: "0 < j"
      using "1.prems" by (cases k; cases "k - 1") auto
    have "n div 10 < 10 ^ j" using "1.prems"(1) k by (simp add: div_less_iff_less_mult mult.commute)
    with "1.IH" False j have "length (show_nat (n div 10)) \<le> j" by simp
    with False k show ?thesis by (subst show_nat.simps) simp
  qed
qed

lemma length_show_int:
  assumes "\<bar>i\<bar> < 10 ^ k" and "0 < k"
  shows "length (show_int i) \<le> Suc k"
proof -
  have "nat \<bar>i\<bar> < 10 ^ k" using assms(1)
    by (metis nat_less_iff of_nat_numeral of_nat_power zero_le_power zero_le_numeral abs_ge_zero)
  then have "length (show_nat (nat \<bar>i\<bar>)) \<le> k" using assms(2) by (rule length_show_nat)
  then show ?thesis by (auto simp: show_int_def)
qed

section \<open>The strtol family\<close>

text \<open>
  \<open>parse_digits\<close> reads the longest run of digits of the base; \<open>strtol_raw\<close> skips white space,
  takes one optional sign and the digits, and gives the mathematical value and the rest, or
  \<open>None\<close> when there is no digit (then the C functions return 0 and set the end pointer to the
  start of the string). Bases up to 10 only, which is all the daemon uses.
\<close>

definition is_base_digit :: "nat \<Rightarrow> char \<Rightarrow> bool" where
  "is_base_digit b c = (isdigit c \<and> digit_val c < b)"

fun parse_digits :: "nat \<Rightarrow> nat \<Rightarrow> string \<Rightarrow> nat \<times> string" where
  "parse_digits b acc [] = (acc, [])"
| "parse_digits b acc (c # cs) =
     (if is_base_digit b c then parse_digits b (b * acc + digit_val c) cs else (acc, c # cs))"

definition strtol_raw :: "nat \<Rightarrow> string \<Rightarrow> (bool \<times> nat \<times> string) option" where
  "strtol_raw b s =
     (let s1 = dropWhile isspace s;
          neg = (case s1 of c # _ \<Rightarrow> c = CHR ''-'' | [] \<Rightarrow> False);
          s2 = (case s1 of c # cs \<Rightarrow> if c = CHR ''-'' \<or> c = CHR ''+'' then cs else s1 | [] \<Rightarrow> [])
      in case s2 of [] \<Rightarrow> None
         | c # _ \<Rightarrow> if is_base_digit b c
                  then (case parse_digits b 0 s2 of (v, r) \<Rightarrow> Some (neg, v, r)) else None)"

definition LONG_MAX :: int where "LONG_MAX = 9223372036854775807"
definition LONG_MIN :: int where "LONG_MIN = -9223372036854775808"

definition clamp_long :: "int \<Rightarrow> int" where
  "clamp_long v = (if v > LONG_MAX then LONG_MAX else if v < LONG_MIN then LONG_MIN else v)"

text \<open>Value and end pointer (as the unread rest) of \<open>strtol(s, &end, b)\<close>.\<close>

definition strtol :: "nat \<Rightarrow> string \<Rightarrow> int \<times> string" where
  "strtol b s = (case strtol_raw b s of None \<Rightarrow> (0, s)
     | Some (neg, v, r) \<Rightarrow> (clamp_long (if neg then - int v else int v), r))"

text \<open>The cast to \<open>int\<close> (also \<open>pid_t\<close>): the low 32 bits, read as two's complement.\<close>

definition c_int :: "int \<Rightarrow> int" where
  "c_int v = sint (word_of_int v :: 32 word)"

definition atol :: "string \<Rightarrow> int" where "atol s = fst (strtol 10 s)"
definition atoll :: "string \<Rightarrow> int" where "atoll s = fst (strtol 10 s)"
definition atoi :: "string \<Rightarrow> int" where "atoi s = c_int (atol s)"

text \<open>\<open>strtoul\<close>: saturates at \<open>ULONG_MAX\<close>; a minus sign negates modulo \<open>2 ^ 64\<close>.\<close>

definition strtoul :: "string \<Rightarrow> u64" where
  "strtoul s = (case strtol_raw 10 s of None \<Rightarrow> 0
     | Some (neg, v, r) \<Rightarrow>
         if v \<ge> 2 ^ 64 then - 1 else if neg then - of_nat v else of_nat v)"

definition to_uid :: "u64 \<Rightarrow> uid_t" where
  "to_uid v = ucast v"

subsection \<open>Printing and reading back\<close>

lemma parse_digits_append:
  "\<forall>c \<in> set s. is_base_digit b c \<Longrightarrow>
   parse_digits b acc (s @ t) = parse_digits b (fst (parse_digits b acc s)) t"
  by (induction s arbitrary: acc) auto

lemma parse_digits_snd:
  "\<forall>c \<in> set s. is_base_digit b c \<Longrightarrow> snd (parse_digits b acc s) = []"
  by (induction s arbitrary: acc) auto

lemma is_base_digit_10 [simp]: "is_base_digit 10 c = isdigit c"
  by (auto simp: is_base_digit_def isdigit_def digit_val_def)

lemma parse_show_nat: "parse_digits 10 0 (show_nat n) = (n, [])"
proof (induction n rule: show_nat.induct)
  case (1 n)
  show ?case
  proof (cases "n < 10")
    case True
    then show ?thesis by (subst show_nat.simps) simp
  next
    case False
    with "1.IH" have IH: "parse_digits 10 0 (show_nat (n div 10)) = (n div 10, [])" by simp
    have "parse_digits 10 0 (show_nat (n div 10) @ [digit_char (n mod 10)])
        = parse_digits 10 (n div 10) [digit_char (n mod 10)]"
      using IH show_nat_digits [of "n div 10"] by (simp add: parse_digits_append)
    with False show ?thesis by (subst show_nat.simps) simp
  qed
qed

lemma isdigit_not_space: "isdigit c \<Longrightarrow> \<not> isspace c"
  by (auto simp: isdigit_def isspace_def)

lemma isdigit_not_sign: "isdigit c \<Longrightarrow> c \<noteq> CHR ''-'' \<and> c \<noteq> CHR ''+''"
  by (auto simp: isdigit_def)

lemma strtol_raw_show_nat: "strtol_raw 10 (show_nat n) = Some (False, n, [])"
proof -
  obtain c cs where s: "show_nat n = c # cs" by (cases "show_nat n") auto
  with show_nat_digits [of n] have c: "isdigit c" by simp
  from c s show ?thesis
    using isdigit_not_space [OF c] isdigit_not_sign [OF c] parse_show_nat [of n]
    by (simp add: strtol_raw_def)
qed

lemma strtol_raw_minus: "strtol_raw 10 (CHR ''-'' # show_nat n) = Some (True, n, [])"
proof -
  obtain c cs where s: "show_nat n = c # cs" by (cases "show_nat n") auto
  with show_nat_digits [of n] have c: "isdigit c" by simp
  then show ?thesis using s parse_show_nat [of n]
    by (simp add: strtol_raw_def isspace_def)
qed

lemma strtol_show_int:
  assumes "LONG_MIN \<le> i" and "i \<le> LONG_MAX"
  shows "strtol 10 (show_int i) = (i, [])"
  using assms
  by (auto simp: strtol_def show_int_def strtol_raw_show_nat strtol_raw_minus clamp_long_def)

lemma atol_show_int: "LONG_MIN \<le> i \<Longrightarrow> i \<le> LONG_MAX \<Longrightarrow> atol (show_int i) = i"
  by (simp add: atol_def strtol_show_int)

lemma atoll_show_int: "LONG_MIN \<le> i \<Longrightarrow> i \<le> LONG_MAX \<Longrightarrow> atoll (show_int i) = i"
  by (simp add: atoll_def strtol_show_int)

lemma c_int_id: "- 2147483648 \<le> i \<Longrightarrow> i < 2147483648 \<Longrightarrow> c_int i = i"
  by (simp add: c_int_def sint_sbintrunc' signed_take_bit_int_eq_self)

lemma atoi_show_int: "- 2147483648 \<le> i \<Longrightarrow> i < 2147483648 \<Longrightarrow> atoi (show_int i) = i"
  by (simp add: atoi_def atol_show_int c_int_id LONG_MIN_def LONG_MAX_def)

lemma strtoul_show_nat: "n < 2 ^ 64 \<Longrightarrow> strtoul (show_nat n) = of_nat n"
  by (simp add: strtoul_def strtol_raw_show_nat)

section \<open>Strings\<close>

definition strcasecmp_eq :: "string \<Rightarrow> string \<Rightarrow> bool" where
  "strcasecmp_eq s t = (map tolower s = map tolower t)"

text \<open>\<open>strtok_r\<close>: the next token and the saved rest.\<close>

definition strtok :: "char set \<Rightarrow> string \<Rightarrow> (string \<times> string) option" where
  "strtok delims s =
     (let s1 = dropWhile (\<lambda>c. c \<in> delims) s in
      if s1 = [] then None
      else Some (takeWhile (\<lambda>c. c \<notin> delims) s1, drop 1 (dropWhile (\<lambda>c. c \<notin> delims) s1)))"

text \<open>
  \<open>fgets\<close> with a buffer of \<open>bufsz\<close> bytes: up to \<open>bufsz - 1\<close> bytes, ending with the first newline
  among them. \<open>None\<close> at the end of the file. The second component is the unread rest.
\<close>

fun fgets_upto :: "nat \<Rightarrow> string \<Rightarrow> string \<times> string" where
  "fgets_upto 0 s = ([], s)"
| "fgets_upto (Suc n) [] = ([], [])"
| "fgets_upto (Suc n) (c # s) =
     (if c = LF then ([c], s) else (case fgets_upto n s of (l, r) \<Rightarrow> (c # l, r)))"

definition fgets :: "nat \<Rightarrow> string \<Rightarrow> (string \<times> string) option" where
  "fgets bufsz s = (if s = [] then None else Some (fgets_upto (bufsz - 1) s))"

lemma fgets_upto_append: "fst (fgets_upto n s) @ snd (fgets_upto n s) = s"
  by (induction n s rule: fgets_upto.induct) (auto split: prod.splits)

lemma length_fgets_upto: "length (fst (fgets_upto n s)) \<le> n"
  by (induction n s rule: fgets_upto.induct) (auto split: prod.splits)

lemma fgets_upto_progress: "0 < n \<Longrightarrow> s \<noteq> [] \<Longrightarrow> length (snd (fgets_upto n s)) < length s"
  by (induction n s rule: fgets_upto.induct)
    (auto split: prod.splits simp: le_imp_less_Suc,
     metis fgets_upto_append length_append less_Suc_eq_le le_add2 snd_conv)

section \<open>qsort\<close>

text \<open>
  What C11 7.22.5.2 promises of \<open>qsort\<close> for a comparison function \<open>cmp\<close>: a permutation of the
  array in which every element compares at most equal to the ones behind it.
\<close>

locale qsort_contract =
  fixes qs :: "'a list \<Rightarrow> 'a list"
    and cmp :: "'a \<Rightarrow> 'a \<Rightarrow> int"
  assumes qs_perm: "mset (qs xs) = mset xs"
    and qs_sorted: "sorted_wrt (\<lambda>a b. cmp a b \<le> 0) (qs xs)"
begin

lemma qs_length: "length (qs xs) = length xs"
  by (rule length_mset_eq [OF qs_perm])

lemma qs_set: "set (qs xs) = set xs"
  by (metis qs_perm set_mset_mset)

lemma qs_sum: "sum_list (map f (qs xs)) = (sum_list (map f xs) :: 'b::comm_monoid_add)"
  by (rule sum_list_mset_eq [OF qs_perm])

text \<open>Two arrays with the same elements sort to arrays with the same elements.\<close>

lemma qs_mset_cong: "mset xs = mset ys \<Longrightarrow> mset (qs xs) = mset (qs ys)"
  by (simp add: qs_perm)

end

text \<open>One implementation that keeps the contract: insertion sort by the comparison function.\<close>

fun c_insert :: "('a \<Rightarrow> 'a \<Rightarrow> int) \<Rightarrow> 'a \<Rightarrow> 'a list \<Rightarrow> 'a list" where
  "c_insert cmp x [] = [x]"
| "c_insert cmp x (y # ys) = (if cmp x y \<le> 0 then x # y # ys else y # c_insert cmp x ys)"

fun c_qsort :: "('a \<Rightarrow> 'a \<Rightarrow> int) \<Rightarrow> 'a list \<Rightarrow> 'a list" where
  "c_qsort cmp [] = []"
| "c_qsort cmp (x # xs) = c_insert cmp x (c_qsort cmp xs)"

lemma mset_c_insert: "mset (c_insert cmp x xs) = add_mset x (mset xs)"
  by (induction xs) auto

lemma mset_c_qsort: "mset (c_qsort cmp xs) = mset xs"
  by (induction xs) (auto simp: mset_c_insert)

lemma set_c_insert: "set (c_insert cmp x xs) = insert x (set xs)"
  by (metis mset_c_insert set_mset_add_mset_insert set_mset_mset)

lemma sorted_c_insert:
  assumes total: "\<And>a b. cmp a b \<le> 0 \<or> cmp b a \<le> 0"
    and trans: "\<And>a b c. cmp a b \<le> 0 \<Longrightarrow> cmp b c \<le> 0 \<Longrightarrow> cmp a c \<le> 0"
    and "sorted_wrt (\<lambda>a b. cmp a b \<le> 0) xs"
  shows "sorted_wrt (\<lambda>a b. cmp a b \<le> 0) (c_insert cmp x xs)"
  using assms(3)
proof (induction xs)
  case Nil
  then show ?case by simp
next
  case (Cons y ys)
  show ?case
  proof (cases "cmp x y \<le> 0")
    case True
    with Cons.prems show ?thesis by (auto intro: trans)
  next
    case False
    with total have "cmp y x \<le> 0" by blast
    with False Cons show ?thesis by (auto simp: set_c_insert)
  qed
qed

lemma sorted_c_qsort:
  assumes "\<And>a b. cmp a b \<le> 0 \<or> cmp b a \<le> 0"
    and "\<And>a b c. cmp a b \<le> 0 \<Longrightarrow> cmp b c \<le> 0 \<Longrightarrow> cmp a c \<le> 0"
  shows "sorted_wrt (\<lambda>a b. cmp a b \<le> 0) (c_qsort cmp xs)"
proof (induction xs)
  case Nil
  then show ?case by simp
next
  case (Cons x xs)
  then show ?case by (simp, intro sorted_c_insert) (use assms in blast)+
qed

end
