(* ===== verification/Hsed_Util.thy ===== *)
theory Hsed_Util
  imports Hsed_CLib
begin

text \<open>
  \<open>util.c\<close>: the bounded string copy, on the destination array itself, and the logging switch
  between the system log and standard error.
\<close>

section \<open>hsed_strlcpy\<close>

definition hsed_strlcpy :: "string \<Rightarrow> string \<Rightarrow> nat \<Rightarrow> (nat \<times> string) option" where
  "hsed_strlcpy dst src dstsize =
     (let srclen = length (cstr src) in
      if 0 < dstsize then
        (let copy = (if srclen < dstsize - 1 then srclen else dstsize - 1) in
         do { (pos, dst1) \<leftarrow> puts_at (take copy (cstr src)) (0, dst);
              dst2 \<leftarrow> wr dst1 copy NUL;
              Some (srclen, dst2) })
      else Some (srclen, dst))"

text \<open>The string the destination denotes afterwards, for a destination of \<open>n > 0\<close> bytes.\<close>

definition strlcpy_val :: "nat \<Rightarrow> string \<Rightarrow> string" where
  "strlcpy_val n src = take (n - 1) (cstr src)"

lemma length_strlcpy_val: "0 < n \<Longrightarrow> length (strlcpy_val n src) < n"
  by (simp add: strlcpy_val_def)

lemma strlcpy_val_no_nul [simp]: "NUL \<notin> set (strlcpy_val n src)"
  unfolding strlcpy_val_def by (meson cstr_no_nul in_set_takeD)

lemma strlcpy_val_id: "length src < n \<Longrightarrow> NUL \<notin> set src \<Longrightarrow> strlcpy_val n src = src"
  by (simp add: strlcpy_val_def cstr_id)

lemma hsed_strlcpy_result:
  assumes "length dst = dstsize" and "0 < dstsize"
  shows "\<exists>dst'. hsed_strlcpy dst src dstsize = Some (length (cstr src), dst') \<and>
    length dst' = dstsize \<and> cstr dst' = strlcpy_val dstsize src"
proof -
  let ?s = "strlcpy_val dstsize src"
  let ?copy = "if length (cstr src) < dstsize - 1 then length (cstr src) else dstsize - 1"
  have copy: "?copy = length ?s" and prefix: "take (length ?s) (cstr src) = ?s"
    by (auto simp: strlcpy_val_def min_def)
  have len: "length ?s < length dst" using assms length_strlcpy_val by simp
  have put: "puts_at ?s (0, dst) = Some (length ?s, overwrite 0 ?s dst)"
    using puts_at_ok [of 0 ?s dst] len by simp
  have "hsed_strlcpy dst src dstsize = Some (length (cstr src), (overwrite 0 ?s dst)[length ?s := NUL])"
    unfolding hsed_strlcpy_def Let_def copy using assms(2) len put
    by (simp add: prefix buf_simps)
  then show ?thesis using cstr_overwrite [OF len] len assms(1) by simp
qed

text \<open>
  C40. \<open>hsed_strlcpy\<close> into an array of exactly \<open>dstsize\<close> bytes never writes outside it, leaves a
  NUL-terminated string that is the longest prefix of the source that fits, and returns the
  length of the source, so that the result is cut short exactly when the return value reaches
  \<open>dstsize\<close>. A size of zero writes nothing.
\<close>

theorem hsed_strlcpy_correct:
  assumes "length dst = dstsize"
  shows "\<exists>n dst'. hsed_strlcpy dst src dstsize = Some (n, dst') \<and> n = length (cstr src) \<and>
    length dst' = dstsize \<and>
    (if dstsize = 0 then dst' = dst
     else cstr dst' = take (dstsize - 1) (cstr src) \<and> (cstr dst' = cstr src \<longleftrightarrow> n < dstsize))"
proof (cases "dstsize = 0")
  case True
  then show ?thesis using assms by (simp add: hsed_strlcpy_def)
next
  case False
  then obtain dst' where "hsed_strlcpy dst src dstsize = Some (length (cstr src), dst')"
    "length dst' = dstsize" "cstr dst' = strlcpy_val dstsize src"
    using hsed_strlcpy_result [OF assms] by blast
  moreover have "take (dstsize - 1) (cstr src) = cstr src \<longleftrightarrow> length (cstr src) < dstsize"
    using False by auto
  ultimately show ?thesis using False by (simp add: strlcpy_val_def)
qed

theorem hsed_strlcpy_correct_witness:
  "\<exists>n dst'. hsed_strlcpy ''xxxx'' ''/tmp/a.sock'' 4 = Some (n, dst') \<and> n = 11 \<and>
    cstr dst' = ''/tm''"
  using hsed_strlcpy_correct [of "''xxxx''" 4 "''/tmp/a.sock''"]
  by (auto simp: numeral_eq_Suc)

section \<open>Logging\<close>

datatype log_prio = LOG_INFO | LOG_ERR

datatype log_event = OpenLog string | VSyslog log_prio string | ToStderr string

record log_state =
  g_use_syslog :: bool

definition hsed_log_init :: "bool \<Rightarrow> log_state \<Rightarrow> log_state \<times> log_event list" where
  "hsed_log_init use_syslog st =
     (st\<lparr>g_use_syslog := use_syslog\<rparr>, if use_syslog then [OpenLog ''hsed''] else [])"

text \<open>The argument is the formatted message.\<close>

definition hsed_log :: "log_state \<Rightarrow> string \<Rightarrow> log_event list" where
  "hsed_log st msg =
     (if g_use_syslog st then [VSyslog LOG_INFO msg] else [ToStderr msg, ToStderr [LF]])"

definition hsed_log_err :: "log_state \<Rightarrow> string \<Rightarrow> log_event list" where
  "hsed_log_err st msg =
     (if g_use_syslog st then [VSyslog LOG_ERR msg]
      else [ToStderr ''[error] '', ToStderr msg, ToStderr [LF]])"

end
