(* ===== verification/Hsed_Base64.thy ===== *)
theory Hsed_Base64
  imports Hsed_CLib
begin

text \<open>
  \<open>base64.c\<close>: the encoder that carries captured bytes through the JSON protocol. The encoder is
  modelled on its output array with checked accesses; \<open>b64_enc\<close> is the string it writes, and
  \<open>b64_dec\<close> is the decoder of RFC 4648 that a client applies.
\<close>

section \<open>The encoder\<close>

definition B64_TABLE :: string where
  "B64_TABLE = ''ABCDEFGHIJKLMNOPQRSTUVWXYZabcdefghijklmnopqrstuvwxyz0123456789+/''"

definition hsed_base64_encoded_len :: "nat \<Rightarrow> nat" where
  "hsed_base64_encoded_len len = ((len + 2) div 3) * 4 + 1"

text \<open>\<open>B64_TABLE[(v >> k) & 0x3F]\<close> for an \<open>unsigned int v\<close>.\<close>

definition b64_at :: "32 word \<Rightarrow> nat \<Rightarrow> char" where
  "b64_at v k = B64_TABLE ! unat (drop_bit k v AND 0x3F)"

function b64_loop :: "byte list \<Rightarrow> nat \<Rightarrow> nat \<Rightarrow> nat \<times> string \<Rightarrow> (nat \<times> nat \<times> string) option" where
  "b64_loop data len i st =
     (if i + 3 \<le> len then
        do { d0 \<leftarrow> rd data i; d1 \<leftarrow> rd data (i + 1); d2 \<leftarrow> rd data (i + 2);
             let v = push_bit 16 (ucast d0) OR push_bit 8 (ucast d1) OR ucast d2;
             st' \<leftarrow> puts_at [b64_at v 18, b64_at v 12, b64_at v 6, b64_at v 0] st;
             b64_loop data len (i + 3) st' }
      else Some (i, st))"
  by pat_completeness auto
termination
  by (relation "measure (\<lambda>(data, len, i, st). len - i)") auto

declare b64_loop.simps [simp del]

text \<open>What follows the loop: the one or two bytes left over, padding and the terminator.\<close>

definition b64_tail :: "byte list \<Rightarrow> nat \<Rightarrow> nat \<times> nat \<times> string \<Rightarrow> string option" where
  "b64_tail data len = (\<lambda>(i, st).
     do { let rem = len - i;
          (pos, out') \<leftarrow>
            (if rem = 1 then
               do { d0 \<leftarrow> rd data i;
                    let v = push_bit 16 (ucast d0);
                    puts_at [b64_at v 18, b64_at v 12, CHR ''='', CHR ''=''] st }
             else if rem = 2 then
               do { d0 \<leftarrow> rd data i; d1 \<leftarrow> rd data (i + 1);
                    let v = push_bit 16 (ucast d0) OR push_bit 8 (ucast d1);
                    puts_at [b64_at v 18, b64_at v 12, b64_at v 6, CHR ''=''] st }
             else Some st);
          wr out' pos NUL })"

definition hsed_base64_encode :: "byte list \<Rightarrow> nat \<Rightarrow> string \<Rightarrow> string option" where
  "hsed_base64_encode data len out =
     do { r \<leftarrow> b64_loop data len 0 (0, out); b64_tail data len r }"

section \<open>The encoded string and the reference decoder\<close>

fun b64_enc :: "byte list \<Rightarrow> string" where
  "b64_enc [] = []"
| "b64_enc [a] = (let v = push_bit 16 (ucast a)
     in [b64_at v 18, b64_at v 12, CHR ''='', CHR ''=''])"
| "b64_enc [a, b] = (let v = push_bit 16 (ucast a) OR push_bit 8 (ucast b)
     in [b64_at v 18, b64_at v 12, b64_at v 6, CHR ''=''])"
| "b64_enc (a # b # c # ds) = (let v = push_bit 16 (ucast a) OR push_bit 8 (ucast b) OR ucast c
     in [b64_at v 18, b64_at v 12, b64_at v 6, b64_at v 0] @ b64_enc ds)"

fun index_of :: "'a \<Rightarrow> 'a list \<Rightarrow> nat option" where
  "index_of x [] = None"
| "index_of x (y # ys) = (if x = y then Some 0 else map_option Suc (index_of x ys))"

definition b64_val :: "char \<Rightarrow> nat option" where
  "b64_val c = index_of c B64_TABLE"

text \<open>Append one base-64 digit.\<close>

definition b64_join :: "nat \<Rightarrow> nat \<Rightarrow> nat" where
  "b64_join hi lo = hi * 64 + lo"

fun b64_dec :: "string \<Rightarrow> byte list option" where
  "b64_dec [] = Some []"
| "b64_dec [p, q, r, s] =
     do { x \<leftarrow> b64_val p; y \<leftarrow> b64_val q;
          if r = CHR ''='' \<and> s = CHR ''='' then Some [of_nat (b64_join x y div 16)]
          else do { z \<leftarrow> b64_val r;
                    if s = CHR ''='' then
                      (let n = b64_join (b64_join x y) z in Some [of_nat (n div 1024), of_nat (n div 4 mod 256)])
                    else do { w \<leftarrow> b64_val s;
                      (let n = b64_join (b64_join (b64_join x y) z) w
                       in Some [of_nat (n div 65536), of_nat (n div 256 mod 256), of_nat (n mod 256)]) } } }"
| "b64_dec (p # q # r # s # rest) =
     do { x \<leftarrow> b64_val p; y \<leftarrow> b64_val q; z \<leftarrow> b64_val r; w \<leftarrow> b64_val s;
          ds \<leftarrow> b64_dec rest;
          (let n = b64_join (b64_join (b64_join x y) z) w
           in Some ([of_nat (n div 65536), of_nat (n div 256 mod 256), of_nat (n mod 256)] @ ds)) }"
| "b64_dec _ = None"

section \<open>The alphabet\<close>

lemma length_B64_TABLE [simp]: "length B64_TABLE = 64"
  by (simp add: B64_TABLE_def)

lemma b64_val_table_all: "list_all (\<lambda>i. b64_val (B64_TABLE ! i) = Some i) [0..<64]"
  by code_simp

lemma b64_val_table: "i < 64 \<Longrightarrow> b64_val (B64_TABLE ! i) = Some i"
  using b64_val_table_all by (simp add: list_all_iff)

lemma b64_val_pad [simp]: "b64_val (CHR ''='') = None"
  by code_simp

lemma b64_at_eq: "b64_at v k = B64_TABLE ! (unat v div 2 ^ k mod 64)"
proof -
  have "drop_bit k v AND 0x3F = take_bit 6 (drop_bit k v)"
    by (simp add: take_bit_eq_mask mask_eq_exp_minus_1)
  then have "unat (drop_bit k v AND 0x3F) = unat v div 2 ^ k mod 64"
    by (simp only: unsigned_take_bit_eq unat_drop_bit_eq) (simp add: take_bit_eq_mod drop_bit_eq_div)
  then show ?thesis by (simp add: b64_at_def)
qed

lemma b64_val_at: "b64_val (b64_at v k) = Some (unat v div 2 ^ k mod 64)"
  by (simp add: b64_at_eq b64_val_table)

lemma b64_at_in_table: "b64_at v k \<in> set B64_TABLE"
  by (simp add: b64_at_eq)

lemma b64_at_not_pad [simp]: "b64_at v k \<noteq> CHR ''=''"
  by (metis b64_val_at b64_val_pad option.distinct(1))

section \<open>The 24-bit group\<close>

lemma push_bit_or_add:
  fixes a b :: nat
  assumes "b < 2 ^ n"
  shows "push_bit n a OR b = a * 2 ^ n + b"
proof -
  have b: "take_bit n b = b" using assms by (simp add: take_bit_nat_eq_self)
  have "push_bit n a AND take_bit n b = 0"
    by (intro bit_eqI) (auto simp: bit_simps)
  then show ?thesis unfolding b by (simp add: disjunctive_add_eq_or [symmetric] push_bit_eq_mult)
qed

lemma unat_byte_less [simp]: "unat (a :: byte) < 256"
  using unsigned_less [of a, where ?'a = nat] by simp

lemma unat_ucast_byte: "unat (ucast (x :: byte) :: 32 word) = unat x"
  using unat_byte_less [of x] by (simp add: unsigned_ucast_eq take_bit_nat_eq_self del: unat_byte_less)

lemma unat_push_byte:
  assumes "n \<le> 16"
  shows "unat (push_bit n (ucast (x :: byte) :: 32 word)) = push_bit n (unat x)"
proof -
  have "unat x * 2 ^ n < 256 * 2 ^ 16"
    using unat_byte_less [of x] power_increasing [OF assms, of "2 :: nat"]
    by (intro mult_less_le_imp_less) auto
  then show ?thesis
    by (simp only: unsigned_push_bit_eq unat_ucast_byte)
      (simp add: push_bit_eq_mult take_bit_nat_eq_self)
qed

lemma unat_group3:
  "unat (push_bit 16 (ucast (a :: byte) :: 32 word) OR push_bit 8 (ucast (b :: byte)) OR ucast (c :: byte))
   = unat a * 65536 + unat b * 256 + unat c"
proof -
  have "unat (push_bit 16 (ucast a :: 32 word) OR push_bit 8 (ucast b) OR ucast c)
    = (push_bit 16 (unat a) OR push_bit 8 (unat b)) OR unat c"
    by (simp only: unsigned_or_eq unat_ucast_byte unat_push_byte [of 16] unat_push_byte [of 8]
        or.assoc)
  also have "\<dots> = push_bit 8 (push_bit 8 (unat a) OR unat b) OR unat c"
    by (simp add: push_bit_or)
  finally show ?thesis by (simp add: push_bit_or_add)
qed

lemma unat_group2:
  "unat (push_bit 16 (ucast (a :: byte) :: 32 word) OR push_bit 8 (ucast (b :: byte)))
   = unat a * 65536 + unat b * 256"
  using unat_group3 [of a b 0] by simp

lemma unat_group1: "unat (push_bit 16 (ucast (a :: byte) :: 32 word)) = unat a * 65536"
  using unat_group3 [of a 0 0] by simp

text \<open>Two, three and four base-64 digits of a number below \<open>2 ^ 24\<close>, put together again.\<close>

lemma b64_vals:
  obtains x y z w where "b64_val (b64_at v 18) = Some x" "b64_val (b64_at v 12) = Some y"
    "b64_val (b64_at v 6) = Some z" "b64_val (b64_at v 0) = Some w"
    "x = unat v div 262144 mod 64" "y = unat v div 4096 mod 64"
    "z = unat v div 64 mod 64" "w = unat v mod 64"
  using b64_val_at [of v 18] b64_val_at [of v 12] b64_val_at [of v 6] b64_val_at [of v 0] by simp

lemma digits64_2:
  fixes n :: nat
  assumes "n < 16777216"
  shows "n div 262144 mod 64 * 64 + n div 4096 mod 64 = n div 4096"
proof -
  have "n div 262144 < 64" using assms by (simp add: div_less_iff_less_mult)
  moreover have "n div 262144 = n div 4096 div 64" by (simp add: div_mult2_eq [symmetric])
  ultimately show ?thesis using div_mult_mod_eq [of "n div 4096" 64] by simp
qed

lemma digits64_3:
  fixes n :: nat
  assumes "n < 16777216"
  shows "(n div 262144 mod 64 * 64 + n div 4096 mod 64) * 64 + n div 64 mod 64 = n div 64"
  using div_mult_mod_eq [of "n div 64" 64]
  by (simp only: digits64_2 [OF assms]) (simp add: div_mult2_eq [symmetric])

lemma digits64_4:
  fixes n :: nat
  assumes "n < 16777216"
  shows "((n div 262144 mod 64 * 64 + n div 4096 mod 64) * 64 + n div 64 mod 64) * 64 + n mod 64 = n"
  by (simp only: digits64_3 [OF assms] div_mult_mod_eq)

text \<open>The three bytes of a group.\<close>

lemma group_less: "unat (a :: byte) * 65536 + unat (b :: byte) * 256 + unat (c :: byte) < 16777216"
  using unat_byte_less [of a] unat_byte_less [of b] unat_byte_less [of c] by linarith

lemma group_bytes:
  fixes a b c :: byte
  defines "n \<equiv> unat a * 65536 + unat b * 256 + unat c"
  shows "n div 65536 = unat a" and "n div 256 mod 256 = unat b" and "n mod 256 = unat c"
proof -
  have n: "n = (unat a * 256 + unat b) * 256 + unat c" by (simp add: n_def)
  have d: "n div 256 = unat a * 256 + unat b"
    unfolding n using unat_byte_less [of c] by (simp only: div_mult_self3 div_less)
  show "n mod 256 = unat c"
    unfolding n using unat_byte_less [of c] by (simp only: mod_mult_self3 mod_less)
  show "n div 256 mod 256 = unat b" unfolding d by simp
  have "n div 65536 = n div 256 div 256" by (simp add: div_mult2_eq [symmetric])
  then show "n div 65536 = unat a" unfolding d by simp
qed

section \<open>Round trip, length and alphabet\<close>

lemma b64_dec_group3:
  assumes "b64_dec rest = Some ds"
  shows "b64_dec (b64_enc [a, b, c] @ rest) = Some ([a, b, c] @ ds)"
proof -
  define v :: "32 word" where "v = push_bit 16 (ucast a) OR push_bit 8 (ucast b) OR ucast c"
  have v: "unat v = unat a * 65536 + unat b * 256 + unat c" unfolding v_def by (rule unat_group3)
  have n: "unat v < 16777216" unfolding v by (rule group_less)
  note bytes = group_bytes [of a b c, folded v]
  have enc: "b64_enc [a, b, c] = [b64_at v 18, b64_at v 12, b64_at v 6, b64_at v 0]"
    by (simp add: Let_def v_def)
  obtain x y z w where vals: "b64_val (b64_at v 18) = Some x" "b64_val (b64_at v 12) = Some y"
    "b64_val (b64_at v 6) = Some z" "b64_val (b64_at v 0) = Some w"
    and sum: "b64_join (b64_join (b64_join x y) z) w = unat v"
    using b64_vals [of v] digits64_4 [OF n] unfolding b64_join_def by metis
  show ?thesis
    using assms unfolding enc by (cases rest) (simp_all add: vals sum Let_def bytes)
qed

lemma b64_dec_group2: "b64_dec (b64_enc [a, b]) = Some [a, b]"
proof -
  define v :: "32 word" where "v = push_bit 16 (ucast a) OR push_bit 8 (ucast b)"
  have v: "unat v = unat a * 65536 + unat b * 256 + unat (0 :: byte)"
    unfolding v_def by (simp add: unat_group2)
  have n: "unat v < 16777216" unfolding v by (rule group_less)
  have bytes: "unat v div 64 div 1024 = unat a" "unat v div 64 div 4 mod 256 = unat b"
    using group_bytes [of a b 0, folded v] by (simp_all add: div_mult2_eq [symmetric])
  have enc: "b64_enc [a, b] = [b64_at v 18, b64_at v 12, b64_at v 6, CHR ''='']"
    by (simp add: Let_def v_def)
  obtain x y z where vals: "b64_val (b64_at v 18) = Some x" "b64_val (b64_at v 12) = Some y"
    "b64_val (b64_at v 6) = Some z" and sum: "b64_join (b64_join x y) z = unat v div 64"
    using b64_vals [of v] digits64_3 [OF n] unfolding b64_join_def by metis
  show ?thesis unfolding enc by (simp add: vals sum Let_def bytes del: div_mult2_eq)
qed

lemma b64_dec_group1: "b64_dec (b64_enc [a]) = Some [a]"
proof -
  define v :: "32 word" where "v = push_bit 16 (ucast a)"
  have v: "unat v = unat a * 65536 + unat (0 :: byte) * 256 + unat (0 :: byte)"
    unfolding v_def by (simp add: unat_group1)
  have n: "unat v < 16777216" unfolding v by (rule group_less)
  have bytes: "unat v div 4096 div 16 = unat a"
    using group_bytes(1) [of a 0 0, folded v] by (simp add: div_mult2_eq [symmetric])
  have enc: "b64_enc [a] = [b64_at v 18, b64_at v 12, CHR ''='', CHR ''='']"
    by (simp add: Let_def v_def)
  obtain x y where vals: "b64_val (b64_at v 18) = Some x" "b64_val (b64_at v 12) = Some y"
    and sum: "b64_join x y = unat v div 4096"
    using b64_vals [of v] digits64_2 [OF n] unfolding b64_join_def by metis
  show ?thesis unfolding enc by (simp add: vals sum bytes)
qed

lemma b64_dec_enc: "b64_dec (b64_enc ds) = Some ds"
proof (induction ds rule: b64_enc.induct)
  case 1
  then show ?case by simp
next
  case (2 a)
  then show ?case by (rule b64_dec_group1)
next
  case (3 a b)
  then show ?case by (rule b64_dec_group2)
next
  case (4 a b c ds)
  then have "b64_dec (b64_enc [a, b, c] @ b64_enc ds) = Some ([a, b, c] @ ds)"
    by (intro b64_dec_group3) simp
  then show ?case by (simp add: Let_def)
qed

lemma length_b64_enc: "Suc (length (b64_enc ds)) = hsed_base64_encoded_len (length ds)"
proof (induction ds rule: b64_enc.induct)
  case (4 a b c ds)
  have "(length ds + 5) div 3 = Suc ((length ds + 2) div 3)" by presburger
  with 4 show ?case by (simp add: hsed_base64_encoded_len_def Let_def add.commute)
qed (auto simp: hsed_base64_encoded_len_def Let_def)

lemma set_b64_enc: "set (b64_enc ds) \<subseteq> insert (CHR ''='') (set B64_TABLE)"
  by (induction ds rule: b64_enc.induct) (auto simp: Let_def b64_at_in_table)

section \<open>The encoder writes that string\<close>

lemma drop_take_group:
  assumes "i + 3 \<le> len" and "len \<le> length data"
  shows "drop i (take len data) =
    data ! i # data ! (i + 1) # data ! (i + 2) # drop (i + 3) (take len data)"
  using assms by (simp add: Cons_nth_drop_Suc [symmetric] numeral_3_eq_3)

lemma b64_tail_eq:
  assumes "len \<le> length data" and "i \<le> len" and "len < i + 3"
    and "pos + length (b64_enc (drop i (take len data))) < length out"
  shows "b64_tail data len (i, pos, out) =
    Some ((overwrite pos (b64_enc (drop i (take len data))) out)
      [pos + length (b64_enc (drop i (take len data))) := NUL])"
proof -
  consider "len = i" | "len = i + 1" | "len = i + 2" using assms(2,3) by linarith
  then show ?thesis
  proof cases
    case 1
    with assms show ?thesis by (simp add: b64_tail_def buf_simps)
  next
    case 2
    then have "drop i (take len data) = [data ! i]"
      using assms(1) by (simp add: Cons_nth_drop_Suc [symmetric])
    with 2 assms show ?thesis
      by (simp add: b64_tail_def buf_simps Let_def puts_at_ok)
  next
    case 3
    then have "drop i (take len data) = [data ! i, data ! (i + 1)]"
      using assms(1) by (simp add: Cons_nth_drop_Suc [symmetric] numeral_2_eq_2)
    with 3 assms show ?thesis
      by (simp add: b64_tail_def buf_simps Let_def puts_at_ok)
  qed
qed

lemma b64_run:
  assumes "len \<le> length data" and "i \<le> len"
    and "pos + length (b64_enc (drop i (take len data))) < length out"
  shows "b64_loop data len i (pos, out) \<bind> b64_tail data len =
    Some ((overwrite pos (b64_enc (drop i (take len data))) out)
      [pos + length (b64_enc (drop i (take len data))) := NUL])"
  using assms
proof (induction data len i "(pos, out)" arbitrary: pos out rule: b64_loop.induct)
  case (1 data len i)
  show ?case
  proof (cases "i + 3 \<le> len")
    case False
    with "1.prems" show ?thesis by (simp add: b64_loop.simps [of data len i] b64_tail_eq)
  next
    case True
    define v :: "32 word" where "v = push_bit 16 (ucast (data ! i)) OR
      push_bit 8 (ucast (data ! (i + 1))) OR ucast (data ! (i + 2))"
    let ?g = "[b64_at v 18, b64_at v 12, b64_at v 6, b64_at v 0]"
    let ?rest = "b64_enc (drop (i + 3) (take len data))"
    have enc: "b64_enc (drop i (take len data)) = ?g @ ?rest"
      using drop_take_group [OF True "1.prems"(1)] by (simp add: Let_def v_def)
    have put: "puts_at ?g (pos, out) = Some (pos + 4, overwrite pos ?g out)"
      using "1.prems"(3) enc by (simp add: puts_at_ok)
    have step: "b64_loop data len i (pos, out) =
        b64_loop data len (i + 3) (pos + 4, overwrite pos ?g out)"
      using True "1.prems"(1) put
      by (subst b64_loop.simps) (simp add: buf_simps Let_def v_def)
    have "b64_loop data len (i + 3) (pos + 4, overwrite pos ?g out) \<bind> b64_tail data len =
        Some ((overwrite (pos + 4) ?rest (overwrite pos ?g out))[pos + 4 + length ?rest := NUL])"
      using "1.prems" enc
      by (intro "1.hyps" [OF True rd_in rd_in rd_in v_def put]) (use True in auto)
    also have "overwrite (pos + 4) ?rest (overwrite pos ?g out) = overwrite pos (?g @ ?rest) out"
      using overwrite_overwrite [of pos ?g ?rest out] "1.prems"(3) enc
      by (simp add: numeral_eq_Suc)
    finally show ?thesis unfolding step enc by (simp add: numeral_eq_Suc add.assoc)
  qed
qed

lemma hsed_base64_encode_eq:
  assumes "len \<le> length data" and "hsed_base64_encoded_len len \<le> length out"
  shows "hsed_base64_encode data len out =
    Some ((overwrite 0 (b64_enc (take len data)) out)[length (b64_enc (take len data)) := NUL])"
proof -
  have "length (b64_enc (take len data)) < length out"
    using assms length_b64_enc [of "take len data"] by simp
  then show ?thesis
    using b64_run [of len data 0 0 out] assms(1) by (simp add: hsed_base64_encode_def)
qed

lemma b64_enc_no_nul: "NUL \<notin> set (b64_enc ds)"
  using set_b64_enc [of ds] by (auto simp: B64_TABLE_def)

lemma hsed_base64_encode_string:
  assumes "len \<le> length data" and "hsed_base64_encoded_len len \<le> length out"
  shows "\<exists>out'. hsed_base64_encode data len out = Some out' \<and> length out' = length out \<and>
    cstr out' = b64_enc (take len data)"
proof -
  have "length (b64_enc (take len data)) < length out"
    using assms length_b64_enc [of "take len data"] by simp
  then show ?thesis
    using hsed_base64_encode_eq [OF assms] cstr_overwrite [OF _ b64_enc_no_nul] by simp
qed

text \<open>
  C10. Given an output array of \<open>hsed_base64_encoded_len len\<close> bytes, \<open>hsed_base64_encode\<close> stays
  inside it and inside the \<open>len\<close> input bytes, leaves a NUL-terminated string of exactly one
  byte less than that size, over the base-64 alphabet, and decoding this string by RFC 4648
  gives the input bytes back.
\<close>

theorem hsed_base64_encode_roundtrip:
  assumes "len \<le> length data" and "length out = hsed_base64_encoded_len len"
  shows "\<exists>out'. hsed_base64_encode data len out = Some out' \<and>
    length (cstr out') + 1 = hsed_base64_encoded_len len \<and>
    set (cstr out') \<subseteq> insert (CHR ''='') (set B64_TABLE) \<and>
    b64_dec (cstr out') = Some (take len data)"
proof -
  obtain out' where "hsed_base64_encode data len out = Some out'"
    and "cstr out' = b64_enc (take len data)"
    using hsed_base64_encode_string [of len data out] assms by auto
  moreover have "length (b64_enc (take len data)) + 1 = hsed_base64_encoded_len len"
    using length_b64_enc [of "take len data"] assms(1) by simp
  ultimately show ?thesis using set_b64_enc b64_dec_enc by simp
qed

theorem hsed_base64_encode_roundtrip_witness:
  "\<exists>out'. hsed_base64_encode [0xFF, 0x00, 0x41, 0x0A] 4 (replicate 9 NUL) = Some out' \<and>
    length (cstr out') + 1 = 9 \<and> b64_dec (cstr out') = Some [0xFF, 0x00, 0x41, 0x0A]"
  using hsed_base64_encode_roundtrip [of 4 "[0xFF, 0x00, 0x41, 0x0A]" "replicate 9 NUL"]
  by (auto simp: hsed_base64_encoded_len_def)

end
