(* ===== verification/Hsed_Kernel.thy ===== *)
theory Hsed_Kernel
  imports Hsed_CLib
begin

text \<open>
  The operating system as the daemon sees it. The kernel is code outside the repository, so it is
  a parameter: a record of the calls the daemon makes, over an abstract kernel state \<open>'w\<close>.
  Queries read the state; \<open>open\<close>, \<open>ftruncate\<close>, \<open>close\<close> and \<open>kill\<close> return the next state. A scan runs on one state,
  that is, on one snapshot of \<open>/proc\<close>.
\<close>

type_synonym errno = int

definition EPERM :: errno where "EPERM = 1"
definition EINTR :: errno where "EINTR = 4"
definition ECHILD :: errno where "ECHILD = 10"
definition EAGAIN :: errno where "EAGAIN = 11"

record stat_t =
  st_size :: int
  st_uid :: uid_t
  st_ino :: u64
  st_dev :: u64
  st_mtime :: int

record 'w kernel =
  k_stat :: "'w \<Rightarrow> string \<Rightarrow> errno + stat_t"
    \<comment> \<open>\<open>stat(path)\<close>\<close>
  k_readdir :: "'w \<Rightarrow> string \<Rightarrow> string list option"
    \<comment> \<open>\<open>opendir\<close> (\<open>None\<close> when it fails) and the names \<open>readdir\<close> returns, in order\<close>
  k_readlink :: "'w \<Rightarrow> string \<Rightarrow> string option"
  k_content :: "'w \<Rightarrow> string \<Rightarrow> string option"
    \<comment> \<open>\<open>open\<close>/\<open>fopen\<close> for reading (\<open>None\<close> when it fails) and the bytes of the file;
      one \<open>read\<close> of a \<open>/proc\<close> file returns as many of them as were asked for\<close>
  k_pwname :: "'w \<Rightarrow> uid_t \<Rightarrow> string option"
    \<comment> \<open>\<open>pw_name\<close> of \<open>getpwuid_r\<close>, \<open>None\<close> when it finds no entry\<close>
  k_realloc_ok :: "'w \<Rightarrow> nat \<Rightarrow> bool"
    \<comment> \<open>whether an allocation of so many bytes succeeds\<close>
  k_nproc :: "'w \<Rightarrow> int"
    \<comment> \<open>\<open>sysconf(_SC_NPROCESSORS_ONLN)\<close>\<close>
  k_spawn_ok :: "'w \<Rightarrow> nat \<Rightarrow> bool"
    \<comment> \<open>whether \<open>pthread_create\<close> of the \<open>i\<close>-th scan worker succeeds\<close>
  k_open_wr :: "'w \<Rightarrow> string \<Rightarrow> (errno + nat) \<times> 'w"
    \<comment> \<open>\<open>open(path, O_WRONLY)\<close>: an error or the new descriptor, and the next state\<close>
  k_ftruncate :: "'w \<Rightarrow> nat \<Rightarrow> errno option \<times> 'w"
    \<comment> \<open>\<open>ftruncate(fd, 0)\<close>: the error, if any, and the next state\<close>
  k_close :: "'w \<Rightarrow> nat \<Rightarrow> 'w"
  k_kill :: "'w \<Rightarrow> int \<Rightarrow> int \<Rightarrow> errno option \<times> 'w"
  k_strerror :: "errno \<Rightarrow> string"

text \<open>\<open>major\<close> and \<open>minor\<close> of a 64-bit \<open>dev_t\<close>.\<close>

definition dev_major :: "u64 \<Rightarrow> 32 word" where
  "dev_major d = ucast (drop_bit 8 (d AND 0xFFF00) OR drop_bit 32 (d AND 0xFFFFF00000000000))"

definition dev_minor :: "u64 \<Rightarrow> 32 word" where
  "dev_minor d = ucast (d AND 0xFF OR drop_bit 12 (d AND 0xFFFFFF00000))"

section \<open>A small concrete machine\<close>

text \<open>
  One process with pid 42 and uid 1000 that holds an unlinked log file open on descriptor 3. The
  state is the size of that file and the descriptors the daemon has open. The concrete instances
  of the theorems run on it.
\<close>

type_synonym demo_state = "int \<times> nat list"

definition demo_stat :: "demo_state \<Rightarrow> string \<Rightarrow> errno + stat_t" where
  "demo_stat w path =
     (if path = ''/proc/42'' then Inr \<lparr>st_size = 0, st_uid = 1000, st_ino = 7, st_dev = 3, st_mtime = 0\<rparr>
      else if path = ''/proc/42/fd/3''
        then Inr \<lparr>st_size = fst w, st_uid = 1000, st_ino = 99, st_dev = 2049, st_mtime = 1700000000\<rparr>
      else Inl 2)"

definition demo_kernel :: "demo_state kernel" where
  "demo_kernel =
     \<lparr>k_stat = demo_stat,
      k_readdir = (\<lambda>w path. if path = ''/proc'' then Some [''.'', ''self'', ''42'']
        else if path = ''/proc/42/fd'' then Some [''.'', ''..'', ''1'', ''3'']
        else if path = ''/proc/42/task'' then Some [''.'', ''..'', ''42'', ''43''] else None),
      k_readlink = (\<lambda>w path. if path = ''/proc/42/fd/1'' then Some ''/dev/null''
        else if path = ''/proc/42/fd/3'' then Some ''/l (deleted)'' else None),
      k_content = (\<lambda>w path. if path = ''/proc/42/comm'' then Some (''d'' @ [LF])
        else if path = ''/proc/42/cmdline'' then Some (''d'' @ [NUL] @ ''-v'' @ [NUL])
        else if path = ''/proc/42/fdinfo/3'' then Some (''flags:'' @ [TAB] @ ''01'' @ [LF]) else None),
      k_pwname = (\<lambda>w uid. None),
      k_realloc_ok = (\<lambda>w n. True),
      k_nproc = (\<lambda>w. 2),
      k_spawn_ok = (\<lambda>w i. True),
      k_open_wr = (\<lambda>w path. if path = ''/proc/42/fd/3'' then (Inr 5, (fst w, 5 # snd w)) else (Inl 2, w)),
      k_ftruncate = (\<lambda>w fd. if fd = 5 then (None, (0, snd w)) else (Some 9, w)),
      k_close = (\<lambda>w fd. (fst w, remove1 fd (snd w))),
      k_kill = (\<lambda>w pid sig. if pid = 42 then (None, w) else (Some 3, w)),
      k_strerror = (\<lambda>e. if e = 2 then ''No such file or directory'' else ''error'')\<rparr>"

abbreviation demo_w :: demo_state where "demo_w \<equiv> (5000, [])"

lemma demo_kernel_sel [simp]:
  "k_stat demo_kernel = demo_stat"
  "k_realloc_ok demo_kernel = (\<lambda>w n. True)"
  "k_pwname demo_kernel = (\<lambda>w uid. None)"
  "k_nproc demo_kernel = (\<lambda>w. 2)"
  "k_spawn_ok demo_kernel = (\<lambda>w i. True)"
  by (simp_all add: demo_kernel_def)

lemma demo_kernel_acts:
  "k_open_wr demo_kernel w path =
    (if path = ''/proc/42/fd/3'' then (Inr 5, (fst w, 5 # snd w)) else (Inl 2, w))"
  "k_ftruncate demo_kernel w fd = (if fd = 5 then (None, (0, snd w)) else (Some 9, w))"
  "k_close demo_kernel w fd = (fst w, remove1 fd (snd w))"
  "k_kill demo_kernel w pid sig = (if pid = 42 then (None, w) else (Some 3, w))"
  by (simp_all add: demo_kernel_def)

end
