(* ===== verification/Hsed_ProcScan.thy ===== *)
theory Hsed_ProcScan
  imports Hsed_Kernel Hsed_Util
begin

text \<open>
  \<open>proc_scan.c\<close>, the part that scans one process: the entry and list types, the growing list,
  the readers of \<open>/proc/<pid>\<close> and \<open>scan_one_pid\<close> itself, with its lazily filled caches and its
  two modes (a list of entries, or counters only).
\<close>

section \<open>Data\<close>

definition HSED_PATH_MAX :: nat where "HSED_PATH_MAX = 4096"
definition HSED_NAME_MAX :: nat where "HSED_NAME_MAX = 256"
definition HSED_CMDLINE_MAX :: nat where "HSED_CMDLINE_MAX = 1024"
definition HSED_UID_ANY :: uid_t where "HSED_UID_ANY = - 1"
definition DELETED_SUFFIX :: string where "DELETED_SUFFIX = '' (deleted)''"
definition DELETED_SUFFIX_LEN :: nat where "DELETED_SUFFIX_LEN = 10"

lemmas scan_consts = HSED_PATH_MAX_def HSED_NAME_MAX_def HSED_CMDLINE_MAX_def
  DELETED_SUFFIX_def DELETED_SUFFIX_LEN_def

text \<open>The character arrays of the C struct stand for the strings they hold.\<close>

record hsed_entry_t =
  e_pid :: int
  e_fd :: int
  e_mode :: string
  e_size :: int
  e_uid :: uid_t
  e_user :: string
  e_comm :: string
  e_cmdline :: string
  e_path :: string
  e_inode :: u64
  e_dev_major :: "32 word"
  e_dev_minor :: "32 word"
  e_mtime :: int

text \<open>The array \<open>items\<close> has \<open>capacity\<close> elements, of which the first \<open>count\<close> are in use.\<close>

record hsed_list_t =
  items :: "hsed_entry_t list"
  l_count :: nat
  l_capacity :: nat

record hsed_stats_t =
  s_count :: nat
  total_bytes :: ll

section \<open>The growing list\<close>

definition hsed_list_init :: "hsed_list_t" where
  "hsed_list_init = \<lparr>items = [], l_count = 0, l_capacity = 0\<rparr>"

definition hsed_list_free :: "hsed_list_t \<Rightarrow> hsed_list_t" where
  "hsed_list_free l = l\<lparr>items := [], l_count := 0, l_capacity := 0\<rparr>"

definition sizeof_hsed_entry_t :: nat where
  "sizeof_hsed_entry_t = 5688"

text \<open>Stands for the bytes of a fresh element, which no code reads before they are written.\<close>

definition blank_entry :: hsed_entry_t where
  "blank_entry = \<lparr>e_pid = 0, e_fd = 0, e_mode = [], e_size = 0, e_uid = 0, e_user = [],
     e_comm = [], e_cmdline = [], e_path = [], e_inode = 0, e_dev_major = 0, e_dev_minor = 0,
     e_mtime = 0\<rparr>"

definition list_push :: "(nat \<Rightarrow> bool) \<Rightarrow> hsed_list_t \<Rightarrow> hsed_entry_t \<Rightarrow> int \<times> hsed_list_t" where
  "list_push realloc_ok l e =
     (if l_count l = l_capacity l then
        (let newcap = (if l_capacity l = 0 then 64 else l_capacity l * 2) in
         if \<not> realloc_ok (newcap * sizeof_hsed_entry_t) then (- 1, l)
         else (0, l\<lparr>items := (items l @ replicate (newcap - l_capacity l) blank_entry)[l_count l := e],
                   l_capacity := newcap, l_count := l_count l + 1\<rparr>))
      else (0, l\<lparr>items := (items l)[l_count l := e], l_count := l_count l + 1\<rparr>))"

text \<open>The abstract value of the list and its invariant.\<close>

definition list_contents :: "hsed_list_t \<Rightarrow> hsed_entry_t list" where
  "list_contents l = take (l_count l) (items l)"

definition list_inv :: "hsed_list_t \<Rightarrow> bool" where
  "list_inv l \<longleftrightarrow> l_count l \<le> l_capacity l \<and> length (items l) = l_capacity l"

text \<open>
  The interface the scanner relies on, shared by the entry list and by the array of process ids:
  an append that either succeeds and extends the contents, or fails and changes nothing.
\<close>

locale growable =
  fixes push :: "'l \<Rightarrow> 'a \<Rightarrow> int \<times> 'l"
    and contents :: "'l \<Rightarrow> 'a list"
    and inv :: "'l \<Rightarrow> bool"
  assumes push_ok: "inv l \<Longrightarrow> push l x = (0, l') \<Longrightarrow> inv l' \<and> contents l' = contents l @ [x]"
    and push_fail: "push l x = (r, l') \<Longrightarrow> r \<noteq> 0 \<Longrightarrow> r = - 1 \<and> l' = l"

text \<open>Appending one after the other, up to the first failure.\<close>

fun push_all :: "('l \<Rightarrow> 'a \<Rightarrow> int \<times> 'l) \<Rightarrow> 'l \<Rightarrow> 'a list \<Rightarrow> int \<times> 'l" where
  "push_all push l [] = (0, l)"
| "push_all push l (x # xs) =
     (case push l x of (r, l') \<Rightarrow> if r \<noteq> 0 then (- 1, l') else push_all push l' xs)"

context growable
begin

lemma push_all_ok:
  "inv l \<Longrightarrow> push_all push l xs = (0, l') \<Longrightarrow> inv l' \<and> contents l' = contents l @ xs"
proof (induction xs arbitrary: l)
  case Nil
  then show ?case by simp
next
  case (Cons x xs)
  then obtain l1 where "push l x = (0, l1)" and "push_all push l1 xs = (0, l')"
    by (auto split: prod.splits if_splits)
  with Cons push_ok [of l x l1] show ?case by auto
qed

text \<open>A failed run keeps what was appended before.\<close>

lemma push_all_fail:
  "inv l \<Longrightarrow> push_all push l xs = (r, l') \<Longrightarrow> r \<noteq> 0 \<Longrightarrow>
   inv l' \<and> (\<exists>ys zs. xs = ys @ zs \<and> zs \<noteq> [] \<and> contents l' = contents l @ ys)"
proof (induction xs arbitrary: l)
  case Nil
  then show ?case by simp
next
  case (Cons x xs)
  obtain r1 l1 where p: "push l x = (r1, l1)" by fastforce
  show ?case
  proof (cases "r1 = 0")
    case False
    with p push_fail [of l x r1 l1] Cons.prems show ?thesis by auto
  next
    case True
    with p Cons.prems have rest: "push_all push l1 xs = (r, l')" by simp
    from True p Cons.prems push_ok [of l x l1]
    have l1: "inv l1" "contents l1 = contents l @ [x]" by auto
    from Cons.IH [OF l1(1) rest Cons.prems(3)] obtain ys zs
      where "inv l'" "xs = ys @ zs" "zs \<noteq> []" "contents l' = contents l1 @ ys" by blast
    then show ?thesis using l1 by (intro conjI exI [of _ "x # ys"] exI [of _ zs]) auto
  qed
qed

end

lemma list_inv_init [simp]: "list_inv hsed_list_init" "list_contents hsed_list_init = []"
  by (simp_all add: hsed_list_init_def list_inv_def list_contents_def)

lemma list_push_ok:
  assumes "list_inv l" and "list_push ok l e = (0, l')"
  shows "list_inv l' \<and> list_contents l' = list_contents l @ [e]"
proof (cases "l_count l = l_capacity l")
  case False
  with assms show ?thesis
    by (auto simp: list_push_def list_inv_def list_contents_def take_Suc_list_update)
next
  case True
  define newcap where "newcap = (if l_capacity l = 0 then 64 else l_capacity l * 2)"
  let ?arr = "items l @ replicate (newcap - l_capacity l) blank_entry"
  from assms True have l': "l' = l\<lparr>items := ?arr[l_count l := e], l_capacity := newcap,
      l_count := l_count l + 1\<rparr>"
    by (auto simp: list_push_def Let_def newcap_def split: if_splits)
  have len: "l_count l < length ?arr" "length ?arr = newcap" "l_count l = length (items l)"
    using True assms(1) by (auto simp: newcap_def list_inv_def)
  have "take (Suc (l_count l)) (?arr[l_count l := e]) = take (l_count l) ?arr @ [e]"
    using len(1) by (rule take_Suc_list_update)
  then show ?thesis using len assms(1) unfolding l' by (simp add: list_inv_def list_contents_def)
qed

interpretation elist: growable "list_push ok" list_contents list_inv
  by unfold_locales (auto simp: list_push_ok, auto simp: list_push_def Let_def split: if_splits)

text \<open>The same interface when memory does not run out.\<close>

locale growable_total = growable +
  assumes push_succeeds: "fst (push l x) = 0"
begin

lemma push_all_total: "inv l \<Longrightarrow> \<exists>l'. push_all push l xs = (0, l') \<and> inv l' \<and> contents l' = contents l @ xs"
proof -
  assume l: "inv l"
  have "fst (push_all push l xs) = 0"
  proof (induction xs arbitrary: l)
    case Nil
    then show ?case by simp
  next
    case (Cons x xs)
    show ?case using push_succeeds [of l x] Cons [of "snd (push l x)"]
      by (cases "push l x") simp
  qed
  then show ?thesis using push_all_ok [OF l] by (metis prod.collapse)
qed

end

interpretation elist_total: growable_total "list_push (\<lambda>n. True)" list_contents list_inv
  by unfold_locales (simp add: list_push_def Let_def)

section \<open>Small helpers\<close>

definition is_all_digits :: "string \<Rightarrow> bool" where
  "is_all_digits s = (s \<noteq> [] \<and> list_all isdigit s)"

definition hsed_strlcpy_local :: "string \<Rightarrow> string \<Rightarrow> nat \<Rightarrow> (nat \<times> string) option" where
  "hsed_strlcpy_local dst src dstsize =
     (let srclen = length (cstr src) in
      if 0 < dstsize then
        (let copy = (if srclen < dstsize - 1 then srclen else dstsize - 1) in
         do { (pos, dst1) \<leftarrow> puts_at (take copy (cstr src)) (0, dst);
              dst2 \<leftarrow> wr dst1 copy NUL;
              Some (srclen, dst2) })
      else Some (srclen, dst))"

text \<open>
  The private copy in \<open>proc_scan.c\<close> computes what \<open>hsed_strlcpy\<close> does, so below both appear as
  the string \<open>strlcpy_val\<close> that the destination denotes.
\<close>

lemma hsed_strlcpy_local_eq: "hsed_strlcpy_local = hsed_strlcpy"
  by (intro ext) (simp only: hsed_strlcpy_local_def hsed_strlcpy_def)

definition starts_with :: "string \<Rightarrow> string \<Rightarrow> bool" where
  "starts_with s pre = (take (length pre) s = pre)"

definition is_virtual_target :: "string \<Rightarrow> bool" where
  "is_virtual_target path =
     (starts_with path ''pipe:'' \<or> starts_with path ''socket:'' \<or>
      starts_with path ''anon_inode:'' \<or> starts_with path ''/memfd:'' \<or> path = ''/dev/zero'')"

section \<open>Reading files of \<open>/proc\<close>\<close>

text \<open>The paths the code formats into its fixed-size buffers.\<close>

definition path_proc :: "int \<Rightarrow> string" where
  "path_proc pid = snprintf 32 (''/proc/'' @ show_int pid)"

definition path_fd_dir :: "int \<Rightarrow> string" where
  "path_fd_dir pid = snprintf 64 (''/proc/'' @ show_int pid @ ''/fd'')"

definition path_comm :: "int \<Rightarrow> string" where
  "path_comm pid = snprintf 64 (''/proc/'' @ show_int pid @ ''/comm'')"

definition path_cmdline :: "int \<Rightarrow> string" where
  "path_cmdline pid = snprintf 64 (''/proc/'' @ show_int pid @ ''/cmdline'')"

definition path_fdinfo :: "int \<Rightarrow> int \<Rightarrow> string" where
  "path_fdinfo pid fdnum = snprintf 64 (''/proc/'' @ show_int pid @ ''/fdinfo/'' @ show_int fdnum)"

text \<open>The loop that overwrites trailing line ends with NUL.\<close>

definition strip_eol :: "string \<Rightarrow> string" where
  "strip_eol s = rev (dropWhile (\<lambda>c. c = LF \<or> c = CR) (rev s))"

definition read_first_line :: "'w kernel \<Rightarrow> 'w \<Rightarrow> string \<Rightarrow> nat \<Rightarrow> string" where
  "read_first_line K w path buflen =
     (case k_content K w path of None \<Rightarrow> []
      | Some text \<Rightarrow>
          (case fgets buflen text of None \<Rightarrow> [] | Some (line, rest) \<Rightarrow> strip_eol (cstr line)))"

text \<open>
  One pass of the loop over the NUL-separated arguments. \<open>out\<close> is what \<open>buf\<close> holds so far (its
  length is \<open>out_pos\<close>); \<open>raw\<close> are the \<open>n\<close> bytes read, and the terminator the code stores behind
  them is the end of the list.
\<close>

function cmdline_loop :: "nat \<Rightarrow> string \<Rightarrow> nat \<Rightarrow> string \<Rightarrow> bool \<Rightarrow> string \<times> bool" where
  "cmdline_loop buflen raw i out wrote_any =
     (if i < length raw then
        (let arg = cstr (drop i raw); arglen = length arg in
         if arglen > 0 then
           (let out1 = (if wrote_any \<and> length out + 1 < buflen then out @ '' '' else out);
                copy = (if length out1 + arglen \<ge> buflen then buflen - length out1 - 1 else arglen);
                out2 = (if length out1 < buflen - 1 then out1 @ take copy arg else out1)
            in cmdline_loop buflen raw (i + arglen + 1) out2 True)
         else cmdline_loop buflen raw (length raw) out wrote_any)
      else (out, wrote_any))"
  by pat_completeness auto
termination
  by (relation "measure (\<lambda>(buflen, raw, i, out, any). length raw - i)") auto

declare cmdline_loop.simps [simp del]

definition cmdline_fallback :: "'w kernel \<Rightarrow> 'w \<Rightarrow> int \<Rightarrow> nat \<Rightarrow> string" where
  "cmdline_fallback K w pid buflen =
     (let s = read_first_line K w (path_comm pid) buflen
      in if s = [] then strlcpy_val buflen ''?'' else s)"

definition read_cmdline :: "'w kernel \<Rightarrow> 'w \<Rightarrow> int \<Rightarrow> nat \<Rightarrow> string" where
  "read_cmdline K w pid buflen =
     (case k_content K w (path_cmdline pid) of
        None \<Rightarrow> cmdline_fallback K w pid buflen
      | Some text \<Rightarrow>
          (let raw = take (HSED_CMDLINE_MAX - 1) text in
           if raw = [] then cmdline_fallback K w pid buflen
           else (case cmdline_loop buflen raw 0 [] False of (out, wrote_any) \<Rightarrow>
             if wrote_any then (if length out < buflen then out else take (buflen - 1) out)
             else cmdline_fallback K w pid buflen)))"

definition owner_name :: "'w kernel \<Rightarrow> 'w \<Rightarrow> uid_t \<Rightarrow> nat \<Rightarrow> string" where
  "owner_name K w uid buflen =
     (case k_pwname K w uid of
        Some name \<Rightarrow> strlcpy_val buflen name
      | None \<Rightarrow> snprintf buflen (show_nat (unat uid)))"

text \<open>The access mode of a line \<open>flags:\<close>, from its octal number.\<close>

definition mode_of_flags :: "string \<Rightarrow> string" where
  "mode_of_flags line =
     (let acc = fst (strtol 8 (drop 6 line)) AND 3 in
      if acc = 0 then ''r'' else if acc = 1 then ''w'' else if acc = 2 then ''rw'' else ''?'')"

function fd_mode_lines :: "string \<Rightarrow> string" where
  "fd_mode_lines text =
     (case fgets 128 text of None \<Rightarrow> ''?''
      | Some (line, rest) \<Rightarrow>
          if starts_with (cstr line) ''flags:'' then mode_of_flags (cstr line)
          else fd_mode_lines rest)"
  by pat_completeness auto
termination
proof (relation "measure length", goal_cases)
  case 1
  then show ?case by simp
next
  case (2 body a line rest)
  then have "rest = snd (fgets_upto 127 body)" "body \<noteq> []"
    by (auto simp: fgets_def split: if_splits prod.splits)
  with fgets_upto_progress [of 127 body] show ?case by simp
qed

declare fd_mode_lines.simps [simp del]

definition fd_mode :: "'w kernel \<Rightarrow> 'w \<Rightarrow> int \<Rightarrow> int \<Rightarrow> string" where
  "fd_mode K w pid fdnum =
     (case k_content K w (path_fdinfo pid fdnum) of
        None \<Rightarrow> ''?'' | Some text \<Rightarrow> fd_mode_lines text)"

section \<open>Scanning one process\<close>

text \<open>Where a scan puts what it finds: the entry list (SCAN) or the counters (STATS).\<close>

datatype sink = To_List hsed_list_t | To_Stats hsed_stats_t

text \<open>The buffers that are filled when the first matching descriptor needs them.\<close>

record scan_cache =
  c_comm :: "string option"
  c_cmdline :: "string option"
  c_owner :: "string option"

text \<open>
  The tests on one directory entry of \<open>/proc/<pid>/fd\<close>: the descriptor number, the link target
  without its suffix and the \<open>stat\<close> of the open file, or \<open>None\<close> where the loop continues.
\<close>

definition match_fd :: "'w kernel \<Rightarrow> 'w \<Rightarrow> string \<Rightarrow> int \<Rightarrow> string \<Rightarrow> (int \<times> string \<times> stat_t) option" where
  "match_fd K w fd_dir min_size name =
     (if take 1 name = ''.'' then None
      else if \<not> is_all_digits name then None
      else (let fdnum = atoi name; link_path = snprintf 322 (fd_dir @ ''/'' @ name) in
        case k_readlink K w link_path of None \<Rightarrow> None
        | Some link \<Rightarrow>
            (let target = take (HSED_PATH_MAX - 1) link; tlen = length target in
             if tlen < DELETED_SUFFIX_LEN then None
             else if drop (tlen - DELETED_SUFFIX_LEN) target \<noteq> DELETED_SUFFIX then None
             else (let target' = take (tlen - DELETED_SUFFIX_LEN) target in
               if is_virtual_target target' then None
               else case k_stat K w link_path of Inl err \<Rightarrow> None
                 | Inr st \<Rightarrow> if st_size st < min_size then None else Some (fdnum, target', st)))))"

definition load_comm :: "'w kernel \<Rightarrow> 'w \<Rightarrow> int \<Rightarrow> string" where
  "load_comm K w pid =
     (let s = read_first_line K w (path_comm pid) HSED_NAME_MAX
      in if s = [] then strlcpy_val HSED_NAME_MAX ''?'' else s)"

definition fill_cache :: "'w kernel \<Rightarrow> 'w \<Rightarrow> int \<Rightarrow> uid_t \<Rightarrow> scan_cache \<Rightarrow> string \<times> string \<times> string \<times> scan_cache" where
  "fill_cache K w pid owner_uid c =
     (let comm = (case c_comm c of Some s \<Rightarrow> s | None \<Rightarrow> load_comm K w pid);
          cmdline = (case c_cmdline c of Some s \<Rightarrow> s | None \<Rightarrow> read_cmdline K w pid HSED_CMDLINE_MAX);
          own = (case c_owner c of Some s \<Rightarrow> s | None \<Rightarrow> owner_name K w owner_uid HSED_NAME_MAX)
      in (comm, cmdline, own, \<lparr>c_comm = Some comm, c_cmdline = Some cmdline, c_owner = Some own\<rparr>))"

definition make_entry :: "'w kernel \<Rightarrow> 'w \<Rightarrow> int \<Rightarrow> uid_t \<Rightarrow> string \<Rightarrow> string \<Rightarrow> string \<Rightarrow>
    int \<times> string \<times> stat_t \<Rightarrow> hsed_entry_t" where
  "make_entry K w pid owner_uid comm cmdline own m = (case m of (fdnum, target, st) \<Rightarrow>
     \<lparr>e_pid = pid, e_fd = fdnum, e_mode = fd_mode K w pid fdnum, e_size = st_size st,
      e_uid = owner_uid, e_user = strlcpy_val HSED_NAME_MAX own,
      e_comm = strlcpy_val HSED_NAME_MAX comm, e_cmdline = strlcpy_val HSED_CMDLINE_MAX cmdline,
      e_path = strlcpy_val HSED_PATH_MAX target, e_inode = st_ino st,
      e_dev_major = dev_major (st_dev st), e_dev_minor = dev_minor (st_dev st),
      e_mtime = st_mtime st\<rparr>)"

fun scan_fds :: "'w kernel \<Rightarrow> 'w \<Rightarrow> int \<Rightarrow> uid_t \<Rightarrow> string \<Rightarrow> int \<Rightarrow> string list \<Rightarrow> scan_cache \<Rightarrow> sink \<Rightarrow> int \<times> sink" where
  "scan_fds K w pid owner_uid fd_dir min_size [] c out = (0, out)"
| "scan_fds K w pid owner_uid fd_dir min_size (name # names) c out =
     (case match_fd K w fd_dir min_size name of
        None \<Rightarrow> scan_fds K w pid owner_uid fd_dir min_size names c out
      | Some m \<Rightarrow>
          (case out of
             To_Stats s \<Rightarrow> scan_fds K w pid owner_uid fd_dir min_size names c
               (To_Stats (s\<lparr>s_count := s_count s + 1,
                           total_bytes := total_bytes s + word_of_int (st_size (snd (snd m)))\<rparr>))
           | To_List l \<Rightarrow>
               (case fill_cache K w pid owner_uid c of (comm, cmdline, own, c') \<Rightarrow>
                case list_push (k_realloc_ok K w) l (make_entry K w pid owner_uid comm cmdline own m) of
                  (r, l') \<Rightarrow> if r \<noteq> 0 then (- 1, To_List l')
                    else scan_fds K w pid owner_uid fd_dir min_size names c' (To_List l'))))"

definition scan_one_pid :: "'w kernel \<Rightarrow> 'w \<Rightarrow> sink \<Rightarrow> int \<Rightarrow> int \<Rightarrow> uid_t \<Rightarrow> int \<times> sink" where
  "scan_one_pid K w out pid min_size uid_filter =
     (case k_stat K w (path_proc pid) of
        Inl err \<Rightarrow> (0, out)
      | Inr pst \<Rightarrow>
          if uid_filter \<noteq> HSED_UID_ANY \<and> st_uid pst \<noteq> uid_filter then (0, out)
          else (let fd_dir = path_fd_dir pid in
            case k_readdir K w fd_dir of None \<Rightarrow> (0, out)
            | Some names \<Rightarrow> scan_fds K w pid (st_uid pst) fd_dir min_size names
                \<lparr>c_comm = None, c_cmdline = None, c_owner = None\<rparr> out))"

section \<open>What a scan of one process means\<close>

text \<open>
  The reference: the matches of one process, and the entries they stand for, computed without
  caches and without a list that can run out of memory.
\<close>

definition pid_matches :: "'w kernel \<Rightarrow> 'w \<Rightarrow> int \<Rightarrow> int \<Rightarrow> uid_t \<Rightarrow> (uid_t \<times> int \<times> string \<times> stat_t) list" where
  "pid_matches K w pid min_size uid_filter =
     (case k_stat K w (path_proc pid) of
        Inl err \<Rightarrow> []
      | Inr pst \<Rightarrow>
          if uid_filter \<noteq> HSED_UID_ANY \<and> st_uid pst \<noteq> uid_filter then []
          else (case k_readdir K w (path_fd_dir pid) of None \<Rightarrow> []
            | Some names \<Rightarrow> map (Pair (st_uid pst))
                (List.map_filter (match_fd K w (path_fd_dir pid) min_size) names)))"

definition entry_of :: "'w kernel \<Rightarrow> 'w \<Rightarrow> int \<Rightarrow> uid_t \<times> int \<times> string \<times> stat_t \<Rightarrow> hsed_entry_t" where
  "entry_of K w pid = (\<lambda>(owner_uid, m). make_entry K w pid owner_uid (load_comm K w pid)
     (read_cmdline K w pid HSED_CMDLINE_MAX) (owner_name K w owner_uid HSED_NAME_MAX) m)"

definition pid_entries :: "'w kernel \<Rightarrow> 'w \<Rightarrow> int \<Rightarrow> int \<Rightarrow> uid_t \<Rightarrow> hsed_entry_t list" where
  "pid_entries K w pid min_size uid_filter =
     map (entry_of K w pid) (pid_matches K w pid min_size uid_filter)"

text \<open>A \<open>pid_t\<close> or descriptor in its range prints in at most eleven characters.\<close>

definition is_c_int :: "int \<Rightarrow> bool" where
  "is_c_int i \<longleftrightarrow> - 2147483648 \<le> i \<and> i < 2147483648"

lemma length_show_c_int: "is_c_int i \<Longrightarrow> length (show_int i) \<le> 11"
  using length_show_int [of i 10] by (auto simp: is_c_int_def abs_less_iff)

lemma is_c_int_c_int [simp]: "is_c_int (c_int v)"
proof -
  have "- (2 ^ 31) \<le> sint (word_of_int v :: 32 word)" "sint (word_of_int v :: 32 word) < 2 ^ 31"
    using sint_ge [of "word_of_int v :: 32 word"] sint_lt [of "word_of_int v :: 32 word"] by simp_all
  then show ?thesis by (simp add: is_c_int_def c_int_def)
qed

lemma proc_paths:
  assumes "is_c_int pid"
  shows "path_proc pid = ''/proc/'' @ show_int pid"
    and "path_fd_dir pid = ''/proc/'' @ show_int pid @ ''/fd''"
    and "path_comm pid = ''/proc/'' @ show_int pid @ ''/comm''"
    and "path_cmdline pid = ''/proc/'' @ show_int pid @ ''/cmdline''"
    and "is_c_int fdnum \<Longrightarrow> path_fdinfo pid fdnum = ''/proc/'' @ show_int pid @ ''/fdinfo/'' @ show_int fdnum"
  using length_show_c_int [OF assms] length_show_c_int [of fdnum]
  by (auto simp: path_proc_def path_fd_dir_def path_comm_def path_cmdline_def path_fdinfo_def
      snprintf_def)

subsection \<open>The caches do not change the result\<close>

definition cache_ok :: "'w kernel \<Rightarrow> 'w \<Rightarrow> int \<Rightarrow> uid_t \<Rightarrow> scan_cache \<Rightarrow> bool" where
  "cache_ok K w pid owner_uid c \<longleftrightarrow>
     c_comm c \<in> {None, Some (load_comm K w pid)} \<and>
     c_cmdline c \<in> {None, Some (read_cmdline K w pid HSED_CMDLINE_MAX)} \<and>
     c_owner c \<in> {None, Some (owner_name K w owner_uid HSED_NAME_MAX)}"

lemma fill_cache_ok:
  assumes "cache_ok K w pid u c"
  shows "\<exists>c'. fill_cache K w pid u c = (load_comm K w pid,
      read_cmdline K w pid HSED_CMDLINE_MAX, owner_name K w u HSED_NAME_MAX, c') \<and>
    cache_ok K w pid u c'"
  using assms by (auto simp: cache_ok_def fill_cache_def Let_def)

lemma map_filter_Cons [simp]:
  "List.map_filter f (x # xs) = (case f x of None \<Rightarrow> List.map_filter f xs
     | Some y \<Rightarrow> y # List.map_filter f xs)"
  by (simp add: map_filter_def split: option.splits)

lemma scan_fds_list:
  assumes "cache_ok K w pid u c"
  shows "scan_fds K w pid u fd_dir min_size names c (To_List l) =
    map_prod id To_List (push_all (list_push (k_realloc_ok K w)) l
      (map (\<lambda>m. entry_of K w pid (u, m)) (List.map_filter (match_fd K w fd_dir min_size) names)))"
  using assms
proof (induction names arbitrary: c l)
  case Nil
  then show ?case by (simp add: map_filter_def)
next
  case (Cons name names)
  show ?case
  proof (cases "match_fd K w fd_dir min_size name")
    case None
    with Cons show ?thesis by simp
  next
    case (Some m)
    obtain c' where c': "fill_cache K w pid u c = (load_comm K w pid,
        read_cmdline K w pid HSED_CMDLINE_MAX, owner_name K w u HSED_NAME_MAX, c')"
      and ok: "cache_ok K w pid u c'"
      using fill_cache_ok [OF Cons.prems] by blast
    show ?thesis
      using Some Cons.IH [OF ok] by (auto simp: c' entry_of_def split: prod.splits)
  qed
qed

lemma scan_fds_stats:
  "scan_fds K w pid u fd_dir min_size names c (To_Stats s) =
    (let ms = List.map_filter (match_fd K w fd_dir min_size) names in
     (0, To_Stats (s\<lparr>s_count := s_count s + length ms,
       total_bytes := total_bytes s + sum_list (map (\<lambda>m. word_of_int (st_size (snd (snd m)))) ms)\<rparr>)))"
proof (induction names arbitrary: s)
  case Nil
  then show ?case by (simp add: map_filter_def)
next
  case (Cons name names)
  then show ?case by (cases "match_fd K w fd_dir min_size name") (auto simp: Let_def add.assoc)
qed

text \<open>
  Scanning one process into a list appends exactly the reference entries, up to the first failed
  allocation.
\<close>

lemma scan_one_pid_list:
  "scan_one_pid K w (To_List l) pid min_size uid_filter =
    map_prod id To_List (push_all (list_push (k_realloc_ok K w)) l (pid_entries K w pid min_size uid_filter))"
proof -
  have c: "cache_ok K w pid u \<lparr>c_comm = None, c_cmdline = None, c_owner = None\<rparr>" for u
    by (simp add: cache_ok_def)
  show ?thesis
    by (auto simp: scan_one_pid_def pid_entries_def pid_matches_def scan_fds_list [OF c] comp_def Let_def
        split: sum.splits option.splits)
qed

text \<open>Scanning one process into counters adds the reference's number and sizes, and never fails.\<close>

definition entry_total :: "hsed_entry_t list \<Rightarrow> ll" where
  "entry_total es = sum_list (map (\<lambda>e. word_of_int (e_size e)) es)"

lemma entry_total_simps [simp]:
  "entry_total [] = 0" "entry_total (e # es) = word_of_int (e_size e) + entry_total es"
  "entry_total (es @ fs) = entry_total es + entry_total fs"
  by (simp_all add: entry_total_def)

lemma e_size_entry_of [simp]: "e_size (entry_of K w pid (u, m)) = st_size (snd (snd m))"
  by (simp add: entry_of_def make_entry_def split: prod.splits)

lemma scan_one_pid_stats:
  "scan_one_pid K w (To_Stats s) pid min_size uid_filter =
    (0, To_Stats (s\<lparr>s_count := s_count s + length (pid_entries K w pid min_size uid_filter),
       total_bytes := total_bytes s + entry_total (pid_entries K w pid min_size uid_filter)\<rparr>))"
  by (auto simp: scan_one_pid_def pid_entries_def pid_matches_def scan_fds_stats Let_def comp_def
      entry_total_def split: sum.splits option.splits)

section \<open>Which descriptors match\<close>

lemma length_DELETED_SUFFIX: "length DELETED_SUFFIX = DELETED_SUFFIX_LEN"
  by (simp add: scan_consts)

lemma suffix_split:
  "length v \<le> length t \<and> drop (length t - length v) t = v \<and> u = take (length t - length v) t
   \<longleftrightarrow> t = u @ v"
proof
  assume *: "length v \<le> length t \<and> drop (length t - length v) t = v \<and> u = take (length t - length v) t"
  then show "t = u @ v" by (metis append_take_drop_id)
next
  assume "t = u @ v"
  then show "length v \<le> length t \<and> drop (length t - length v) t = v \<and> u = take (length t - length v) t"
    by simp
qed

text \<open>
  C5. A directory entry of \<open>/proc/<pid>/fd\<close> is reported exactly when it is a descriptor number
  whose link target (as far as it fits the path buffer) ends in \<open>" (deleted)"\<close>, whose name
  without that suffix is not one of the kernel's virtual files, and whose open file can be
  examined and is at least \<open>min_size\<close> bytes long; what is reported is the number, the path
  without the suffix and the file's status.
\<close>

theorem match_fd_iff:
  "match_fd K w fd_dir min_size name = Some (fdnum, target, st) \<longleftrightarrow>
     is_all_digits name \<and> fdnum = atoi name \<and>
     (\<exists>link. k_readlink K w (snprintf 322 (fd_dir @ ''/'' @ name)) = Some link \<and>
        take 4095 link = target @ '' (deleted)'') \<and>
     \<not> is_virtual_target target \<and>
     k_stat K w (snprintf 322 (fd_dir @ ''/'' @ name)) = Inr st \<and> min_size \<le> st_size st"
proof (cases "is_all_digits name")
  case False
  then show ?thesis by (auto simp: match_fd_def)
next
  case True
  then have dot: "take 1 name \<noteq> ''.''"
    by (cases name) (auto simp: is_all_digits_def isdigit_def)
  show ?thesis
  proof (cases "k_readlink K w (snprintf 322 (fd_dir @ ''/'' @ name))")
    case None
    with True show ?thesis by (auto simp: match_fd_def)
  next
    case (Some link)
    define t where "t = take 4095 link"
    have split: "DELETED_SUFFIX_LEN \<le> length t \<and>
        drop (length t - DELETED_SUFFIX_LEN) t = DELETED_SUFFIX \<and>
        target = take (length t - DELETED_SUFFIX_LEN) t \<longleftrightarrow> t = target @ '' (deleted)''"
      using suffix_split [of DELETED_SUFFIX t target] unfolding length_DELETED_SUFFIX
      by (simp only: DELETED_SUFFIX_def)
    have "match_fd K w fd_dir min_size name = Some (fdnum, target, st) \<longleftrightarrow>
      fdnum = atoi name \<and> (DELETED_SUFFIX_LEN \<le> length t \<and>
        drop (length t - DELETED_SUFFIX_LEN) t = DELETED_SUFFIX \<and>
        target = take (length t - DELETED_SUFFIX_LEN) t) \<and> \<not> is_virtual_target target \<and>
      k_stat K w (snprintf 322 (fd_dir @ ''/'' @ name)) = Inr st \<and> min_size \<le> st_size st"
      using True dot Some unfolding t_def
      by (auto simp: match_fd_def Let_def HSED_PATH_MAX_def split: sum.splits if_splits)
    then show ?thesis unfolding split using True Some by (simp add: t_def)
  qed
qed

section \<open>The command line\<close>

text \<open>The arguments in front of the first empty one, and their display form.\<close>

function nul_args :: "string \<Rightarrow> string list" where
  "nul_args s = (if cstr s = [] then [] else cstr s # nul_args (drop (length (cstr s) + 1) s))"
  by pat_completeness auto
termination
  by (relation "measure length") (auto simp: cstr_def takeWhile_eq_Nil_iff split: list.splits)

declare nul_args.simps [simp del]

fun join_sp :: "string list \<Rightarrow> string" where
  "join_sp [] = []"
| "join_sp [a] = a"
| "join_sp (a # b # as) = a @ '' '' @ join_sp (b # as)"

definition join_onto :: "string \<Rightarrow> bool \<Rightarrow> string list \<Rightarrow> string" where
  "join_onto out any args =
     (if args = [] then out else if any then out @ '' '' @ join_sp args else out @ join_sp args)"

lemma join_onto_step:
  "join_onto (if any then out @ '' '' @ a else out @ a) True args = join_onto out any (a # args)"
  by (cases args) (auto simp: join_onto_def)

lemma cmdline_loop_joins:
  assumes "length raw < buflen" and "if any then length out < i else out = []"
  shows "cmdline_loop buflen raw i out any =
    (join_onto out any (nul_args (drop i raw)), any \<or> nul_args (drop i raw) \<noteq> [])"
  using assms(2)
proof (induction "length raw - i" arbitrary: i out any rule: less_induct)
  case less
  let ?arg = "cstr (drop i raw)"
  show ?case
  proof (cases "i < length raw \<and> ?arg \<noteq> []")
    case False
    then have "nul_args (drop i raw) = []" by (subst nul_args.simps) auto
    moreover have "cmdline_loop buflen raw i out any = (out, any)"
      using False cmdline_loop.simps [of buflen raw "length raw" out any]
      by (subst cmdline_loop.simps) (auto simp: Let_def)
    ultimately show ?thesis by (simp add: join_onto_def)
  next
    case True
    have len: "i + length ?arg \<le> length raw"
      using length_cstr_le [of "drop i raw"] True unfolding length_drop by linarith
    let ?out1 = "if any \<and> length out + 1 < buflen then out @ '' '' else out"
    have out1: "?out1 = (if any then out @ '' '' else out)"
      using less.prems len assms(1) by (auto split: if_splits)
    have l1: "length (if any then out @ '' '' else out) \<le> i"
      using less.prems by (auto split: if_splits)
    let ?out2 = "if any then out @ '' '' @ ?arg else out @ ?arg"
    have step: "cmdline_loop buflen raw i out any =
        cmdline_loop buflen raw (i + length ?arg + 1) ?out2 True"
      using True l1 len assms(1) out1 by (subst cmdline_loop.simps) (auto simp: Let_def)
    have "cmdline_loop buflen raw (i + length ?arg + 1) ?out2 True =
        (join_onto ?out2 True (nul_args (drop (i + length ?arg + 1) raw)), True)"
      using less.hyps [of "i + length ?arg + 1" True ?out2] True l1 by (auto split: if_splits)
    moreover have "nul_args (drop i raw) = ?arg # nul_args (drop (i + length ?arg + 1) raw)"
      using True by (subst nul_args.simps) (simp add: add.commute add.left_commute)
    ultimately show ?thesis unfolding step by (simp add: join_onto_step)
  qed
qed

lemma length_join_nul_args: "length (join_sp (nul_args s)) \<le> length s"
proof (induction s rule: nul_args.induct)
  case (1 s)
  show ?case
  proof (cases "cstr s = []")
    case True
    then show ?thesis by (subst nul_args.simps) simp
  next
    case False
    define rest where "rest = nul_args (drop (length (cstr s) + 1) s)"
    have IH: "length (join_sp rest) \<le> length s - (length (cstr s) + 1)"
      using "1.IH" [OF False] by (simp add: rest_def)
    have "rest = [] \<or> length (cstr s) + 1 \<le> length s"
    proof (rule disjCI)
      assume "\<not> length (cstr s) + 1 \<le> length s"
      then show "rest = []" unfolding rest_def by (subst nul_args.simps) simp
    qed
    moreover have "nul_args s = cstr s # rest"
      using False unfolding rest_def by (subst nul_args.simps) simp
    ultimately show ?thesis using IH by (cases rest) auto
  qed
qed

text \<open>
  C33. When \<open>/proc/<pid>/cmdline\<close> can be read and does not start with an empty argument,
  \<open>read_cmdline\<close> returns the NUL-separated arguments of its first 1023 bytes, up to the first
  empty one, joined by single spaces; nothing more is cut off, and the buffer bound is kept. In
  every other case the answer is the process name, or \<open>"?"\<close>.
\<close>

theorem read_cmdline_joins_arguments:
  "read_cmdline K w pid HSED_CMDLINE_MAX =
     (case k_content K w (path_cmdline pid) of
        None \<Rightarrow> cmdline_fallback K w pid HSED_CMDLINE_MAX
      | Some body \<Rightarrow>
          (let args = nul_args (take 1023 body) in
           if args = [] then cmdline_fallback K w pid HSED_CMDLINE_MAX else join_sp args))"
proof (cases "k_content K w (path_cmdline pid)")
  case None
  then show ?thesis by (simp add: read_cmdline_def)
next
  case (Some body)
  let ?raw = "take 1023 body"
  have loop: "cmdline_loop 1024 ?raw 0 [] False =
      (join_onto [] False (nul_args ?raw), nul_args ?raw \<noteq> [])"
    using cmdline_loop_joins [of ?raw 1024 False "[]" 0] by simp
  have empty: "nul_args [] = []" by (subst nul_args.simps) simp
  have len: "length (join_sp args) < 1024" if "args = nul_args ?raw" "args \<noteq> []" for args
    using length_join_nul_args [of ?raw] that by simp
  show ?thesis
    using Some loop len empty
    by (auto simp: read_cmdline_def HSED_CMDLINE_MAX_def Let_def join_onto_def)
qed

section \<open>Shape of the entries\<close>

text \<open>
  The strings of an entry fit their arrays (with the terminator) and hold no NUL; this is what the
  formatter relies on.
\<close>

definition fits :: "nat \<Rightarrow> string \<Rightarrow> bool" where
  "fits n s \<longleftrightarrow> length s < n \<and> NUL \<notin> set s"

definition entry_wf :: "hsed_entry_t \<Rightarrow> bool" where
  "entry_wf e \<longleftrightarrow> e_mode e \<in> {''r'', ''w'', ''rw'', ''?''} \<and> is_c_int (e_fd e) \<and>
     fits HSED_NAME_MAX (e_user e) \<and> fits HSED_NAME_MAX (e_comm e) \<and>
     fits HSED_CMDLINE_MAX (e_cmdline e) \<and> fits HSED_PATH_MAX (e_path e)"

lemma fits_strlcpy_val: "0 < n \<Longrightarrow> fits n (strlcpy_val n s)"
  by (simp add: fits_def length_strlcpy_val)

lemma fd_mode_cases: "fd_mode K w pid fdnum \<in> {''r'', ''w'', ''rw'', ''?''}"
proof -
  have "fd_mode_lines body \<in> {''r'', ''w'', ''rw'', ''?''}" for body
  proof (induction body rule: fd_mode_lines.induct)
    case (1 body)
    then show ?case
      by (subst fd_mode_lines.simps) (auto simp: mode_of_flags_def Let_def split: option.splits)
  qed
  then show ?thesis by (auto simp: fd_mode_def split: option.splits)
qed

lemma match_fd_c_int: "match_fd K w fd_dir min_size name = Some m \<Longrightarrow> is_c_int (fst m)"
  by (auto simp: match_fd_def Let_def atoi_def split: if_splits option.splits sum.splits)

lemma match_fd_size: "match_fd K w fd_dir min_size name = Some m \<Longrightarrow> min_size \<le> st_size (snd (snd m))"
  by (auto simp: match_fd_def Let_def split: if_splits option.splits sum.splits)

lemma pid_matches_props:
  assumes "(u, m) \<in> set (pid_matches K w pid min_size uid_filter)"
  shows "\<exists>name. match_fd K w (path_fd_dir pid) min_size name = Some m"
    and "uid_filter = HSED_UID_ANY \<or> u = uid_filter"
  using assms by (auto simp: pid_matches_def map_filter_def split: sum.splits if_splits option.splits)

lemma entry_of_wf: "is_c_int (fst m) \<Longrightarrow> entry_wf (entry_of K w pid (u, m))"
  using fd_mode_cases [of K w pid "fst m"]
  by (auto simp: entry_of_def make_entry_def entry_wf_def fits_strlcpy_val scan_consts
      split: prod.splits)

lemma pid_entries_wf: "\<forall>e \<in> set (pid_entries K w pid min_size uid_filter). entry_wf e"
  using pid_matches_props(1) match_fd_c_int entry_of_wf
  by (fastforce simp: pid_entries_def)

text \<open>
  C21. Every entry a scan of one process produces belongs to that process, satisfies the size
  bound and the uid filter, and is well formed: its strings fit the arrays of \<open>hsed_entry_t\<close> and
  contain no NUL, and its mode is one of \<open>r\<close>, \<open>w\<close>, \<open>rw\<close> and \<open>?\<close>.
\<close>

theorem scan_one_pid_entries:
  assumes "list_inv l" and "scan_one_pid K w (To_List l) pid min_size uid_filter = (r, To_List l')"
  shows "\<exists>es. list_inv l' \<and> list_contents l' = list_contents l @ es \<and>
    (\<forall>e \<in> set es. e_pid e = pid \<and> min_size \<le> e_size e \<and>
       (uid_filter = HSED_UID_ANY \<or> e_uid e = uid_filter) \<and> entry_wf e)"
proof -
  let ?push = "list_push (k_realloc_ok K w)"
  let ?all = "pid_entries K w pid min_size uid_filter"
  have run: "push_all ?push l ?all = (r, l')"
    using assms(2) by (cases "push_all ?push l ?all") (simp add: scan_one_pid_list)
  obtain es where es: "list_inv l'" "list_contents l' = list_contents l @ es" "set es \<subseteq> set ?all"
  proof (cases "r = 0")
    case True
    then show ?thesis using that elist.push_all_ok [OF assms(1), of _ ?all l'] run by blast
  next
    case False
    then show ?thesis using that elist.push_all_fail [OF assms(1) run]
      by (metis set_append sup_ge1)
  qed
  have "e_pid e = pid \<and> min_size \<le> e_size e \<and> (uid_filter = HSED_UID_ANY \<or> e_uid e = uid_filter)"
    if "e \<in> set ?all" for e
  proof -
    from that obtain u m where um: "(u, m) \<in> set (pid_matches K w pid min_size uid_filter)"
      and e: "e = entry_of K w pid (u, m)" by (auto simp: pid_entries_def)
    have "e_pid e = pid" "e_uid e = u"
      unfolding e by (auto simp: entry_of_def make_entry_def split: prod.splits)
    moreover have "min_size \<le> e_size e"
      using pid_matches_props(1) [OF um] e by (auto dest!: match_fd_size)
    ultimately show ?thesis using pid_matches_props(2) [OF um] by simp
  qed
  with es pid_entries_wf show ?thesis by (metis subsetD)
qed

section \<open>The concrete machine\<close>

text \<open>The one hidden file of the small machine of \<open>Hsed_Kernel\<close>.\<close>

definition demo_entry :: "int \<Rightarrow> hsed_entry_t" where
  "demo_entry sz = \<lparr>e_pid = 42, e_fd = 3, e_mode = ''w'', e_size = sz, e_uid = 1000,
     e_user = ''1000'', e_comm = ''d'', e_cmdline = ''d -v'', e_path = ''/l'', e_inode = 99,
     e_dev_major = 8, e_dev_minor = 1, e_mtime = 1700000000\<rparr>"

lemma demo_match:
  "pid_matches demo_kernel demo_w 42 0 HSED_UID_ANY =
    [(1000, 3, ''/l'', \<lparr>st_size = 5000, st_uid = 1000, st_ino = 99, st_dev = 2049, st_mtime = 1700000000\<rparr>)]"
  by code_simp
lemma demo_readers:
  "load_comm demo_kernel demo_w 42 = ''d''" "fd_mode demo_kernel demo_w 42 3 = ''w''"
  "read_cmdline demo_kernel demo_w 42 HSED_CMDLINE_MAX = ''d -v''"
  "owner_name demo_kernel demo_w 1000 HSED_NAME_MAX = ''1000''"
  "dev_major 2049 = 8" "dev_minor 2049 = 1"
  by code_simp+
lemma demo_pid_entries: "pid_entries demo_kernel demo_w 42 0 HSED_UID_ANY = [demo_entry 5000]"
  by (simp add: pid_entries_def demo_match entry_of_def make_entry_def demo_readers demo_entry_def)
    (simp add: strlcpy_val_def scan_consts)

lemma demo_push: "push_all (list_push (\<lambda>n. True)) hsed_list_init [e] =
    (0, \<lparr>items = e # replicate 63 blank_entry, l_count = 1, l_capacity = 64\<rparr>)"
  by (simp add: list_push_def hsed_list_init_def numeral_eq_Suc)

lemma demo_scan: "scan_one_pid demo_kernel demo_w (To_List hsed_list_init) 42 0 HSED_UID_ANY =
    (0, To_List \<lparr>items = demo_entry 5000 # replicate 63 blank_entry, l_count = 1, l_capacity = 64\<rparr>)"
  by (simp only: scan_one_pid_list demo_pid_entries demo_kernel_sel demo_push) simp

theorem scan_one_pid_entries_witness:
  "\<exists>es. list_contents \<lparr>items = demo_entry 5000 # replicate 63 blank_entry, l_count = 1, l_capacity = 64\<rparr>
      = [] @ es \<and> (\<forall>e \<in> set es. e_pid e = 42 \<and> 0 \<le> e_size e \<and> entry_wf e)"
  using scan_one_pid_entries [OF list_inv_init(1) demo_scan] by auto

end
