(* ===== verification/Hsed_ParScan.thy ===== *)
theory Hsed_ParScan
  imports Hsed_ProcScan
begin

text \<open>
  \<open>proc_scan.c\<close>, the part that scans the machine: gathering the process ids, splitting them over
  worker threads, running the workers, merging their results and sorting the list; \<open>hsed_scan\<close>
  and \<open>hsed_scan_stats\<close>. The workers share nothing they write, and a step relation over all of
  them shows that every schedule gives what running them one after the other gives.
\<close>

section \<open>Order, process ids, number of threads\<close>

definition cmp_by_size_desc :: "hsed_entry_t \<Rightarrow> hsed_entry_t \<Rightarrow> int" where
  "cmp_by_size_desc ea eb =
     (if e_size ea < e_size eb then 1 else if e_size ea > e_size eb then - 1 else 0)"

text \<open>\<open>p_cap\<close> is the local \<open>cap\<close> of \<open>gather_pids\<close>.\<close>

record pid_list_t =
  p_pids :: "int list"
  p_count :: nat
  p_cap :: nat

definition pid_list_init :: pid_list_t where
  "pid_list_init = \<lparr>p_pids = [], p_count = 0, p_cap = 0\<rparr>"

text \<open>The body of the loop for one accepted name: grow if full, then store.\<close>

definition pid_push :: "(nat \<Rightarrow> bool) \<Rightarrow> pid_list_t \<Rightarrow> int \<Rightarrow> int \<times> pid_list_t" where
  "pid_push realloc_ok l v =
     (if p_count l = p_cap l then
        (let newcap = (if p_cap l = 0 then 256 else p_cap l * 2) in
         if \<not> realloc_ok (newcap * 4) then (- 1, l)
         else (0, l\<lparr>p_pids := (p_pids l @ replicate (newcap - p_cap l) 0)[p_count l := v],
                   p_cap := newcap, p_count := p_count l + 1\<rparr>))
      else (0, l\<lparr>p_pids := (p_pids l)[p_count l := v], p_count := p_count l + 1\<rparr>))"

fun gather_loop :: "(nat \<Rightarrow> bool) \<Rightarrow> string list \<Rightarrow> pid_list_t \<Rightarrow> int \<times> pid_list_t" where
  "gather_loop ok [] l = (0, l)"
| "gather_loop ok (name # names) l =
     (if \<not> is_all_digits name then gather_loop ok names l
      else (case pid_push ok l (c_int (atol name)) of (r, l') \<Rightarrow>
        if r \<noteq> 0 then (- 1, l'\<lparr>p_pids := []\<rparr>) else gather_loop ok names l'))"

definition gather_pids :: "'w kernel \<Rightarrow> 'w \<Rightarrow> int \<times> pid_list_t" where
  "gather_pids K w =
     (case k_readdir K w ''/proc'' of
        None \<Rightarrow> (- 1, pid_list_init)
      | Some names \<Rightarrow> gather_loop (k_realloc_ok K w) names pid_list_init)"

definition pids_contents :: "pid_list_t \<Rightarrow> int list" where
  "pids_contents l = take (p_count l) (p_pids l)"

definition HSED_MAX_AUTO_SCAN_THREADS :: int where "HSED_MAX_AUTO_SCAN_THREADS = 32"

definition pick_thread_count :: "'w kernel \<Rightarrow> 'w \<Rightarrow> int \<Rightarrow> nat \<Rightarrow> int" where
  "pick_thread_count K w requested npids =
     (let n0 = (if requested > 0 then requested
          else let n = k_nproc K w;
                   n = (if n < 1 then 1 else n)
               in (if n > HSED_MAX_AUTO_SCAN_THREADS then HSED_MAX_AUTO_SCAN_THREADS else n))
      in if npids = 0 then 1
         else let n1 = (if n0 > int npids then int npids else n0);
                  n2 = (if n1 < 1 then 1 else n1)
              in c_int n2)"

section \<open>Workers\<close>

text \<open>\<open>w_pids\<close> is the slice of \<open>count\<close> ids the worker's pointer stands for.\<close>

record scan_worker_t =
  w_pids :: "int list"
  w_min_size :: int
  w_uid_filter :: uid_t
  w_use_stats :: bool
  w_list :: hsed_list_t
  w_stats :: hsed_stats_t
  w_failed :: bool

definition stats_zero :: hsed_stats_t where
  "stats_zero = \<lparr>s_count = 0, total_bytes = 0\<rparr>"

fun worker_loop :: "'w kernel \<Rightarrow> 'w \<Rightarrow> int \<Rightarrow> uid_t \<Rightarrow> int list \<Rightarrow> sink \<Rightarrow> bool \<times> sink" where
  "worker_loop K w min_size uid_filter [] out = (False, out)"
| "worker_loop K w min_size uid_filter (pid # pids) out =
     (case scan_one_pid K w out pid min_size uid_filter of (r, out') \<Rightarrow>
        if r \<noteq> 0 then (True, out') else worker_loop K w min_size uid_filter pids out')"

definition store_sink :: "bool \<times> sink \<Rightarrow> scan_worker_t \<Rightarrow> scan_worker_t" where
  "store_sink r wk = (case r of (failed, out) \<Rightarrow>
     (case out of
        To_Stats s \<Rightarrow> wk\<lparr>w_stats := s, w_failed := w_failed wk \<or> failed\<rparr>
      | To_List l \<Rightarrow> wk\<lparr>w_list := l, w_failed := w_failed wk \<or> failed\<rparr>))"

definition scan_worker_fn :: "'w kernel \<Rightarrow> 'w \<Rightarrow> scan_worker_t \<Rightarrow> scan_worker_t" where
  "scan_worker_fn K w wk =
     (if w_use_stats wk
      then store_sink (worker_loop K w (w_min_size wk) (w_uid_filter wk) (w_pids wk) (To_Stats stats_zero)) wk
      else store_sink (worker_loop K w (w_min_size wk) (w_uid_filter wk) (w_pids wk) (To_List hsed_list_init)) wk)"

text \<open>The loop that cuts the process ids into one slice per worker.\<close>

fun split_loop :: "int list \<Rightarrow> int \<Rightarrow> uid_t \<Rightarrow> bool \<Rightarrow> nat \<Rightarrow> nat \<Rightarrow> nat \<Rightarrow> nat \<Rightarrow> nat \<Rightarrow> scan_worker_t list" where
  "split_loop pids min_size uid_filter use_stats 0 i base rem offset = []"
| "split_loop pids min_size uid_filter use_stats (Suc k) i base rem offset =
     (let chunk = base + (if i < rem then 1 else 0) in
      \<lparr>w_pids = take chunk (drop offset pids), w_min_size = min_size, w_uid_filter = uid_filter,
       w_use_stats = use_stats, w_list = hsed_list_init, w_stats = stats_zero, w_failed = False\<rparr>
      # split_loop pids min_size uid_filter use_stats k (i + 1) base rem (offset + chunk))"

definition make_workers :: "int list \<Rightarrow> int \<Rightarrow> uid_t \<Rightarrow> bool \<Rightarrow> nat \<Rightarrow> scan_worker_t list" where
  "make_workers pids min_size uid_filter use_stats nthreads =
     split_loop pids min_size uid_filter use_stats nthreads 0
       (length pids div nthreads) (length pids mod nthreads) 0"

text \<open>
  Worker 0 runs in the caller; worker \<open>i > 0\<close> runs in its own thread, or in the caller where the
  thread could not be created. Either way it is run once and to its end before the join loop is
  over.
\<close>

definition run_workers :: "'w kernel \<Rightarrow> 'w \<Rightarrow> scan_worker_t list \<Rightarrow> scan_worker_t list" where
  "run_workers K w ws =
     map (\<lambda>(i, wk). if i > 0 \<and> k_spawn_ok K w i
            then scan_worker_fn K w wk \<comment> \<open>in thread \<open>tids[i]\<close>, joined\<close>
            else scan_worker_fn K w wk \<comment> \<open>inline\<close>) (enumerate 0 ws)"

definition sum_stats :: "scan_worker_t list \<Rightarrow> hsed_stats_t" where
  "sum_stats ws = foldl (\<lambda>s wk. \<lparr>s_count = s_count s + s_count (w_stats wk),
     total_bytes = total_bytes s + total_bytes (w_stats wk)\<rparr>) stats_zero ws"

fun merge_lists :: "(nat \<Rightarrow> bool) \<Rightarrow> scan_worker_t list \<Rightarrow> hsed_list_t \<Rightarrow> int \<times> hsed_list_t" where
  "merge_lists ok [] l = (0, l)"
| "merge_lists ok (wk # ws) l =
     (case push_all (list_push ok) l (list_contents (w_list wk)) of (r, l') \<Rightarrow>
        if r \<noteq> 0 then (- 1, l') else merge_lists ok ws l')"

definition sizeof_scan_worker_t :: nat where "sizeof_scan_worker_t = 80"
definition sizeof_pthread_t :: nat where "sizeof_pthread_t = 8"

definition run_parallel_scan :: "'w kernel \<Rightarrow> 'w \<Rightarrow> int list \<Rightarrow> int \<Rightarrow> uid_t \<Rightarrow> int \<Rightarrow> bool \<Rightarrow>
    hsed_list_t \<Rightarrow> hsed_stats_t \<Rightarrow> int \<times> hsed_list_t \<times> hsed_stats_t" where
  "run_parallel_scan K w pids min_size uid_filter num_threads use_stats out_list out_stats =
     (let nthreads = nat (pick_thread_count K w num_threads (length pids)) in
      if \<not> k_realloc_ok K w (nthreads * sizeof_scan_worker_t)
         \<or> \<not> k_realloc_ok K w (nthreads * sizeof_pthread_t) then (- 1, out_list, out_stats)
      else
        (let ws = run_workers K w (make_workers pids min_size uid_filter use_stats nthreads) in
         if list_ex w_failed ws then (- 1, out_list, out_stats)
         else if use_stats then (0, out_list, sum_stats ws)
         else (case merge_lists (k_realloc_ok K w) ws hsed_list_init of (r, l) \<Rightarrow>
           if r \<noteq> 0 then (- 1, hsed_list_free l, out_stats) else (0, l, out_stats))))"

section \<open>The two entry points\<close>

text \<open>
  \<open>qsort(out->items, out->count, ...)\<close>, when there is more than one entry. C leaves the order of
  entries that compare equal open; \<open>c_qsort\<close> is one implementation, and the facts about sorting are
  taken from the contract \<open>qsort_contract\<close>, which it meets.
\<close>

definition sort_list :: "hsed_list_t \<Rightarrow> hsed_list_t" where
  "sort_list l =
     (if l_count l > 1 then l\<lparr>items := c_qsort cmp_by_size_desc (take (l_count l) (items l))
        @ drop (l_count l) (items l)\<rparr> else l)"

definition hsed_scan :: "'w kernel \<Rightarrow> 'w \<Rightarrow> hsed_list_t \<Rightarrow> int \<Rightarrow> int \<Rightarrow> uid_t \<Rightarrow> int \<Rightarrow> int \<times> hsed_list_t" where
  "hsed_scan K w out min_size only_pid uid_filter num_threads =
     (if only_pid > 0 then
        (case scan_one_pid K w (To_List hsed_list_init) only_pid min_size uid_filter of
           (r, To_List l) \<Rightarrow> if r \<noteq> 0 then (- 1, l) else (0, sort_list l)
         | (r, To_Stats s) \<Rightarrow> (- 1, out))
      else
        (case gather_pids K w of (r, pl) \<Rightarrow>
           if r \<noteq> 0 then (- 1, out)
           else (case run_parallel_scan K w (pids_contents pl) min_size uid_filter num_threads False
                   out stats_zero of (rc, l, s) \<Rightarrow>
             if rc \<noteq> 0 then (- 1, l) else (0, sort_list l))))"

definition hsed_scan_stats :: "'w kernel \<Rightarrow> 'w \<Rightarrow> hsed_stats_t \<Rightarrow> int \<Rightarrow> uid_t \<Rightarrow> int \<Rightarrow> int \<times> hsed_stats_t" where
  "hsed_scan_stats K w out min_size uid_filter num_threads =
     (case gather_pids K w of (r, pl) \<Rightarrow>
        if r \<noteq> 0 then (- 1, out)
        else (case run_parallel_scan K w (pids_contents pl) min_size uid_filter num_threads True
                hsed_list_init out of (rc, l, s) \<Rightarrow> (rc, s)))"

section \<open>The array of process ids\<close>

definition pids_inv :: "pid_list_t \<Rightarrow> bool" where
  "pids_inv l \<longleftrightarrow> p_count l \<le> p_cap l \<and> length (p_pids l) = p_cap l"

lemma pid_push_ok:
  assumes "pids_inv l" and "pid_push ok l v = (0, l')"
  shows "pids_inv l' \<and> pids_contents l' = pids_contents l @ [v]"
proof (cases "p_count l = p_cap l")
  case False
  with assms show ?thesis
    by (auto simp: pid_push_def pids_inv_def pids_contents_def take_Suc_list_update)
next
  case True
  define newcap where "newcap = (if p_cap l = 0 then 256 else p_cap l * 2)"
  let ?arr = "p_pids l @ replicate (newcap - p_cap l) 0"
  from assms True have l': "l' = l\<lparr>p_pids := ?arr[p_count l := v], p_cap := newcap,
      p_count := p_count l + 1\<rparr>"
    by (auto simp: pid_push_def Let_def newcap_def split: if_splits)
  have len: "p_count l < length ?arr" "length ?arr = newcap" "p_count l = length (p_pids l)"
    using True assms(1) by (auto simp: newcap_def pids_inv_def)
  have "take (Suc (p_count l)) (?arr[p_count l := v]) = take (p_count l) ?arr @ [v]"
    using len(1) by (rule take_Suc_list_update)
  then show ?thesis using len assms(1) unfolding l' by (simp add: pids_inv_def pids_contents_def)
qed

interpretation plist: growable "pid_push ok" pids_contents pids_inv
  by unfold_locales (auto simp: pid_push_ok, auto simp: pid_push_def Let_def split: if_splits)

interpretation plist_total: growable_total "pid_push (\<lambda>n. True)" pids_contents pids_inv
  by unfold_locales (simp add: pid_push_def Let_def)

definition pid_names :: "string list \<Rightarrow> int list" where
  "pid_names names = map (\<lambda>name. c_int (atol name)) (filter is_all_digits names)"

lemma gather_loop_push_all:
  "gather_loop ok names l =
    (case push_all (pid_push ok) l (pid_names names) of (r, l') \<Rightarrow>
       if r \<noteq> 0 then (- 1, l'\<lparr>p_pids := []\<rparr>) else (0, l'))"
  by (induction names arbitrary: l) (auto simp: pid_names_def split: prod.splits)

lemma gather_pids_ok:
  assumes "gather_pids K w = (0, pl)"
  shows "\<exists>names. k_readdir K w ''/proc'' = Some names \<and> pids_contents pl = pid_names names"
proof -
  have init: "pids_inv pid_list_init" "pids_contents pid_list_init = []"
    by (simp_all add: pid_list_init_def pids_inv_def pids_contents_def)
  from assms obtain names where names: "k_readdir K w ''/proc'' = Some names"
    and "push_all (pid_push (k_realloc_ok K w)) pid_list_init (pid_names names) = (0, pl)"
    by (auto simp: gather_pids_def gather_loop_push_all split: option.splits prod.splits if_splits)
  then have "pids_contents pl = pid_names names"
    using plist.push_all_ok [OF init(1)] init(2) by fastforce
  with names show ?thesis by blast
qed

lemma gather_pids_total:
  assumes "k_readdir K w ''/proc'' = Some names" and "\<And>n. k_realloc_ok K w n"
  shows "\<exists>pl. gather_pids K w = (0, pl) \<and> pids_contents pl = pid_names names"
proof -
  have init: "pids_inv pid_list_init" "pids_contents pid_list_init = []"
    by (simp_all add: pid_list_init_def pids_inv_def pids_contents_def)
  have "k_realloc_ok K w = (\<lambda>n. True)" using assms(2) by (intro ext) simp
  then show ?thesis
    using plist_total.push_all_total [OF init(1), of "pid_names names"] init(2) assms(1)
    by (auto simp: gather_pids_def gather_loop_push_all)
qed

section \<open>The slices are a partition of the process list\<close>

lemma pick_thread_count_bounds:
  assumes "is_c_int requested"
  shows "1 \<le> pick_thread_count K w requested npids"
    and "npids \<noteq> 0 \<Longrightarrow> pick_thread_count K w requested npids \<le> int npids"
    and "requested \<le> 0 \<Longrightarrow> pick_thread_count K w requested npids \<le> 32"
proof -
  define n0 where "n0 = (if requested > 0 then requested
      else if k_nproc K w < 1 then 1 else if k_nproc K w > 32 then 32 else k_nproc K w)"
  have n0: "1 \<le> n0" "n0 < 2147483648" "requested \<le> 0 \<Longrightarrow> n0 \<le> 32"
    using assms by (auto simp: n0_def is_c_int_def)
  have "pick_thread_count K w requested npids = (if npids = 0 then 1 else min n0 (int npids))"
    using n0 c_int_id [of "min n0 (int npids)"]
    by (auto simp: pick_thread_count_def Let_def n0_def HSED_MAX_AUTO_SCAN_THREADS_def min_def
        split: if_splits)
  with n0 show "1 \<le> pick_thread_count K w requested npids"
    and "npids \<noteq> 0 \<Longrightarrow> pick_thread_count K w requested npids \<le> int npids"
    and "requested \<le> 0 \<Longrightarrow> pick_thread_count K w requested npids \<le> 32"
    by auto
qed

lemma length_split_loop [simp]: "length (split_loop pids ms uf us k i base rm off) = k"
  by (induction k arbitrary: i off) (auto simp: Let_def)

lemma split_loop_concat:
  "concat (map w_pids (split_loop pids ms uf us k i base rm off)) =
    take (k * base + (min rm (i + k) - min rm i)) (drop off pids)"
proof (induction k arbitrary: i off)
  case 0
  then show ?case by simp
next
  case (Suc k)
  define chunk where "chunk = base + (if i < rm then 1 else 0 :: nat)"
  have e: "chunk + (k * base + (min rm (Suc i + k) - min rm (Suc i)))
      = Suc k * base + (min rm (i + Suc k) - min rm i)"
    by (auto simp: chunk_def min_def)
  have "concat (map w_pids (split_loop pids ms uf us (Suc k) i base rm off)) =
      take chunk (drop off pids) @ take (k * base + (min rm (Suc i + k) - min rm (Suc i)))
        (drop chunk (drop off pids))"
    using Suc [of "Suc i" "off + chunk"] by (simp add: Let_def chunk_def add.commute)
  also have "\<dots> = take (Suc k * base + (min rm (i + Suc k) - min rm i)) (drop off pids)"
    by (simp only: take_add [symmetric] e)
  finally show ?case .
qed

lemma make_workers_concat:
  assumes "0 < n"
  shows "concat (map w_pids (make_workers pids ms uf us n)) = pids"
proof -
  have "n * (length pids div n) + (min (length pids mod n) (0 + n) - min (length pids mod n) 0)
      = length pids"
    using mod_less_divisor [OF assms, of "length pids"] by (simp add: min_def)
  then show ?thesis by (simp add: make_workers_def split_loop_concat)
qed

lemma split_loop_fields:
  "wk \<in> set (split_loop pids ms uf us k i base rm off) \<Longrightarrow>
   w_min_size wk = ms \<and> w_uid_filter wk = uf \<and> w_use_stats wk = us \<and> \<not> w_failed wk"
  by (induction k arbitrary: i off) (auto simp: Let_def)

lemma split_loop_chunk:
  "j < k \<Longrightarrow> off + k * base + (min rm (i + k) - min rm i) \<le> length pids \<Longrightarrow>
   length (w_pids (split_loop pids ms uf us k i base rm off ! j)) = base + (if i + j < rm then 1 else 0)"
proof (induction k arbitrary: i off j)
  case 0
  then show ?case by simp
next
  case (Suc k)
  show ?case
  proof (cases j)
    case 0
    with Suc.prems show ?thesis by (auto simp: Let_def min_def split: if_splits)
  next
    case (Suc j')
    have "off + (base + (if i < rm then 1 else 0)) + k * base + (min rm (Suc i + k) - min rm (Suc i))
        \<le> length pids"
      using Suc.prems(2) by (auto simp: min_def split: if_splits)
    with Suc.IH [of j' "off + (base + (if i < rm then 1 else 0))" "Suc i"] Suc.prems Suc
    show ?thesis by (simp add: Let_def)
  qed
qed

section \<open>What the workers find\<close>

definition pids_entries :: "'w kernel \<Rightarrow> 'w \<Rightarrow> int \<Rightarrow> uid_t \<Rightarrow> int list \<Rightarrow> hsed_entry_t list" where
  "pids_entries K w min_size uid_filter pids =
     concat (map (\<lambda>pid. pid_entries K w pid min_size uid_filter) pids)"

lemma pids_entries_simps [simp]:
  "pids_entries K w ms uf [] = []"
  "pids_entries K w ms uf (p # ps) = pid_entries K w p ms uf @ pids_entries K w ms uf ps"
  "pids_entries K w ms uf (ps @ qs) = pids_entries K w ms uf ps @ pids_entries K w ms uf qs"
  by (simp_all add: pids_entries_def)

lemma pids_entries_concat:
  "pids_entries K w ms uf (concat pss) = concat (map (pids_entries K w ms uf) pss)"
  by (induction pss) auto

lemma worker_loop_list:
  assumes "list_inv l"
  shows "\<exists>f l'. worker_loop K w ms uf pids (To_List l) = (f, To_List l') \<and> list_inv l' \<and>
    (\<not> f \<longrightarrow> list_contents l' = list_contents l @ pids_entries K w ms uf pids)"
  using assms
proof (induction pids arbitrary: l)
  case Nil
  then show ?case by auto
next
  case (Cons pid pids)
  let ?es = "pid_entries K w pid ms uf"
  obtain r l1 where run: "push_all (list_push (k_realloc_ok K w)) l ?es = (r, l1)" by fastforce
  then have scan: "scan_one_pid K w (To_List l) pid ms uf = (r, To_List l1)"
    by (simp add: scan_one_pid_list)
  show ?case
  proof (cases "r = 0")
    case True
    with elist.push_all_ok [OF Cons.prems, of _ ?es l1] run
    have l1: "list_inv l1" "list_contents l1 = list_contents l @ ?es" by auto
    from Cons.IH [OF l1(1)] show ?thesis using scan True l1 by auto
  next
    case False
    with elist.push_all_fail [OF Cons.prems run] scan show ?thesis by auto
  qed
qed

lemma worker_loop_list_total:
  assumes "list_inv l" and "\<And>n. k_realloc_ok K w n"
  shows "\<not> fst (worker_loop K w ms uf pids (To_List l))"
  using assms(1)
proof (induction pids arbitrary: l)
  case Nil
  then show ?case by simp
next
  case (Cons pid pids)
  have ok: "k_realloc_ok K w = (\<lambda>n. True)" using assms(2) by (intro ext) simp
  obtain l1 where "push_all (list_push (k_realloc_ok K w)) l (pid_entries K w pid ms uf) = (0, l1)"
    and "list_inv l1"
    unfolding ok using elist_total.push_all_total [OF Cons.prems] by blast
  with Cons.IH show ?case by (simp add: scan_one_pid_list)
qed

lemma worker_loop_stats:
  "worker_loop K w ms uf pids (To_Stats s) =
    (False, To_Stats (s\<lparr>s_count := s_count s + length (pids_entries K w ms uf pids),
       total_bytes := total_bytes s + entry_total (pids_entries K w ms uf pids)\<rparr>))"
  by (induction pids arbitrary: s) (simp_all add: scan_one_pid_stats add.assoc)

section \<open>Merging\<close>

lemma run_workers_eq: "run_workers K w ws = map (scan_worker_fn K w) ws"
proof -
  have "run_workers K w ws = map (scan_worker_fn K w) (map snd (enumerate 0 ws))"
    unfolding run_workers_def by (simp add: case_prod_unfold comp_def del: map_snd_enumerate)
  then show ?thesis by simp
qed

lemma merge_lists_push_all:
  "merge_lists ok ws l = (case push_all (list_push ok) l (concat (map (\<lambda>wk. list_contents (w_list wk)) ws))
     of (r, l') \<Rightarrow> (r, l'))"
proof -
  have app: "push_all push l (xs @ ys) = (case push_all push l xs of (r, l') \<Rightarrow>
      if r \<noteq> 0 then (- 1, l') else push_all push l' ys)"
    for push :: "hsed_list_t \<Rightarrow> hsed_entry_t \<Rightarrow> int \<times> hsed_list_t" and l xs ys
    by (induction xs arbitrary: l) (auto split: prod.splits)
  show ?thesis
    by (induction ws arbitrary: l) (auto simp: app split: prod.splits)
qed

lemma sum_stats_eq:
  "sum_stats ws = \<lparr>s_count = sum_list (map (\<lambda>wk. s_count (w_stats wk)) ws),
     total_bytes = sum_list (map (\<lambda>wk. total_bytes (w_stats wk)) ws)\<rparr>"
proof -
  have "foldl (\<lambda>s wk. \<lparr>s_count = s_count s + s_count (w_stats wk),
      total_bytes = total_bytes s + total_bytes (w_stats wk)\<rparr>) s ws =
    \<lparr>s_count = s_count s + sum_list (map (\<lambda>wk. s_count (w_stats wk)) ws),
     total_bytes = total_bytes s + sum_list (map (\<lambda>wk. total_bytes (w_stats wk)) ws)\<rparr>" for s
    by (induction ws arbitrary: s) (auto simp: add.assoc)
  then show ?thesis by (simp add: sum_stats_def stats_zero_def)
qed

lemma scan_worker_fn_list:
  assumes "\<not> w_use_stats wk" and "\<not> w_failed (scan_worker_fn K w wk)"
  shows "list_contents (w_list (scan_worker_fn K w wk)) =
    pids_entries K w (w_min_size wk) (w_uid_filter wk) (w_pids wk)"
proof -
  obtain f l' where loop: "worker_loop K w (w_min_size wk) (w_uid_filter wk) (w_pids wk)
      (To_List hsed_list_init) = (f, To_List l')"
    and l': "\<not> f \<longrightarrow> list_contents l' = [] @ pids_entries K w (w_min_size wk) (w_uid_filter wk) (w_pids wk)"
    using worker_loop_list [OF list_inv_init(1), of K w "w_min_size wk" "w_uid_filter wk" "w_pids wk"]
    unfolding list_inv_init(2) by blast
  with assms show ?thesis by (simp add: scan_worker_fn_def store_sink_def)
qed

lemma scan_worker_fn_stats:
  assumes "w_use_stats wk" and "\<not> w_failed wk"
  shows "\<not> w_failed (scan_worker_fn K w wk)"
    and "s_count (w_stats (scan_worker_fn K w wk)) =
      length (pids_entries K w (w_min_size wk) (w_uid_filter wk) (w_pids wk))"
    and "total_bytes (w_stats (scan_worker_fn K w wk)) =
      entry_total (pids_entries K w (w_min_size wk) (w_uid_filter wk) (w_pids wk))"
  using assms by (simp_all add: scan_worker_fn_def store_sink_def worker_loop_stats stats_zero_def)

lemma scan_worker_fn_total:
  assumes "\<And>n. k_realloc_ok K w n" and "\<not> w_failed wk"
  shows "\<not> w_failed (scan_worker_fn K w wk)"
proof (cases "w_use_stats wk")
  case True
  then show ?thesis using assms(2) by (rule scan_worker_fn_stats(1))
next
  case False
  obtain f l' where loop: "worker_loop K w (w_min_size wk) (w_uid_filter wk) (w_pids wk)
      (To_List hsed_list_init) = (f, To_List l')"
    using worker_loop_list [OF list_inv_init(1), of K w "w_min_size wk" "w_uid_filter wk" "w_pids wk"]
    by blast
  with worker_loop_list_total [OF list_inv_init(1) assms(1), of "w_min_size wk" "w_uid_filter wk" "w_pids wk"]
  show ?thesis using False assms(2) by (simp add: scan_worker_fn_def store_sink_def)
qed

section \<open>The parallel scan computes the sequential one\<close>

lemma merged_entries:
  assumes "0 < n"
  shows "concat (map (\<lambda>wk. pids_entries K w (w_min_size wk) (w_uid_filter wk) (w_pids wk))
      (make_workers pids ms uf us n)) = pids_entries K w ms uf pids"
proof -
  have "concat (map (\<lambda>wk. pids_entries K w (w_min_size wk) (w_uid_filter wk) (w_pids wk))
      (make_workers pids ms uf us n))
    = concat (map (\<lambda>wk. pids_entries K w ms uf (w_pids wk)) (make_workers pids ms uf us n))"
    by (intro arg_cong [where f = concat] map_cong refl)
      (auto simp: make_workers_def dest!: split_loop_fields)
  also have "\<dots> = pids_entries K w ms uf (concat (map w_pids (make_workers pids ms uf us n)))"
    by (simp add: pids_entries_concat comp_def)
  finally show ?thesis by (simp add: make_workers_concat [OF assms])
qed

lemma run_parallel_scan_list:
  assumes "is_c_int num_threads"
    and "run_parallel_scan K w pids ms uf num_threads False out s = (0, l, s')"
  shows "list_inv l \<and> list_contents l = pids_entries K w ms uf pids"
proof -
  define n where "n = nat (pick_thread_count K w num_threads (length pids))"
  have n: "0 < n" using pick_thread_count_bounds(1) [OF assms(1), of K w "length pids"]
    by (simp add: n_def)
  let ?ws = "make_workers pids ms uf False n"
  let ?ws' = "map (scan_worker_fn K w) ?ws"
  from assms(2) have nf: "\<not> list_ex w_failed ?ws'"
    and merge: "merge_lists (k_realloc_ok K w) ?ws' hsed_list_init = (0, l)"
    by (auto simp: run_parallel_scan_def Let_def run_workers_eq n_def split: if_splits prod.splits)
  have each: "list_contents (w_list (scan_worker_fn K w wk)) =
      pids_entries K w (w_min_size wk) (w_uid_filter wk) (w_pids wk)" if "wk \<in> set ?ws" for wk
    using that nf by (intro scan_worker_fn_list)
      (auto simp: list_ex_iff make_workers_def dest: split_loop_fields)
  have "concat (map (\<lambda>wk. list_contents (w_list wk)) ?ws') = pids_entries K w ms uf pids"
    using each by (simp add: comp_def merged_entries [OF n] cong: map_cong)
  with merge have "push_all (list_push (k_realloc_ok K w)) hsed_list_init
      (pids_entries K w ms uf pids) = (0, l)"
    by (simp add: merge_lists_push_all split: prod.splits)
  then show ?thesis using elist.push_all_ok [OF list_inv_init(1)] by fastforce
qed

lemma run_parallel_scan_list_total:
  assumes "is_c_int num_threads" and ok: "\<And>n. k_realloc_ok K w n"
  shows "\<exists>l. run_parallel_scan K w pids ms uf num_threads False out s = (0, l, s) \<and>
    list_inv l \<and> list_contents l = pids_entries K w ms uf pids"
proof -
  define n where "n = nat (pick_thread_count K w num_threads (length pids))"
  let ?ws' = "map (scan_worker_fn K w) (make_workers pids ms uf False n)"
  have nf: "\<not> list_ex w_failed ?ws'"
    using scan_worker_fn_total [OF ok] by (auto simp: list_ex_iff make_workers_def dest: split_loop_fields)
  have "k_realloc_ok K w = (\<lambda>n. True)" using ok by (intro ext) simp
  then obtain l where "merge_lists (k_realloc_ok K w) ?ws' hsed_list_init = (0, l)"
    using elist_total.push_all_total [OF list_inv_init(1)] by (auto simp: merge_lists_push_all)
  then have run: "run_parallel_scan K w pids ms uf num_threads False out s = (0, l, s)"
    using nf ok by (simp add: run_parallel_scan_def Let_def run_workers_eq n_def)
  with run_parallel_scan_list [OF assms(1) run] show ?thesis by blast
qed

lemma run_parallel_scan_stats:
  assumes "is_c_int num_threads"
    and "run_parallel_scan K w pids ms uf num_threads True l s = (0, l', s')"
  shows "s' = \<lparr>s_count = length (pids_entries K w ms uf pids),
     total_bytes = entry_total (pids_entries K w ms uf pids)\<rparr>"
proof -
  define n where "n = nat (pick_thread_count K w num_threads (length pids))"
  have n: "0 < n" using pick_thread_count_bounds(1) [OF assms(1), of K w "length pids"]
    by (simp add: n_def)
  let ?ws = "make_workers pids ms uf True n"
  let ?e = "\<lambda>wk. pids_entries K w (w_min_size wk) (w_uid_filter wk) (w_pids wk)"
  from assms(2) have s': "s' = sum_stats (map (scan_worker_fn K w) ?ws)"
    by (auto simp: run_parallel_scan_def Let_def run_workers_eq n_def split: if_splits prod.splits)
  have fields: "w_use_stats wk" "\<not> w_failed wk" if "wk \<in> set ?ws" for wk
    using that by (auto simp: make_workers_def dest: split_loop_fields)
  have "sum_list (map (\<lambda>wk. s_count (w_stats (scan_worker_fn K w wk))) ?ws)
      = sum_list (map (\<lambda>wk. length (?e wk)) ?ws)"
    using fields by (intro arg_cong [where f = sum_list] map_cong refl) (simp add: scan_worker_fn_stats)
  moreover have "sum_list (map (\<lambda>wk. total_bytes (w_stats (scan_worker_fn K w wk))) ?ws)
      = sum_list (map (\<lambda>wk. entry_total (?e wk)) ?ws)"
    using fields by (intro arg_cong [where f = sum_list] map_cong refl) (simp add: scan_worker_fn_stats)
  moreover have "entry_total (concat ess) = sum_list (map entry_total ess)" for ess
    by (induction ess) auto
  ultimately show ?thesis
    unfolding s' sum_stats_eq merged_entries [OF n, of K w pids ms uf True, symmetric]
    by (simp add: comp_def length_concat)
qed

section \<open>Sorting\<close>

interpretation size_sort: qsort_contract "c_qsort cmp_by_size_desc" cmp_by_size_desc
proof unfold_locales
  show "mset (c_qsort cmp_by_size_desc xs) = mset xs" for xs by (rule mset_c_qsort)
  show "sorted_wrt (\<lambda>a b. cmp_by_size_desc a b \<le> 0) (c_qsort cmp_by_size_desc xs)" for xs
    by (rule sorted_c_qsort) (auto simp: cmp_by_size_desc_def split: if_splits)
qed

lemma cmp_by_size_desc_le [simp]: "cmp_by_size_desc a b \<le> 0 \<longleftrightarrow> e_size b \<le> e_size a"
  by (simp add: cmp_by_size_desc_def)

lemma c_qsort_short: "length xs \<le> 1 \<Longrightarrow> c_qsort cmp xs = xs"
  by (cases xs) auto

lemma sort_list_contents:
  assumes "list_inv l"
  shows "list_inv (sort_list l) \<and> l_count (sort_list l) = l_count l \<and>
    list_contents (sort_list l) = c_qsort cmp_by_size_desc (list_contents l)"
proof (cases "l_count l > 1")
  case True
  then show ?thesis
    using assms by (simp add: sort_list_def list_inv_def list_contents_def size_sort.qs_length)
next
  case False
  then show ?thesis
    using assms by (simp add: sort_list_def list_contents_def c_qsort_short)
qed

section \<open>The scans\<close>

text \<open>All entries of the machine, process by process.\<close>

definition all_entries :: "'w kernel \<Rightarrow> 'w \<Rightarrow> int \<Rightarrow> uid_t \<Rightarrow> string list \<Rightarrow> hsed_entry_t list" where
  "all_entries K w min_size uid_filter names = pids_entries K w min_size uid_filter (pid_names names)"

lemma hsed_scan_ok:
  assumes "is_c_int num_threads" and "only_pid \<le> 0"
    and "hsed_scan K w out min_size only_pid uid_filter num_threads = (0, l)"
  shows "\<exists>names. k_readdir K w ''/proc'' = Some names \<and> list_inv l \<and>
    list_contents l = c_qsort cmp_by_size_desc (all_entries K w min_size uid_filter names)"
proof -
  from assms(2,3) obtain pl l1 s where pl: "gather_pids K w = (0, pl)"
    and run: "run_parallel_scan K w (pids_contents pl) min_size uid_filter num_threads False
      out stats_zero = (0, l1, s)" and l: "l = sort_list l1"
    by (auto simp: hsed_scan_def split: prod.splits if_splits)
  from gather_pids_ok [OF pl] obtain names where "k_readdir K w ''/proc'' = Some names"
    and "pids_contents pl = pid_names names" by blast
  with run_parallel_scan_list [OF assms(1) run] sort_list_contents [of l1] l show ?thesis
    by (auto simp: all_entries_def)
qed

lemma hsed_scan_total:
  assumes "is_c_int num_threads" and "only_pid \<le> 0"
    and "k_readdir K w ''/proc'' = Some names" and "\<And>n. k_realloc_ok K w n"
  shows "\<exists>l. hsed_scan K w out min_size only_pid uid_filter num_threads = (0, l)"
proof -
  obtain pl where "gather_pids K w = (0, pl)"
    using gather_pids_total [OF assms(3,4)] by blast
  moreover obtain l where "run_parallel_scan K w (pids_contents pl) min_size uid_filter num_threads
      False out stats_zero = (0, l, stats_zero)"
    using run_parallel_scan_list_total [OF assms(1,4)] by blast
  ultimately show ?thesis using assms(2) by (simp add: hsed_scan_def)
qed

lemma hsed_scan_stats_ok:
  assumes "is_c_int num_threads"
    and "hsed_scan_stats K w out min_size uid_filter num_threads = (0, s)"
  shows "\<exists>names. k_readdir K w ''/proc'' = Some names \<and>
    s = \<lparr>s_count = length (all_entries K w min_size uid_filter names),
         total_bytes = entry_total (all_entries K w min_size uid_filter names)\<rparr>"
proof -
  from assms(2) obtain pl l where pl: "gather_pids K w = (0, pl)"
    and run: "run_parallel_scan K w (pids_contents pl) min_size uid_filter num_threads True
      hsed_list_init out = (0, l, s)"
    by (auto simp: hsed_scan_stats_def split: prod.splits if_splits)
  from gather_pids_ok [OF pl] run_parallel_scan_stats [OF assms(1) run] show ?thesis
    by (auto simp: all_entries_def)
qed

lemma hsed_scan_stats_total:
  assumes "is_c_int num_threads" and "k_readdir K w ''/proc'' = Some names"
    and ok: "\<And>n. k_realloc_ok K w n"
  shows "\<exists>s. hsed_scan_stats K w out min_size uid_filter num_threads = (0, s)"
proof -
  obtain pl where "gather_pids K w = (0, pl)" using gather_pids_total [OF assms(2,3)] by blast
  moreover have "\<not> list_ex w_failed (map (scan_worker_fn K w) (make_workers pids min_size uid_filter True n))"
    for pids n
    using scan_worker_fn_total [OF ok] by (auto simp: list_ex_iff make_workers_def dest: split_loop_fields)
  ultimately show ?thesis
    using ok by (simp add: hsed_scan_stats_def run_parallel_scan_def Let_def run_workers_eq)
qed

text \<open>
  C1. When \<open>/proc\<close> can be read and memory suffices, a SCAN of the whole machine succeeds for
  every thread count, and the list it returns depends on the thread count in no way: it is the
  list of the hidden files of every process, in \<open>/proc\<close> order, sorted by the size comparison.
\<close>

theorem hsed_scan_complete:
  assumes "is_c_int num_threads" and "only_pid \<le> 0"
    and "k_readdir K w ''/proc'' = Some names" and "\<And>n. k_realloc_ok K w n"
  shows "\<exists>l. hsed_scan K w out min_size only_pid uid_filter num_threads = (0, l) \<and>
    list_contents l = c_qsort cmp_by_size_desc
      (concat (map (\<lambda>pid. pid_entries K w pid min_size uid_filter) (pid_names names)))"
  using hsed_scan_total [OF assms] hsed_scan_ok [OF assms(1,2)] assms(3)
  by (fastforce simp: all_entries_def pids_entries_def)

text \<open>
  C19. The list SCAN returns is sorted by size, largest first, and is a permutation of the hidden
  files found, so that nothing is lost or duplicated by the merging and sorting.
\<close>

theorem hsed_scan_sorted:
  assumes "is_c_int num_threads" and "only_pid \<le> 0"
    and "hsed_scan K w out min_size only_pid uid_filter num_threads = (0, l)"
  shows "\<exists>names. k_readdir K w ''/proc'' = Some names \<and>
    sorted_wrt (\<lambda>a b. e_size b \<le> e_size a) (list_contents l) \<and>
    mset (list_contents l) = (\<Sum>pid \<in># mset (pid_names names). mset (pid_entries K w pid min_size uid_filter))"
proof -
  obtain names where names: "k_readdir K w ''/proc'' = Some names"
    and l: "list_contents l = c_qsort cmp_by_size_desc (all_entries K w min_size uid_filter names)"
    using hsed_scan_ok [OF assms] by blast
  have "mset (pids_entries K w min_size uid_filter pids) =
      (\<Sum>pid \<in># mset pids. mset (pid_entries K w pid min_size uid_filter))" for pids
    by (induction pids) auto
  with names l show ?thesis
    using size_sort.qs_sorted [of "all_entries K w min_size uid_filter names"]
    by (simp add: size_sort.qs_perm all_entries_def)
qed

text \<open>
  C20. STATS agrees with SCAN: on the same state and filters, whatever the thread counts, the
  count of STATS is the number of entries of SCAN, and its byte total (in the 64-bit arithmetic
  of both) is the sum of the entries' sizes.
\<close>

theorem hsed_scan_stats_agrees:
  assumes "is_c_int n1" and "is_c_int n2" and "only_pid \<le> 0"
    and "hsed_scan K w out min_size only_pid uid_filter n1 = (0, l)"
    and "hsed_scan_stats K w s0 min_size uid_filter n2 = (0, s)"
  shows "s_count s = l_count l \<and> total_bytes s = entry_total (list_contents l)"
proof -
  obtain names where names: "k_readdir K w ''/proc'' = Some names" and inv: "list_inv l"
    and l: "list_contents l = c_qsort cmp_by_size_desc (all_entries K w min_size uid_filter names)"
    using hsed_scan_ok [OF assms(1,3,4)] by blast
  have "l_count l = length (list_contents l)"
    using inv by (simp add: list_inv_def list_contents_def)
  with hsed_scan_stats_ok [OF assms(2,5)] names l show ?thesis
    by (simp add: size_sort.qs_length entry_total_def size_sort.qs_sum)
qed

section \<open>The split is balanced\<close>

text \<open>
  C22. The process list is cut into as many slices as there are threads; the slices in order give
  the process list back (no process is skipped or scanned twice), their lengths differ by at most
  one, and no thread is started without a process to scan.
\<close>

theorem make_workers_partition:
  assumes "is_c_int requested" and "n = nat (pick_thread_count K w requested (length pids))"
  shows "length (make_workers pids ms uf us n) = n \<and> 1 \<le> n \<and>
    concat (map w_pids (make_workers pids ms uf us n)) = pids \<and>
    (\<forall>j < n. length (w_pids (make_workers pids ms uf us n ! j)) \<in>
       {length pids div n, length pids div n + 1} \<and>
       (pids \<noteq> [] \<longrightarrow> w_pids (make_workers pids ms uf us n ! j) \<noteq> []))"
proof -
  have n: "0 < n" using pick_thread_count_bounds(1) [OF assms(1), of K w "length pids"] assms(2) by simp
  have le: "n \<le> length pids" if "pids \<noteq> []"
    using pick_thread_count_bounds(2) [OF assms(1), of "length pids" K w] assms(2) that by auto
  have tot: "0 + n * (length pids div n) + (min (length pids mod n) (0 + n) - min (length pids mod n) 0)
      \<le> length pids"
    using mod_less_divisor [OF n, of "length pids"] by (simp add: min_def)
  have chunk: "length (w_pids (make_workers pids ms uf us n ! j)) =
      length pids div n + (if j < length pids mod n then 1 else 0)" if "j < n" for j
    using split_loop_chunk [OF that tot] by (simp add: make_workers_def)
  have "w_pids (make_workers pids ms uf us n ! j) \<noteq> []" if "pids \<noteq> []" "j < n" for j
  proof -
    have "0 < length pids div n" using le [OF that(1)] n by (simp add: div_greater_zero_iff)
    with chunk [OF that(2)] show ?thesis by auto
  qed
  with chunk n show ?thesis
    using make_workers_concat [OF n] by (simp add: make_workers_def [of _ _ _ _ n] split: if_splits)
qed

theorem make_workers_partition_witness:
  "concat (map w_pids (make_workers [1, 2, 3, 4, 5] 0 HSED_UID_ANY False 2)) = [1, 2, 3, 4, 5] \<and>
   length (w_pids (make_workers [1, 2, 3, 4, 5] 0 HSED_UID_ANY False 2 ! 1)) \<in> {2, 3}"
proof -
  have n: "2 = nat (pick_thread_count demo_kernel demo_w 0 (length [1 :: int, 2, 3, 4, 5]))"
    by code_simp
  have "is_c_int 0" by (simp add: is_c_int_def)
  note part = make_workers_partition [OF this n, of 0 HSED_UID_ANY False]
  have "(1 :: nat) < 2" by simp
  with part have "length (w_pids (make_workers [1, 2, 3, 4, 5] 0 HSED_UID_ANY False 2 ! 1)) \<in>
      {length [1 :: int, 2, 3, 4, 5] div 2, length [1 :: int, 2, 3, 4, 5] div 2 + 1}" by blast
  also have "{length [1 :: int, 2, 3, 4, 5] div 2, length [1 :: int, 2, 3, 4, 5] div 2 + 1} = {2, 3}"
    by code_simp
  finally show ?thesis using part by blast
qed

section \<open>Every schedule of the workers\<close>

text \<open>
  The workers as concurrent threads. A worker in progress has process ids left, the sink it fills
  and whether it has stopped on an error; one step of the system lets any one worker scan its next
  process. Scanning one process is one step: it writes only the worker's own list and counters.
\<close>

record worker_state =
  ws_todo :: "int list"
  ws_acc :: sink
  ws_stopped :: bool

inductive par_step :: "'w kernel \<Rightarrow> 'w \<Rightarrow> int \<Rightarrow> uid_t \<Rightarrow> worker_state list \<Rightarrow> worker_state list \<Rightarrow> bool"
  for K w min_size uid_filter where
  scan_next: "i < length ws \<Longrightarrow> \<not> ws_stopped (ws ! i) \<Longrightarrow> ws_todo (ws ! i) = pid # pids \<Longrightarrow>
    scan_one_pid K w (ws_acc (ws ! i)) pid min_size uid_filter = (r, out) \<Longrightarrow>
    par_step K w min_size uid_filter ws
      (ws[i := \<lparr>ws_todo = (if r \<noteq> 0 then [] else pids), ws_acc = out, ws_stopped = (r \<noteq> 0)\<rparr>])"

inductive par_steps :: "'w kernel \<Rightarrow> 'w \<Rightarrow> int \<Rightarrow> uid_t \<Rightarrow> worker_state list \<Rightarrow> worker_state list \<Rightarrow> bool"
  for K w min_size uid_filter where
  par_refl: "par_steps K w min_size uid_filter ws ws"
| par_trans: "par_steps K w min_size uid_filter ws ws' \<Longrightarrow> par_step K w min_size uid_filter ws' ws'' \<Longrightarrow>
    par_steps K w min_size uid_filter ws ws''"

text \<open>Where a worker ends up if it is left to run on alone.\<close>

definition run_alone :: "'w kernel \<Rightarrow> 'w \<Rightarrow> int \<Rightarrow> uid_t \<Rightarrow> worker_state \<Rightarrow> bool \<times> sink" where
  "run_alone K w min_size uid_filter ws =
     (if ws_stopped ws then (True, ws_acc ws) else worker_loop K w min_size uid_filter (ws_todo ws) (ws_acc ws))"

lemma par_step_run_alone:
  "par_step K w ms uf ws ws' \<Longrightarrow> map (run_alone K w ms uf) ws' = map (run_alone K w ms uf) ws"
proof (induction rule: par_step.induct)
  case (scan_next i ws pid pids r out)
  then have "run_alone K w ms uf \<lparr>ws_todo = (if r \<noteq> 0 then [] else pids), ws_acc = out, ws_stopped = (r \<noteq> 0)\<rparr>
      = run_alone K w ms uf (ws ! i)"
    by (auto simp: run_alone_def)
  with scan_next show ?case by (simp add: map_update list_update_same_conv)
qed

lemma par_steps_run_alone:
  "par_steps K w ms uf ws ws' \<Longrightarrow> map (run_alone K w ms uf) ws' = map (run_alone K w ms uf) ws"
  by (induction rule: par_steps.induct) (auto dest: par_step_run_alone)

lemma par_step_measure:
  "par_step K w ms uf ws ws' \<Longrightarrow>
   sum_list (map (length \<circ> ws_todo) ws') < sum_list (map (length \<circ> ws_todo) ws)"
proof (induction rule: par_step.induct)
  case (scan_next i ws pid pids r out)
  have "(length \<circ> ws_todo) (ws ! i) \<le> sum_list (map (length \<circ> ws_todo) ws)"
    using scan_next(1) by (metis elem_le_sum_list length_map nth_map)
  with scan_next show ?case
    by (auto simp: map_update sum_list_update comp_def)
qed

lemma finished_run_alone:
  assumes "\<nexists>ws'. par_step K w ms uf ws ws'" and "i < length ws"
  shows "run_alone K w ms uf (ws ! i) = (ws_stopped (ws ! i), ws_acc (ws ! i))"
proof (cases "ws_stopped (ws ! i) \<or> ws_todo (ws ! i) = []")
  case True
  then show ?thesis by (auto simp: run_alone_def)
next
  case False
  then obtain pid pids where "ws_todo (ws ! i) = pid # pids" by (cases "ws_todo (ws ! i)") auto
  moreover obtain r out where "scan_one_pid K w (ws_acc (ws ! i)) pid ms uf = (r, out)" by fastforce
  ultimately have "\<exists>ws'. par_step K w ms uf ws ws'"
    using par_step.scan_next [of i ws pid pids K w ms uf r out] assms(2) False by auto
  with assms(1) show ?thesis by blast
qed

definition start_state :: "scan_worker_t \<Rightarrow> worker_state" where
  "start_state wk = \<lparr>ws_todo = w_pids wk,
     ws_acc = (if w_use_stats wk then To_Stats stats_zero else To_List hsed_list_init), ws_stopped = False\<rparr>"

text \<open>
  C3. Every schedule of the worker threads ends, and whatever the order in which the workers take
  their steps, a state in which none can go on holds for each worker exactly the error flag and
  the list or counters that \<open>scan_worker_fn\<close> computes when it runs alone.
\<close>

theorem parallel_schedules_agree:
  "wfp (\<lambda>ws' ws. par_step K w ms uf ws ws') \<and>
   (\<forall>ws final. (\<forall>wk \<in> set ws. w_min_size wk = ms \<and> w_uid_filter wk = uf \<and> \<not> w_failed wk) \<longrightarrow>
      par_steps K w ms uf (map start_state ws) final \<longrightarrow> (\<nexists>next. par_step K w ms uf final next) \<longrightarrow>
      map2 (\<lambda>wk st. store_sink (ws_stopped st, ws_acc st) wk) ws final = run_workers K w ws)"
proof (intro conjI allI impI)
  show "wfp (\<lambda>ws' ws. par_step K w ms uf ws ws')"
    by (rule wfp_if_convertible_to_nat [where f = "\<lambda>ws. sum_list (map (length \<circ> ws_todo) ws)"])
      (rule par_step_measure)
next
  fix ws final
  assume fields: "\<forall>wk \<in> set ws. w_min_size wk = ms \<and> w_uid_filter wk = uf \<and> \<not> w_failed wk"
    and steps: "par_steps K w ms uf (map start_state ws) final"
    and fin: "\<nexists>next. par_step K w ms uf final next"
  from par_steps_run_alone [OF steps]
  have eq: "map (run_alone K w ms uf) final = map (run_alone K w ms uf) (map start_state ws)" .
  then have len: "length final = length ws" by (metis length_map)
  have "store_sink (ws_stopped (final ! i), ws_acc (final ! i)) (ws ! i) = scan_worker_fn K w (ws ! i)"
    if i: "i < length ws" for i
  proof -
    have "(ws_stopped (final ! i), ws_acc (final ! i)) = run_alone K w ms uf (start_state (ws ! i))"
      using finished_run_alone [OF fin, of i] i len eq by (metis length_map nth_map)
    with fields i show ?thesis
      by (auto simp: scan_worker_fn_def run_alone_def start_state_def)
  qed
  then show "map2 (\<lambda>wk st. store_sink (ws_stopped st, ws_acc st) wk) ws final = run_workers K w ws"
    using len by (auto simp: run_workers_eq intro!: nth_equalityI)
qed

section \<open>On the concrete machine\<close>

lemma demo_names: "k_readdir demo_kernel demo_w ''/proc'' = Some [''.'', ''self'', ''42'']"
  by code_simp

lemma demo_pid_names: "pid_names [''.'', ''self'', ''42''] = [42]"
  by code_simp

theorem hsed_scan_complete_witness:
  "\<exists>l. hsed_scan demo_kernel demo_w hsed_list_init 0 0 HSED_UID_ANY 4 = (0, l) \<and>
    list_contents l = [demo_entry 5000]"
  using hsed_scan_complete [of 4 0 demo_kernel demo_w "[''.'', ''self'', ''42'']" hsed_list_init 0 HSED_UID_ANY]
  by (simp add: is_c_int_def demo_names demo_pid_names demo_pid_entries)

lemma demo_scan_run: "\<exists>l. hsed_scan demo_kernel demo_w hsed_list_init 0 0 HSED_UID_ANY 4 = (0, l)"
  by (rule hsed_scan_total [OF _ _ demo_names]) (simp_all add: is_c_int_def)

theorem hsed_scan_sorted_witness:
  "\<exists>l names. hsed_scan demo_kernel demo_w hsed_list_init 0 0 HSED_UID_ANY 4 = (0, l) \<and>
    k_readdir demo_kernel demo_w ''/proc'' = Some names \<and>
    sorted_wrt (\<lambda>a b. e_size b \<le> e_size a) (list_contents l)"
proof -
  obtain l where l: "hsed_scan demo_kernel demo_w hsed_list_init 0 0 HSED_UID_ANY 4 = (0, l)"
    using demo_scan_run by blast
  show ?thesis using hsed_scan_sorted [OF _ _ l] l by (auto simp: is_c_int_def)
qed

lemma demo_stats_run:
  "hsed_scan_stats demo_kernel demo_w stats_zero 0 HSED_UID_ANY 4 = (0, \<lparr>s_count = 1, total_bytes = 5000\<rparr>)"
proof -
  obtain s where s: "hsed_scan_stats demo_kernel demo_w stats_zero 0 HSED_UID_ANY 4 = (0, s)"
    using hsed_scan_stats_total [of 4, OF _ demo_names, of stats_zero 0 HSED_UID_ANY]
    by (auto simp: is_c_int_def)
  from hsed_scan_stats_ok [OF _ s] have "s = \<lparr>s_count = 1, total_bytes = 5000\<rparr>"
    by (auto simp: is_c_int_def demo_names all_entries_def demo_pid_names demo_pid_entries demo_entry_def)
  with s show ?thesis by simp
qed

theorem hsed_scan_stats_agrees_witness:
  "\<exists>l. hsed_scan demo_kernel demo_w hsed_list_init 0 0 HSED_UID_ANY 4 = (0, l) \<and> l_count l = 1 \<and>
    entry_total (list_contents l) = 5000"
proof -
  obtain l where l: "hsed_scan demo_kernel demo_w hsed_list_init 0 0 HSED_UID_ANY 4 = (0, l)"
    using demo_scan_run by blast
  show ?thesis using hsed_scan_stats_agrees [OF _ _ _ l demo_stats_run] l by (simp add: is_c_int_def)
qed

lemma demo_no_proc: "scan_one_pid demo_kernel demo_w out 7 0 HSED_UID_ANY = (0, out)"
proof -
  have "demo_stat demo_w (path_proc 7) = Inl 2" by code_simp
  then show ?thesis by (simp add: scan_one_pid_def)
qed

text \<open>Two workers with one process id each, the second scanning first.\<close>

theorem parallel_schedules_agree_witness:
  "map2 (\<lambda>wk st. store_sink (ws_stopped st, ws_acc st) wk) (make_workers [7, 7] 0 HSED_UID_ANY True 2)
     [\<lparr>ws_todo = [], ws_acc = To_Stats stats_zero, ws_stopped = False\<rparr>,
      \<lparr>ws_todo = [], ws_acc = To_Stats stats_zero, ws_stopped = False\<rparr>]
   = run_workers demo_kernel demo_w (make_workers [7, 7] 0 HSED_UID_ANY True 2)"
proof -
  let ?ws = "make_workers [7, 7] 0 HSED_UID_ANY True 2"
  let ?s = "\<lambda>t. \<lparr>ws_todo = t, ws_acc = To_Stats stats_zero, ws_stopped = False\<rparr>"
  have start: "map start_state ?ws = [?s [7], ?s [7]]"
    by (simp add: make_workers_def Let_def start_state_def numeral_2_eq_2)
  have "par_step demo_kernel demo_w 0 HSED_UID_ANY [?s [7], ?s [7]] [?s [7], ?s []]"
    using par_step.scan_next [of 1 "[?s [7], ?s [7]]" 7 "[]" demo_kernel demo_w 0 HSED_UID_ANY 0
        "To_Stats stats_zero"] by (simp add: demo_no_proc)
  moreover have "par_step demo_kernel demo_w 0 HSED_UID_ANY [?s [7], ?s []] [?s [], ?s []]"
    using par_step.scan_next [of 0 "[?s [7], ?s []]" 7 "[]" demo_kernel demo_w 0 HSED_UID_ANY 0
        "To_Stats stats_zero"] by (simp add: demo_no_proc)
  ultimately have steps: "par_steps demo_kernel demo_w 0 HSED_UID_ANY (map start_state ?ws) [?s [], ?s []]"
    unfolding start by (meson par_steps.intros)
  have "\<not> par_step demo_kernel demo_w 0 HSED_UID_ANY [?s [], ?s []] next" for "next"
    by (auto elim!: par_step.cases simp: less_Suc_eq)
  moreover have "\<forall>wk \<in> set ?ws. w_min_size wk = 0 \<and> w_uid_filter wk = HSED_UID_ANY \<and> \<not> w_failed wk"
    by (auto simp: make_workers_def dest: split_loop_fields)
  ultimately show ?thesis
    using parallel_schedules_agree [of demo_kernel demo_w 0 HSED_UID_ANY] steps by blast
qed

end
