(* ===== verification/Hsed_Protocol.thy ===== *)
theory Hsed_Protocol
  imports Hsed_ParScan
begin

text \<open>
  \<open>protocol.c\<close>: escaping strings for JSON into a bounded array, formatting an entry, and sending a
  line over a socket whose \<open>send\<close> may take part of the data, be interrupted or fail.
\<close>

section \<open>Escaping\<close>

definition hex_char :: "nat \<Rightarrow> char" where
  "hex_char n = (if n < 10 then char_of (48 + n) else char_of (87 + n))"

text \<open>\<open>"\\u%04x"\<close> for a byte.\<close>

definition u_escape :: "char \<Rightarrow> string" where
  "u_escape c = [BSLASH, CHR ''u'', CHR ''0'', CHR ''0'', hex_char (of_char c div 16), hex_char (of_char c mod 16)]"

text \<open>
  The loop of \<open>hsed_json_escape\<close>, on the cursor \<open>o\<close> and the array. The \<open>snprintf\<close> of the default
  branch also stores a terminator behind the six characters, over which the next ones are written.
\<close>

fun json_escape_loop :: "nat \<Rightarrow> string \<Rightarrow> nat \<times> string \<Rightarrow> (nat \<times> string) option" where
  "json_escape_loop dstsize [] st = Some st"
| "json_escape_loop dstsize (p # ps) (pos, dst) =
     (if pos + 2 < dstsize then
        do { st' \<leftarrow>
               (if p = QUOTE then (if pos + 2 < dstsize then puts_at [BSLASH, QUOTE] (pos, dst) else Some (pos, dst))
                else if p = BSLASH then (if pos + 2 < dstsize then puts_at [BSLASH, BSLASH] (pos, dst) else Some (pos, dst))
                else if p = LF then (if pos + 2 < dstsize then puts_at [BSLASH, CHR ''n''] (pos, dst) else Some (pos, dst))
                else if p = CR then (if pos + 2 < dstsize then puts_at [BSLASH, CHR ''r''] (pos, dst) else Some (pos, dst))
                else if p = TAB then (if pos + 2 < dstsize then puts_at [BSLASH, CHR ''t''] (pos, dst) else Some (pos, dst))
                else if (of_char p :: nat) < 0x20 then
                  (if pos + 6 < dstsize
                   then do { (e, dst') \<leftarrow> puts_at (u_escape p @ [NUL]) (pos, dst); Some (pos + 6, dst') }
                   else Some (pos, dst))
                else puts_at [p] (pos, dst));
             json_escape_loop dstsize ps st' }
      else Some (pos, dst))"

definition hsed_json_escape :: "string \<Rightarrow> nat \<Rightarrow> string \<Rightarrow> string option" where
  "hsed_json_escape dst dstsize src =
     (if dstsize = 0 then Some dst
      else do { (pos, dst') \<leftarrow> json_escape_loop dstsize (cstr src) (0, dst);
                wr dst' (if pos < dstsize then pos else dstsize - 1) NUL })"

subsection \<open>The string it writes\<close>

definition esc_char :: "char \<Rightarrow> string" where
  "esc_char p =
     (if p = QUOTE then [BSLASH, QUOTE] else if p = BSLASH then [BSLASH, BSLASH]
      else if p = LF then [BSLASH, CHR ''n''] else if p = CR then [BSLASH, CHR ''r'']
      else if p = TAB then [BSLASH, CHR ''t'']
      else if (of_char p :: nat) < 0x20 then u_escape p else [p])"

fun json_esc :: "nat \<Rightarrow> nat \<Rightarrow> string \<Rightarrow> string" where
  "json_esc dstsize pos [] = []"
| "json_esc dstsize pos (p # ps) =
     (if pos + 2 < dstsize then
        (if length (esc_char p) = 6 \<and> \<not> pos + 6 < dstsize then json_esc dstsize pos ps
         else esc_char p @ json_esc dstsize (pos + length (esc_char p)) ps)
      else [])"

text \<open>What \<open>char esc[n]\<close> denotes after \<open>hsed_json_escape(esc, n, s)\<close>.\<close>

definition escaped :: "nat \<Rightarrow> string \<Rightarrow> string" where
  "escaped n s = json_esc n 0 (cstr s)"

lemma length_u_escape [simp]: "length (u_escape p) = 6"
  by (simp add: u_escape_def)

lemma length_esc_char: "length (esc_char p) \<in> {1, 2, 6}"
  by (simp add: esc_char_def)

lemma json_esc_length: "pos < dstsize \<Longrightarrow> pos + length (json_esc dstsize pos s) < dstsize"
proof (induction dstsize pos s rule: json_esc.induct)
  case (2 dstsize pos p ps)
  show ?case
  proof (cases "pos + 2 < dstsize")
    case False
    with 2(3) show ?thesis by simp
  next
    case True
    then show ?thesis using 2 length_esc_char [of p] by (auto simp: add.assoc)
  qed
qed simp

lemma puts_at_take:
  assumes "pos + length s \<le> length dst"
  shows "\<exists>dst'. puts_at s (pos, dst) = Some (pos + length s, dst') \<and> length dst' = length dst \<and>
    take (pos + length s) dst' = take pos dst @ s"
  using assms by (simp add: puts_at_ok take_overwrite)

text \<open>One character: the loop emits \<open>esc_char\<close>, inside the array.\<close>

lemma json_escape_step:
  assumes "pos + 2 < length dst" and "length (esc_char p) = 6 \<longrightarrow> pos + 6 < length dst"
  shows "\<exists>dst'. json_escape_loop (length dst) (p # ps) (pos, dst) =
      json_escape_loop (length dst) ps (pos + length (esc_char p), dst') \<and>
    length dst' = length dst \<and> take (pos + length (esc_char p)) dst' = take pos dst @ esc_char p"
proof (cases "length (esc_char p) = 6")
  case True
  then have p: "esc_char p = u_escape p" "(of_char p :: nat) < 0x20"
    and ne: "p \<noteq> QUOTE" "p \<noteq> BSLASH" "p \<noteq> LF" "p \<noteq> CR" "p \<noteq> TAB"
    by (auto simp: esc_char_def split: if_splits)
  obtain dst' where put: "puts_at (u_escape p @ [NUL]) (pos, dst) = Some (pos + 7, dst')"
    and len: "length dst' = length dst" and tk: "take (pos + 7) dst' = take pos dst @ u_escape p @ [NUL]"
    using puts_at_take [of pos "u_escape p @ [NUL]" dst] assms(2) True by auto
  have "take (pos + 6) dst' = take (pos + 6) (take (pos + 7) dst')" by simp
  also have "\<dots> = take pos dst @ u_escape p" unfolding tk using assms(1) by simp
  finally have "take (pos + 6) dst' = take pos dst @ u_escape p" .
  with put len p ne assms True show ?thesis by (auto intro!: exI [of _ dst'])
next
  case False
  then have n: "pos + length (esc_char p) \<le> length dst"
    using assms(1) length_esc_char [of p] by auto
  then obtain dst' where put: "puts_at (esc_char p) (pos, dst) = Some (pos + length (esc_char p), dst')"
    and rest: "length dst' = length dst" "take (pos + length (esc_char p)) dst' = take pos dst @ esc_char p"
    using puts_at_take by blast
  have "json_escape_loop (length dst) (p # ps) (pos, dst) =
      puts_at (esc_char p) (pos, dst) \<bind> json_escape_loop (length dst) ps"
    using assms(1) False by (auto simp: esc_char_def split: if_splits)
  then have "json_escape_loop (length dst) (p # ps) (pos, dst) =
      json_escape_loop (length dst) ps (pos + length (esc_char p), dst')"
    unfolding put by simp
  with rest show ?thesis by blast
qed

lemma json_escape_loop_ok:
  assumes "pos < length dst"
  shows "\<exists>dst'. json_escape_loop (length dst) s (pos, dst) =
      Some (pos + length (json_esc (length dst) pos s), dst') \<and> length dst' = length dst \<and>
    take (pos + length (json_esc (length dst) pos s)) dst' = take pos dst @ json_esc (length dst) pos s"
  using assms
proof (induction s arbitrary: pos dst)
  case Nil
  then show ?case by simp
next
  case (Cons p ps)
  show ?case
  proof (cases "pos + 2 < length dst")
    case False
    then show ?thesis by simp
  next
    case True
    show ?thesis
    proof (cases "length (esc_char p) = 6 \<longrightarrow> pos + 6 < length dst")
      case False
      with True have "json_escape_loop (length dst) (p # ps) (pos, dst) =
          json_escape_loop (length dst) ps (pos, dst)"
        by (auto simp: esc_char_def split: if_splits)
      with Cons True False show ?thesis by simp
    next
      case fit: True
      obtain dst1 where step: "json_escape_loop (length dst) (p # ps) (pos, dst) =
          json_escape_loop (length dst) ps (pos + length (esc_char p), dst1)"
        and len: "length dst1 = length dst"
        and tk: "take (pos + length (esc_char p)) dst1 = take pos dst @ esc_char p"
        using json_escape_step [OF True fit] by blast
      have "pos + length (esc_char p) < length dst1"
        using True fit len length_esc_char [of p] by auto
      from Cons.IH [OF this] show ?thesis
        using step len tk True fit by (auto simp: add.assoc)
    qed
  qed
qed

lemma of_hex_char: "n < 16 \<Longrightarrow> (of_char (hex_char n) :: nat) = (if n < 10 then 48 + n else 87 + n)"
  by (simp add: hex_char_def)

lemma hex_char_not_nul: "n < 16 \<Longrightarrow> hex_char n \<noteq> NUL"
  using of_hex_char [of n] by (auto split: if_splits)

lemma of_char_div_16: "(of_char p :: nat) div 16 < 16"
  by (simp add: div_less_iff_less_mult)

lemma u_escape_no_nul: "NUL \<notin> set (u_escape p)"
  using hex_char_not_nul [OF of_char_div_16 [of p]] hex_char_not_nul [of "of_char p mod 16"]
  by (auto simp: u_escape_def)

lemma esc_char_no_nul: "p \<noteq> NUL \<Longrightarrow> NUL \<notin> set (esc_char p)"
  using u_escape_no_nul by (auto simp: esc_char_def)

lemma json_esc_no_nul: "NUL \<notin> set s \<Longrightarrow> NUL \<notin> set (json_esc n pos s)"
  by (induction n pos s rule: json_esc.induct) (auto simp: esc_char_no_nul)

lemma hsed_json_escape_string:
  assumes "length dst = dstsize" and "0 < dstsize"
  shows "\<exists>dst'. hsed_json_escape dst dstsize src = Some dst' \<and> length dst' = dstsize \<and>
    cstr dst' = escaped dstsize src"
proof -
  let ?e = "escaped dstsize src"
  obtain dst1 where loop: "json_escape_loop dstsize (cstr src) (0, dst) = Some (length ?e, dst1)"
    and len: "length dst1 = dstsize" and tk: "take (length ?e) dst1 = ?e"
    using json_escape_loop_ok [of 0 dst "cstr src"] assms by (auto simp: escaped_def)
  have lt: "length ?e < dstsize"
    using json_esc_length [of 0 dstsize "cstr src"] assms by (simp add: escaped_def)
  have "dst1[length ?e := NUL] = ?e @ NUL # drop (Suc (length ?e)) dst1"
    using tk lt len by (metis upd_conv_take_nth_drop)
  moreover have "NUL \<notin> set ?e" by (simp add: escaped_def json_esc_no_nul)
  ultimately show ?thesis
    using loop lt len assms(2) by (simp add: hsed_json_escape_def buf_simps cstr_append_nul)
qed

subsection \<open>Reading it back\<close>

text \<open>The body of a JSON string literal, read by the rules of RFC 8259 (code points below 128).\<close>

definition hex_val :: "char \<Rightarrow> nat option" where
  "hex_val c = (let n = (of_char c :: nat) in
     if 48 \<le> n \<and> n \<le> 57 then Some (n - 48) else if 97 \<le> n \<and> n \<le> 102 then Some (n - 87)
     else if 65 \<le> n \<and> n \<le> 70 then Some (n - 55) else None)"

definition simple_escape :: "char \<Rightarrow> char option" where
  "simple_escape d = (if d = QUOTE \<or> d = BSLASH \<or> d = CHR ''/'' then Some d
     else if d = CHR ''n'' then Some LF else if d = CHR ''r'' then Some CR
     else if d = CHR ''t'' then Some TAB else if d = CHR ''b'' then Some CHR 0x08
     else if d = CHR ''f'' then Some CHR 0x0C else None)"

fun json_unesc :: "string \<Rightarrow> string option" where
  "json_unesc [] = Some []"
| "json_unesc (c # cs) =
     (if c = BSLASH then
        (case cs of [] \<Rightarrow> None
         | d # ds \<Rightarrow>
             if d = CHR ''u'' then
               (case ds of h1 # h2 # h3 # h4 # rest \<Rightarrow>
                  do { x1 \<leftarrow> hex_val h1; x2 \<leftarrow> hex_val h2; x3 \<leftarrow> hex_val h3; x4 \<leftarrow> hex_val h4;
                       let n = ((x1 * 16 + x2) * 16 + x3) * 16 + x4;
                       if n < 128 then map_option ((#) (char_of n)) (json_unesc rest) else None }
                | _ \<Rightarrow> None)
             else do { x \<leftarrow> simple_escape d; map_option ((#) x) (json_unesc ds) })
      else if c = QUOTE \<or> (of_char c :: nat) < 0x20 then None
      else map_option ((#) c) (json_unesc cs))"

lemma hex_val_char: "n < 16 \<Longrightarrow> hex_val (hex_char n) = Some n"
  by (auto simp: hex_val_def of_hex_char Let_def split: if_splits)

lemma json_unesc_u_escape:
  assumes "(of_char p :: nat) < 0x20"
  shows "json_unesc (u_escape p @ t) = map_option ((#) p) (json_unesc t)"
proof -
  have "hex_val CHR ''0'' = Some 0" by (simp add: hex_val_def)
  moreover have "(of_char p :: nat) div 16 * 16 + of_char p mod 16 = of_char p"
    by (rule div_mult_mod_eq)
  ultimately show ?thesis
    using assms hex_val_char [OF of_char_div_16 [of p]] hex_val_char [of "of_char p mod 16"]
    by (simp add: u_escape_def Let_def)
qed

lemma json_unesc_esc_char: "json_unesc (esc_char p @ t) = map_option ((#) p) (json_unesc t)"
  using json_unesc_u_escape [of p t]
  by (auto simp: esc_char_def simple_escape_def)

lemma json_unesc_esc: "json_unesc (concat (map esc_char s)) = Some s"
  by (induction s) (simp_all add: json_unesc_esc_char)

lemma json_esc_subseq: "\<exists>t. subseq t s \<and> json_esc n pos s = concat (map esc_char t)"
proof (induction n pos s rule: json_esc.induct)
  case (1 n pos)
  then show ?case by (intro exI [of _ "[]"]) simp
next
  case (2 n pos p ps)
  consider "\<not> pos + 2 < n" | "pos + 2 < n" "length (esc_char p) = 6 \<and> \<not> pos + 6 < n"
    | "pos + 2 < n" "\<not> (length (esc_char p) = 6 \<and> \<not> pos + 6 < n)" by blast
  then show ?case
  proof cases
    case 1
    then show ?thesis by (intro exI [of _ "[]"]) simp
  next
    case 2
    with "2.IH"(1) obtain t where "subseq t ps" "json_esc n pos ps = concat (map esc_char t)" by blast
    with 2 show ?thesis by (intro exI [of _ t]) auto
  next
    case 3
    with "2.IH"(2) obtain t where "subseq t ps"
      "json_esc n (pos + length (esc_char p)) ps = concat (map esc_char t)" by blast
    with 3 show ?thesis by (intro exI [of _ "p # t"]) auto
  qed
qed

lemma json_esc_whole:
  "pos + length (concat (map esc_char s)) + 1 < n \<Longrightarrow> json_esc n pos s = concat (map esc_char s)"
proof (induction s arbitrary: pos)
  case (Cons p ps)
  then show ?case using length_esc_char [of p] by (auto simp: add.assoc)
qed simp

lemma esc_char_printable: "c \<in> set (esc_char p) \<Longrightarrow> 0x20 \<le> (of_char c :: nat)"
  using of_hex_char [OF of_char_div_16 [of p]] of_hex_char [of "of_char p mod 16"]
  by (auto simp: esc_char_def u_escape_def split: if_splits)

lemma escaped_printable: "c \<in> set (escaped n s) \<Longrightarrow> 0x20 \<le> (of_char c :: nat)"
proof -
  assume c: "c \<in> set (escaped n s)"
  obtain t where "escaped n s = concat (map esc_char t)"
    using json_esc_subseq [of "cstr s" n 0] by (auto simp: escaped_def)
  with c show ?thesis by (auto dest: esc_char_printable)
qed



section \<open>Formatting an entry\<close>

text \<open>The formatted text, with the four strings already escaped.\<close>

definition entry_line :: "hsed_entry_t \<Rightarrow> string \<Rightarrow> string \<Rightarrow> string \<Rightarrow> string \<Rightarrow> string" where
  "entry_line e user_esc comm_esc cmdline_esc path_esc =
     ''{\"type\":\"entry\",\"pid\":'' @ show_int (e_pid e) @ '',\"fd\":'' @ show_int (e_fd e) @
     '',\"mode\":\"'' @ e_mode e @ ''\",\"size\":'' @ show_int (e_size e) @
     '',\"uid\":'' @ show_nat (unat (e_uid e)) @
     '',\"user\":\"'' @ user_esc @ ''\",\"comm\":\"'' @ comm_esc @
     ''\",\"cmdline\":\"'' @ cmdline_esc @ ''\",\"path\":\"'' @ path_esc @
     ''\",\"inode\":'' @ show_nat (unat (e_inode e)) @
     '',\"dev_major\":'' @ show_nat (unat (e_dev_major e)) @
     '',\"dev_minor\":'' @ show_nat (unat (e_dev_minor e)) @
     '',\"mtime\":'' @ show_int (e_mtime e) @ ''}''"

text \<open>\<open>char esc[n]; hsed_json_escape(esc, sizeof(esc), s)\<close>: the string left in the local array.\<close>

definition esc_buf :: "nat \<Rightarrow> string \<Rightarrow> string option" where
  "esc_buf n s = map_option cstr (hsed_json_escape (replicate n NUL) n s)"

definition hsed_format_entry :: "hsed_entry_t \<Rightarrow> nat \<Rightarrow> string option" where
  "hsed_format_entry e outsize =
     do { user_esc \<leftarrow> esc_buf (HSED_NAME_MAX * 2) (e_user e);
          comm_esc \<leftarrow> esc_buf (HSED_NAME_MAX * 2) (e_comm e);
          cmdline_esc \<leftarrow> esc_buf (HSED_CMDLINE_MAX * 2) (e_cmdline e);
          path_esc \<leftarrow> esc_buf (HSED_PATH_MAX * 2) (e_path e);
          Some (snprintf outsize (entry_line e user_esc comm_esc cmdline_esc path_esc)) }"

lemma esc_buf_eq: "0 < n \<Longrightarrow> esc_buf n s = Some (escaped n s)"
  using hsed_json_escape_string [of "replicate n NUL" n s] by (auto simp: esc_buf_def)

text \<open>The line of an entry, by the reference escaping.\<close>

definition entry_text :: "hsed_entry_t \<Rightarrow> string" where
  "entry_text e =
     entry_line e (escaped (HSED_NAME_MAX * 2) (e_user e)) (escaped (HSED_NAME_MAX * 2) (e_comm e))
       (escaped (HSED_CMDLINE_MAX * 2) (e_cmdline e)) (escaped (HSED_PATH_MAX * 2) (e_path e))"

lemma hsed_format_entry_eq: "hsed_format_entry e outsize = Some (snprintf outsize (entry_text e))"
  by (simp add: hsed_format_entry_def esc_buf_eq entry_text_def scan_consts)

text \<open>The line buffer of \<open>handle_scan\<close> and \<open>run_scan_once\<close>.\<close>

definition LINEBUF_SIZE :: nat where
  "LINEBUF_SIZE = HSED_PATH_MAX * 2 + HSED_CMDLINE_MAX * 2 + HSED_NAME_MAX * 4"

definition is_c_ll :: "int \<Rightarrow> bool" where
  "is_c_ll i \<longleftrightarrow> - 9223372036854775808 \<le> i \<and> i \<le> 9223372036854775807"

lemma length_show_c_ll: "is_c_ll i \<Longrightarrow> length (show_int i) \<le> 20"
  using length_show_int [of i 19] by (auto simp: is_c_ll_def abs_less_iff)

lemma length_show_u32: "length (show_nat (unat (x :: 32 word))) \<le> 10"
proof -
  have "unat x < 4294967296" using unsigned_less [of x, where ?'a = nat] by simp
  then have "unat x < 10 ^ 10" by (rule less_trans) simp
  then show ?thesis by (rule length_show_nat) simp
qed

lemma length_show_u64: "length (show_nat (unat (x :: 64 word))) \<le> 20"
proof -
  have "unat x < 18446744073709551616" using unsigned_less [of x, where ?'a = nat] by simp
  then have "unat x < 10 ^ 20" by (rule less_trans) simp
  then show ?thesis by (rule length_show_nat) simp
qed

lemma length_escaped: "0 < n \<Longrightarrow> length (escaped n s) < n"
  using json_esc_length [of 0 n "cstr s"] by (simp add: escaped_def)

lemma length_escaped_mult: "length (escaped n s) \<le> 6 * length s"
proof -
  obtain t where t: "subseq t (cstr s)" "escaped n s = concat (map esc_char t)"
    using json_esc_subseq [of "cstr s" n 0] by (auto simp: escaped_def)
  have "length (concat (map esc_char t)) \<le> 6 * length t"
  proof (induction t)
    case (Cons a t)
    then show ?case using length_esc_char [of a] by auto
  qed simp
  also have "length t \<le> length s"
    using list_emb_length [OF t(1)] length_cstr_le [of s] by linarith
  finally show ?thesis using t(2) by simp
qed

lemma length_entry_text:
  assumes "is_c_int (e_pid e)" "is_c_ll (e_size e)" "is_c_ll (e_mtime e)" "entry_wf e"
    and "length (e_comm e) \<le> 15"
  shows "length (entry_text e) < LINEBUF_SIZE"
proof -
  have esc: "length (escaped 512 (e_user e)) \<le> 511" "length (escaped 2048 (e_cmdline e)) \<le> 2047"
    "length (escaped 8192 (e_path e)) \<le> 8191" "length (escaped 512 (e_comm e)) \<le> 90"
    using length_escaped [of 512 "e_user e"] length_escaped [of 2048 "e_cmdline e"]
      length_escaped [of 8192 "e_path e"] length_escaped_mult [of 512 "e_comm e"] assms(5) by auto
  have mode: "length (e_mode e) \<le> 2" and fd: "is_c_int (e_fd e)"
    using assms(4) by (auto simp: entry_wf_def)
  have "length (entry_text e) \<le> 141 + 11 + 11 + 2 + 20 + 10 + 511 + 90 + 2047 + 8191 + 20 + 10 + 10 + 20"
    using length_show_c_int [OF assms(1)] length_show_c_int [OF fd] length_show_c_ll [OF assms(2)]
      length_show_c_ll [OF assms(3)] length_show_u32 [of "e_uid e"] length_show_u64 [of "e_inode e"]
      length_show_u32 [of "e_dev_major e"] length_show_u32 [of "e_dev_minor e"] mode esc
    by (simp add: entry_text_def entry_line_def scan_consts)
  then show ?thesis by (simp add: LINEBUF_SIZE_def scan_consts)
qed

lemma show_no_lf: "LF \<notin> set (show_nat n)" "LF \<notin> set (show_int i)"
proof -
  have "LF \<notin> set (show_nat m)" for m
    using show_nat_digits [of m] by (auto simp: isdigit_def)
  then show "LF \<notin> set (show_nat n)" "LF \<notin> set (show_int i)"
    by (auto simp: show_int_def)
qed

lemma escaped_no_lf: "LF \<notin> set (escaped n s)"
  using escaped_printable [of LF n s] by auto

lemma entry_text_no_lf: "entry_wf e \<Longrightarrow> LF \<notin> set (entry_text e)"
  by (auto simp: entry_text_def entry_line_def show_no_lf escaped_no_lf entry_wf_def)

text \<open>Strings without control characters other than the five with a short escape.\<close>

definition no_exotic :: "string \<Rightarrow> bool" where
  "no_exotic s \<longleftrightarrow> (\<forall>c \<in> set s. 0x20 \<le> (of_char c :: nat) \<or> c = LF \<or> c = CR \<or> c = TAB)"

lemma length_esc_no_exotic: "no_exotic s \<Longrightarrow> length (concat (map esc_char s)) \<le> 2 * length s"
proof (induction s)
  case (Cons c s)
  then show ?case by (auto simp: no_exotic_def esc_char_def)
qed simp

lemma escaped_double:
  assumes "fits n s" and "no_exotic s"
  shows "json_unesc (escaped (n * 2) s) = Some s"
proof -
  have "cstr s = s" using assms(1) by (simp add: fits_def cstr_id)
  moreover have "0 + length (concat (map esc_char s)) + 1 < n * 2"
    using length_esc_no_exotic [OF assms(2)] assms(1) by (simp add: fits_def)
  ultimately show ?thesis
    using json_esc_whole [of 0 s "n * 2"] by (simp add: escaped_def json_unesc_esc)
qed

text \<open>
  C30. A well-formed entry whose process name has at most the 15 bytes Linux gives a name is
  always formatted whole: its JSON line is shorter than the line buffer, so the final
  \<open>snprintf\<close> cuts nothing, and it contains no newline, so it stays one line of the protocol.
  The escaped strings in it read back as the entry's strings when these hold no control
  characters other than newline, carriage return and tab.
\<close>

theorem hsed_format_entry_whole:
  assumes "is_c_int (e_pid e)" and "is_c_ll (e_size e)" and "is_c_ll (e_mtime e)" and "entry_wf e"
    and "length (e_comm e) \<le> 15"
  shows "hsed_format_entry e LINEBUF_SIZE = Some (entry_text e) \<and> LF \<notin> set (entry_text e) \<and>
    (no_exotic (e_path e) \<longrightarrow> json_unesc (escaped (HSED_PATH_MAX * 2) (e_path e)) = Some (e_path e)) \<and>
    (no_exotic (e_cmdline e) \<longrightarrow> json_unesc (escaped (HSED_CMDLINE_MAX * 2) (e_cmdline e)) = Some (e_cmdline e)) \<and>
    (no_exotic (e_comm e) \<longrightarrow> json_unesc (escaped (HSED_NAME_MAX * 2) (e_comm e)) = Some (e_comm e)) \<and>
    (no_exotic (e_user e) \<longrightarrow> json_unesc (escaped (HSED_NAME_MAX * 2) (e_user e)) = Some (e_user e))"
proof -
  have "hsed_format_entry e LINEBUF_SIZE = Some (entry_text e)"
    using length_entry_text [OF assms] by (simp add: hsed_format_entry_eq snprintf_fits)
  moreover have "LF \<notin> set (entry_text e)" using assms(4) by (rule entry_text_no_lf)
  ultimately show ?thesis using assms(4) by (simp add: entry_wf_def escaped_double)
qed

lemma demo_entry_wf: "entry_wf (demo_entry sz)"
  by (simp add: entry_wf_def demo_entry_def is_c_int_def fits_def scan_consts)

theorem hsed_format_entry_whole_witness:
  "hsed_format_entry (demo_entry 5000) LINEBUF_SIZE = Some (entry_text (demo_entry 5000)) \<and>
   LF \<notin> set (entry_text (demo_entry 5000))"
  using hsed_format_entry_whole [of "demo_entry 5000"] demo_entry_wf [of 5000]
  by (simp add: demo_entry_def is_c_int_def is_c_ll_def)

section \<open>Sending lines\<close>

text \<open>
  What the kernel answers to the calls of \<open>send\<close>, in order: so many bytes taken (at most as many as
  were offered), \<open>EINTR\<close>, or another error. \<open>wire\<close> are the bytes the kernel has taken.
\<close>

datatype send_ans = Sent nat | SendIntr | SendErr

record sock =
  answers :: "send_ans list"
  wire :: string

text \<open>
  The loop of \<open>hsed_send_line\<close>. \<open>None\<close> stands for a call that has not returned: the answers are
  used up while the loop still asks for more.
\<close>

fun send_loop :: "string \<Rightarrow> nat \<Rightarrow> send_ans list \<Rightarrow> string \<Rightarrow> (int \<times> sock) option" where
  "send_loop json sent [] out =
     (if sent < length json + 1 then None else Some (0, \<lparr>answers = [], wire = out\<rparr>))"
| "send_loop json sent (a # as) out =
     (if sent < length json + 1 then
        (let chunk = (if sent < length json then drop sent json else [LF]);
             chunklen = (if sent < length json then length json - sent else 1)
         in case a of
              SendIntr \<Rightarrow> send_loop json sent as out
            | SendErr \<Rightarrow> Some (- 1, \<lparr>answers = as, wire = out\<rparr>)
            | Sent n \<Rightarrow> send_loop json (sent + min n chunklen) as (out @ take (min n chunklen) chunk))
      else Some (0, \<lparr>answers = a # as, wire = out\<rparr>))"

definition hsed_send_line :: "sock \<Rightarrow> string \<Rightarrow> (int \<times> sock) option" where
  "hsed_send_line so json = send_loop (cstr json) 0 (answers so) (wire so)"

text \<open>\<open>vsnprintf\<close> into \<open>char buf[2048]\<close>; the argument is the formatted text.\<close>

definition hsed_send_linef :: "sock \<Rightarrow> string \<Rightarrow> (int \<times> sock) option" where
  "hsed_send_linef so msg = hsed_send_line so (snprintf 2048 msg)"

subsection \<open>What reaches the peer\<close>

lemma send_loop_wire:
  assumes "sent \<le> length json + 1" and "send_loop json sent as out = Some (r, so')"
  shows "r = 0 \<and> wire so' = out @ drop sent (json @ [LF]) \<or>
    r = - 1 \<and> (\<exists>k < length json + 1 - sent. wire so' = out @ take k (drop sent (json @ [LF])))"
  using assms
proof (induction json sent as out rule: send_loop.induct)
  case (1 json sent out)
  then show ?case by (auto split: if_splits)
next
  case (2 json sent a as out)
  define chunk where "chunk = (if sent < length json then drop sent json else [LF])"
  define chunklen where "chunklen = (if sent < length json then length json - sent else 1)"
  show ?case
  proof (cases "sent < length json + 1")
    case False
    with 2(3,4) show ?thesis by auto
  next
    case True
    show ?thesis
    proof (cases a)
      case SendIntr
      with True 2 show ?thesis by (simp add: Let_def)
    next
      case SendErr
      with True "2.prems" show ?thesis by (auto intro!: exI [of _ 0])
    next
      case (Sent n)
      let ?m = "min n chunklen"
      have pre: "take ?m chunk = take ?m (drop sent (json @ [LF]))"
        using True by (auto simp: chunk_def chunklen_def min_def)
      have run: "send_loop json (sent + ?m) as (out @ take ?m chunk) = Some (r, so')"
        using True Sent "2.prems" by (simp add: Let_def chunk_def chunklen_def)
      have le: "sent + ?m \<le> length json + 1"
        using True by (auto simp: chunklen_def)
      have IH: "r = 0 \<and> wire so' = (out @ take ?m chunk) @ drop (sent + ?m) (json @ [LF]) \<or>
        r = - 1 \<and> (\<exists>k < length json + 1 - (sent + ?m).
          wire so' = (out @ take ?m chunk) @ take k (drop (sent + ?m) (json @ [LF])))"
        using "2.IH"(1) [OF True chunk_def chunklen_def Sent le run] .
      have d: "drop (sent + ?m) (json @ [LF]) = drop ?m (drop sent (json @ [LF]))"
        by (simp only: drop_drop add.commute)
      from IH show ?thesis
      proof (elim disjE conjE exE)
        assume "r = 0" "wire so' = (out @ take ?m chunk) @ drop (sent + ?m) (json @ [LF])"
        then show ?thesis unfolding d pre by (metis append_assoc append_take_drop_id)
      next
        fix k
        assume "r = - 1" "k < length json + 1 - (sent + ?m)"
          "wire so' = (out @ take ?m chunk) @ take k (drop (sent + ?m) (json @ [LF]))"
        then show ?thesis unfolding d pre
          by (intro disjI2 conjI exI [of _ "?m + k"]) (auto simp: take_add)
      qed
    qed
  qed
qed

definition sent_some :: "send_ans \<Rightarrow> bool" where
  "sent_some a = (case a of Sent n \<Rightarrow> 0 < n | _ \<Rightarrow> False)"

lemma sent_some_simps [simp]:
  "sent_some (Sent n) = (0 < n)" "\<not> sent_some SendIntr" "\<not> sent_some SendErr"
  by (simp_all add: sent_some_def)

lemma send_loop_returns:
  assumes "SendErr \<notin> set as" and "length json + 1 - sent \<le> length (filter sent_some as)"
  shows "\<exists>so'. send_loop json sent as out = Some (0, so')"
  using assms
proof (induction json sent as out rule: send_loop.induct)
  case (2 json sent a as out)
  show ?case
  proof (cases "sent < length json + 1")
    case True
    show ?thesis
    proof (cases a)
      case (Sent n)
      define chunklen where "chunklen = (if sent < length json then length json - sent else 1)"
      have "length json + 1 - (sent + min n chunklen) \<le> length (filter sent_some as)"
        using "2.prems" Sent True by (auto simp: chunklen_def split: if_splits)
      with 2 Sent True show ?thesis by (auto simp: Let_def chunklen_def)
    qed (use 2 True in \<open>auto simp: Let_def\<close>)
  qed auto
qed auto

text \<open>
  C12. \<open>hsed_send_line\<close> delivers a line as a unit. When it returns 0, the bytes taken by the kernel
  are exactly the line and one newline, in order, however \<open>send\<close> split them and however often it
  was interrupted; when it returns -1, they are a proper prefix of that.
\<close>

theorem hsed_send_line_delivers:
  assumes "hsed_send_line so json = Some (r, so')"
  shows "r = 0 \<and> wire so' = wire so @ cstr json @ [LF] \<or>
    r = - 1 \<and> (\<exists>k \<le> length (cstr json). wire so' = wire so @ take k (cstr json @ [LF]))"
  using send_loop_wire [of 0 "cstr json" "answers so" "wire so" r so'] assms
  by (auto simp: hsed_send_line_def less_Suc_eq_le)

theorem hsed_send_line_delivers_witness:
  "\<exists>so'. hsed_send_line \<lparr>answers = [Sent 1, SendIntr, Sent 9, Sent 1], wire = []\<rparr> ''{}'' = Some (0, so') \<and>
    wire so' = ''{}'' @ [LF]"
proof -
  have run: "hsed_send_line \<lparr>answers = [Sent 1, SendIntr, Sent 9, Sent 1], wire = []\<rparr> ''{}''
      = Some (0, \<lparr>answers = [], wire = ''{}'' @ [LF]\<rparr>)"
    by (simp add: hsed_send_line_def)
  show ?thesis using hsed_send_line_delivers [OF run] run by simp
qed

text \<open>
  C31. \<open>hsed_send_line\<close> returns: if the kernel reports no error and takes at least one byte in as
  many calls as the line has bytes and one more, the loop ends with success, whatever interrupts
  lie between.
\<close>

theorem hsed_send_line_returns:
  assumes "SendErr \<notin> set (answers so)"
    and "length (cstr json) + 1 \<le> length (filter sent_some (answers so))"
  shows "\<exists>so'. hsed_send_line so json = Some (0, so')"
  using send_loop_returns [OF assms(1), of "cstr json" 0] assms(2) by (simp add: hsed_send_line_def)

theorem hsed_send_line_returns_witness:
  "\<exists>so'. hsed_send_line \<lparr>answers = [SendIntr, Sent 1, Sent 1, SendIntr, Sent 1], wire = ''x''\<rparr> ''{}'' = Some (0, so')"
  by (rule hsed_send_line_returns) simp_all

subsection \<open>Lines as messages\<close>

text \<open>The complete lines of a byte stream, as a client reads them.\<close>

fun lines_acc :: "string \<Rightarrow> string \<Rightarrow> string list" where
  "lines_acc acc [] = []"
| "lines_acc acc (c # cs) = (if c = LF then rev acc # lines_acc [] cs else lines_acc (c # acc) cs)"

definition lines_of :: "string \<Rightarrow> string list" where
  "lines_of s = lines_acc [] s"

lemma lines_acc_msg: "LF \<notin> set m \<Longrightarrow> lines_acc acc (m @ LF # rest) = (rev acc @ m) # lines_acc [] rest"
  by (induction m arbitrary: acc) auto

lemma lines_of_msgs:
  "\<forall>m \<in> set ms. LF \<notin> set m \<Longrightarrow> lines_of (concat (map (\<lambda>m. m @ [LF]) ms)) = ms"
  by (induction ms) (auto simp: lines_of_def lines_acc_msg)

text \<open>
  A channel for lines: a successful send appends the message and a newline to what the peer sees.
  Everything a client of the daemon can rely on follows from that.
\<close>

fun send_all :: "('s \<Rightarrow> string \<Rightarrow> (int \<times> 's) option) \<Rightarrow> 's \<Rightarrow> string list \<Rightarrow> (int \<times> 's) option" where
  "send_all send s [] = Some (0, s)"
| "send_all send s (m # ms) =
     do { (r, s') \<leftarrow> send s m; if r \<noteq> 0 then Some (r, s') else send_all send s' ms }"

locale line_channel =
  fixes send :: "'s \<Rightarrow> string \<Rightarrow> (int \<times> 's) option"
    and seen :: "'s \<Rightarrow> string"
  assumes send_ok: "send s m = Some (0, s') \<Longrightarrow> NUL \<notin> set m \<Longrightarrow> seen s' = seen s @ m @ [LF]"
begin

lemma send_all_seen:
  "send_all send s ms = Some (0, s') \<Longrightarrow> \<forall>m \<in> set ms. NUL \<notin> set m \<Longrightarrow>
   seen s' = seen s @ concat (map (\<lambda>m. m @ [LF]) ms)"
proof (induction ms arbitrary: s)
  case (Cons m ms)
  then obtain s1 where "send s m = Some (0, s1)" "send_all send s1 ms = Some (0, s')"
    by (auto split: bind_splits if_splits)
  with Cons show ?case by (auto dest: send_ok)
qed simp

lemma send_all_lines:
  assumes "send_all send s ms = Some (0, s')" and "seen s = []"
    and "\<forall>m \<in> set ms. NUL \<notin> set m \<and> LF \<notin> set m"
  shows "lines_of (seen s') = ms"
  using send_all_seen [OF assms(1)] assms(2,3) lines_of_msgs by auto

end

interpretation sock_line: line_channel hsed_send_line wire
proof
  show "wire s' = wire s @ m @ [LF]" if "hsed_send_line s m = Some (0, s')" "NUL \<notin> set m" for s m s'
    using send_loop_wire [of 0 "cstr m" "answers s" "wire s" 0 s'] that
    by (auto simp: hsed_send_line_def cstr_id)
qed

end
