(* ===== verification/Hsed_Reclaim.thy ===== *)
theory Hsed_Reclaim
  imports Hsed_ProcScan
begin

text \<open>
  \<open>reclaim.c\<close>: truncating the file behind another process's descriptor, and sending a signal. Both
  return the next kernel state and either the message left in \<open>errbuf\<close> (return value -1) or the
  result (return value 0).
\<close>

definition path_fd :: "int \<Rightarrow> int \<Rightarrow> string" where
  "path_fd pid fd = snprintf 64 (''/proc/'' @ show_int pid @ ''/fd/'' @ show_int fd)"

definition hsed_truncate_fd :: "'w kernel \<Rightarrow> 'w \<Rightarrow> int \<Rightarrow> int \<Rightarrow> nat \<Rightarrow> 'w \<times> (string + int)" where
  "hsed_truncate_fd K w pid fd errlen =
     (let fd_path = path_fd pid fd in
      case k_stat K w fd_path of
        Inl e \<Rightarrow> (w, Inl (snprintf errlen (''could not stat '' @ fd_path @ '': '' @ k_strerror K e)))
      | Inr st \<Rightarrow>
          (case k_open_wr K w fd_path of
             (Inl e, w1) \<Rightarrow>
               (w1, Inl (snprintf errlen (''could not open '' @ fd_path @ '' for writing: '' @
                  k_strerror K e @ '' (need root or the file owner's permission)'')))
           | (Inr raw_fd, w1) \<Rightarrow>
               (case k_ftruncate K w1 raw_fd of
                  (Some e, w2) \<Rightarrow>
                    (k_close K w2 raw_fd,
                     Inl (snprintf errlen (''ftruncate failed on '' @ fd_path @ '': '' @ k_strerror K e)))
                | (None, w2) \<Rightarrow> (k_close K w2 raw_fd, Inr (st_size st)))))"

definition hsed_send_signal :: "'w kernel \<Rightarrow> 'w \<Rightarrow> int \<Rightarrow> int \<Rightarrow> nat \<Rightarrow> 'w \<times> (string + unit)" where
  "hsed_send_signal K w pid sig errlen =
     (case k_kill K w pid sig of
        (Some e, w') \<Rightarrow> (w', Inl (snprintf errlen (''kill('' @ show_int pid @ '', '' @ show_int sig @
           '') failed: '' @ k_strerror K e)))
      | (None, w') \<Rightarrow> (w', Inr ()))"

section \<open>Truncation reclaims the space\<close>

text \<open>
  C6. If the kernel's \<open>ftruncate\<close> on a freshly opened file makes its size zero (ftruncate(2)), then
  a successful \<open>TRUNCATE\<close> reports the size the file had, and afterwards no scan with a positive
  minimum size lists that descriptor any more.
\<close>

theorem hsed_truncate_reclaims:
  assumes ftruncate_zero: "\<And>u path h u1 u2 st. k_open_wr K u path = (Inr h, u1) \<Longrightarrow>
      k_ftruncate K u1 h = (None, u2) \<Longrightarrow> k_stat K (k_close K u2 h) path = Inr st \<Longrightarrow> st_size st = 0"
    and "is_c_int pid" and "is_c_int fd"
    and "hsed_truncate_fd K w pid fd errlen = (w', Inr freed)" and "0 < min_size"
  shows "(\<exists>st. k_stat K w (path_fd pid fd) = Inr st \<and> freed = st_size st) \<and>
    match_fd K w' (path_fd_dir pid) min_size (show_int fd) = None"
proof -
  from assms(4) obtain st h w1 w2 where st: "k_stat K w (path_fd pid fd) = Inr st"
    and "k_open_wr K w (path_fd pid fd) = (Inr h, w1)" and "k_ftruncate K w1 h = (None, w2)"
    and w': "w' = k_close K w2 h" and freed: "freed = st_size st"
    by (auto simp: hsed_truncate_fd_def Let_def split: sum.splits prod.splits option.splits)
  then have zero: "st_size st' = 0" if "k_stat K w' (path_fd pid fd) = Inr st'" for st'
    using that ftruncate_zero by blast
  have len: "length (show_int pid) \<le> 11" "length (show_int fd) \<le> 11"
    using assms(2,3) length_show_c_int by blast+
  have path: "snprintf 322 (path_fd_dir pid @ ''/'' @ show_int fd) = path_fd pid fd"
    using len by (simp add: proc_paths [OF assms(2)] path_fd_def snprintf_def)
  have "match_fd K w' (path_fd_dir pid) min_size (show_int fd) \<noteq> Some m" for m
  proof
    assume "match_fd K w' (path_fd_dir pid) min_size (show_int fd) = Some m"
    moreover obtain fdnum target st' where "m = (fdnum, target, st')" by (cases m) auto
    ultimately have "k_stat K w' (path_fd pid fd) = Inr st'" "min_size \<le> st_size st'"
      unfolding path [symmetric]
      by (auto simp: match_fd_def Let_def split: if_splits option.splits sum.splits)
    with zero assms(5) show False by fastforce
  qed
  then have "match_fd K w' (path_fd_dir pid) min_size (show_int fd) = None" by (metis not_None_eq)
  with st freed show ?thesis by auto
qed

theorem hsed_truncate_reclaims_witness:
  "\<exists>w'. hsed_truncate_fd demo_kernel demo_w 42 3 256 = (w', Inr 5000) \<and>
    match_fd demo_kernel w' (path_fd_dir 42) 1 (show_int 3) = None"
proof -
  have run: "hsed_truncate_fd demo_kernel demo_w 42 3 256 = ((0, []), Inr 5000)"
    by code_simp
  have zero: "st_size st = 0" if "k_open_wr demo_kernel u path = (Inr h, u1)"
    "k_ftruncate demo_kernel u1 h = (None, u2)"
    "k_stat demo_kernel (k_close demo_kernel u2 h) path = Inr st" for u path h u1 u2 st
    using that by (auto simp: demo_kernel_acts demo_stat_def split: if_splits)
  have "is_c_int 42" "is_c_int 3" by (simp_all add: is_c_int_def)
  from hsed_truncate_reclaims [where min_size = 1, OF zero this run] run show ?thesis by auto
qed

text \<open>
  C32. \<open>hsed_truncate_fd\<close> leaks no descriptor on any path: where \<open>open\<close> adds the descriptor it
  returns to the open ones, a failed \<open>open\<close> adds none, \<open>ftruncate\<close> changes none and \<open>close\<close>
  removes the one it is given, the open descriptors afterwards are those from before.
\<close>

theorem hsed_truncate_closes:
  assumes open_ok: "\<And>u path h u1. k_open_wr K u path = (Inr h, u1) \<Longrightarrow>
      open_fds u1 = add_mset h (open_fds u)"
    and open_fail: "\<And>u path e u1. k_open_wr K u path = (Inl e, u1) \<Longrightarrow> open_fds u1 = open_fds u"
    and trunc: "\<And>u h r u1. k_ftruncate K u h = (r, u1) \<Longrightarrow> open_fds u1 = open_fds u"
    and close: "\<And>u h. open_fds (k_close K u h) = open_fds u - {#h#}"
  shows "open_fds (fst (hsed_truncate_fd K w pid fd errlen)) = (open_fds w :: nat multiset)"
proof (cases "k_stat K w (path_fd pid fd)")
  case (Inl e)
  then show ?thesis by (simp add: hsed_truncate_fd_def)
next
  case (Inr st)
  obtain r w1 where op: "k_open_wr K w (path_fd pid fd) = (r, w1)" by fastforce
  show ?thesis
  proof (cases r)
    case (Inl e)
    with op Inr open_fail show ?thesis by (simp add: hsed_truncate_fd_def)
  next
    case (Inr h)
    obtain t w2 where tr: "k_ftruncate K w1 h = (t, w2)" by fastforce
    have "open_fds (k_close K w2 h) = open_fds w"
      using open_ok [of w _ h w1] op Inr trunc [OF tr] close [of w2 h] by auto
    with op tr Inr \<open>k_stat K w (path_fd pid fd) = Inr st\<close> show ?thesis
      by (cases t) (simp_all add: hsed_truncate_fd_def Let_def)
  qed
qed

theorem hsed_truncate_closes_witness:
  "mset (snd (fst (hsed_truncate_fd demo_kernel (5000, [8]) 42 3 256))) = {#8#}"
proof -
  let ?open = "\<lambda>w :: demo_state. mset (snd w)"
  have acts: "k_open_wr demo_kernel u path = (Inr h, u1) \<Longrightarrow> ?open u1 = add_mset h (?open u)"
    "k_open_wr demo_kernel u path = (Inl e, u1) \<Longrightarrow> ?open u1 = ?open u"
    "k_ftruncate demo_kernel u h = (r, u1) \<Longrightarrow> ?open u1 = ?open u"
    "?open (k_close demo_kernel u h) = ?open u - {#h#}" for u path h u1 e r
    by (auto simp: demo_kernel_acts split: if_splits)
  show ?thesis
    using hsed_truncate_closes [of demo_kernel ?open "(5000, [8])" 42 3 256, OF acts] by simp
qed

end
