(* ===== verification/Hsed_Tracer.thy ===== *)
theory Hsed_Tracer
  imports Hsed_Kernel
begin

text \<open>
  \<open>tracer.c\<close>: following the writes of every thread of a process with \<open>ptrace\<close>. The kernel's
  answers (which thread stopped and why, its registers, its memory) are inputs; what the tracer
  does (the \<open>ptrace\<close> requests and the callbacks it makes) is a list of actions. The main loop is
  a step function over the kernel's answers to \<open>waitpid\<close>.
\<close>

section \<open>Registers: the architecture interface\<close>

record x86_regs =
  orig_rax :: u64
  rdi :: u64
  rsi :: u64
  rdx :: u64
  rax :: u64

text \<open>\<open>regs[0..30]\<close> of the aarch64 register block.\<close>

record aarch64_regs =
  xregs :: "u64 list"

text \<open>
  The accessors the tracing logic is written against, and the numbers of the system calls it
  looks for.
\<close>

record 'r arch =
  reg_syscall_nr :: "'r \<Rightarrow> int"
  reg_arg1 :: "'r \<Rightarrow> int"
  reg_arg2 :: "'r \<Rightarrow> u64"
  reg_arg3 :: "'r \<Rightarrow> u64"
  reg_ret :: "'r \<Rightarrow> int"
  SYS_write :: int
  SYS_pwrite64 :: int
  SYS_writev :: int

definition x86_64 :: "x86_regs arch" where
  "x86_64 = \<lparr>reg_syscall_nr = (\<lambda>r. sint (orig_rax r)), reg_arg1 = (\<lambda>r. sint (rdi r)),
     reg_arg2 = rsi, reg_arg3 = rdx, reg_ret = (\<lambda>r. sint (rax r)),
     SYS_write = 1, SYS_pwrite64 = 18, SYS_writev = 20\<rparr>"

definition aarch64 :: "aarch64_regs arch" where
  "aarch64 = \<lparr>reg_syscall_nr = (\<lambda>r. sint (xregs r ! 8)), reg_arg1 = (\<lambda>r. sint (xregs r ! 0)),
     reg_arg2 = (\<lambda>r. xregs r ! 1), reg_arg3 = (\<lambda>r. xregs r ! 2), reg_ret = (\<lambda>r. sint (xregs r ! 0)),
     SYS_write = 64, SYS_pwrite64 = 68, SYS_writev = 66\<rparr>"

section \<open>Reading the tracee's memory\<close>

text \<open>
  \<open>process_vm_readv\<close> for one thread: the bytes at an address, \<open>None\<close> for an error; never more
  than were asked for.
\<close>

type_synonym remote_mem = "u64 \<Rightarrow> nat \<Rightarrow> byte list option"

definition read_remote :: "remote_mem \<Rightarrow> u64 \<Rightarrow> nat \<Rightarrow> byte list option" where
  "read_remote rm addr len = map_option (take len) (rm addr len)"

definition MAX_CAPTURE_HARD_LIMIT :: nat where "MAX_CAPTURE_HARD_LIMIT = 65536"
definition MAX_TRACKED_TIDS :: nat where "MAX_TRACKED_TIDS = 512"
definition MAX_WRITEV_IOVECS :: nat where "MAX_WRITEV_IOVECS = 16"

text \<open>Eight bytes in the byte order of both architectures.\<close>

fun le_nat :: "byte list \<Rightarrow> nat" where
  "le_nat [] = 0"
| "le_nat (b # bs) = unat b + 256 * le_nat bs"

text \<open>The array of \<open>struct remote_iovec\<close>: base and length, sixteen bytes each.\<close>

fun iovecs_of :: "nat \<Rightarrow> byte list \<Rightarrow> (u64 \<times> nat) list" where
  "iovecs_of 0 bs = []"
| "iovecs_of (Suc n) bs =
     (of_nat (le_nat (take 8 bs)), le_nat (take 8 (drop 8 bs))) # iovecs_of n (drop 16 bs)"

fun writev_loop :: "remote_mem \<Rightarrow> (u64 \<times> nat) list \<Rightarrow> nat \<Rightarrow> byte list \<Rightarrow> byte list" where
  "writev_loop rm [] max_capture got = got"
| "writev_loop rm ((base, len) # iovs) max_capture got =
     (if length got < max_capture then
        (let space = max_capture - length got;
             want = (if len > space then space else len)
         in if want = 0 then writev_loop rm iovs max_capture got
            else (case read_remote rm base want of
                    None \<Rightarrow> writev_loop rm iovs max_capture got
                  | Some bs \<Rightarrow> writev_loop rm iovs max_capture (got @ bs)))
      else got)"

definition capture_writev :: "remote_mem \<Rightarrow> u64 \<Rightarrow> u64 \<Rightarrow> nat \<Rightarrow> byte list" where
  "capture_writev rm iov_addr iovcnt max_capture =
     (if iovcnt = 0 then []
      else (let cnt = (if unat iovcnt > MAX_WRITEV_IOVECS then MAX_WRITEV_IOVECS else unat iovcnt) in
        case read_remote rm iov_addr (cnt * 16) of
          None \<Rightarrow> []
        | Some bs \<Rightarrow> if bs = [] then []
            else writev_loop rm (iovecs_of (length bs div 16) bs) max_capture []))"

section \<open>The thread table\<close>

record tid_state_t =
  ts_tid :: int
  in_syscall :: bool
  capturing :: bool
  pending_is_writev :: bool
  pending_buf_addr :: u64
  pending_iovcnt :: u64

definition fresh_tid :: "int \<Rightarrow> tid_state_t" where
  "fresh_tid tid = \<lparr>ts_tid = tid, in_syscall = False, capturing = False,
     pending_is_writev = False, pending_buf_addr = 0, pending_iovcnt = 0\<rparr>"

text \<open>
  The table is the list of its \<open>ntids\<close> used slots. \<open>find_tid\<close> is the search loop both operations
  start with; the result of \<open>find_or_add_tid\<close> is the slot (\<open>None\<close> over capacity), whether it is
  new, and the table.
\<close>

fun find_tid :: "tid_state_t list \<Rightarrow> int \<Rightarrow> nat option" where
  "find_tid [] tid = None"
| "find_tid (t # ts) tid = (if ts_tid t = tid then Some 0 else map_option Suc (find_tid ts tid))"

definition find_or_add_tid :: "tid_state_t list \<Rightarrow> int \<Rightarrow> nat option \<times> bool \<times> tid_state_t list" where
  "find_or_add_tid tids tid =
     (case find_tid tids tid of
        Some i \<Rightarrow> (Some i, False, tids)
      | None \<Rightarrow> if length tids \<ge> MAX_TRACKED_TIDS then (None, False, tids)
          else (Some (length tids), True, tids @ [fresh_tid tid]))"

definition remove_tid :: "tid_state_t list \<Rightarrow> int \<Rightarrow> tid_state_t list" where
  "remove_tid tids tid =
     (case find_tid tids tid of None \<Rightarrow> tids | Some i \<Rightarrow> butlast (tids[i := last tids]))"

fun discover_loop :: "nat \<Rightarrow> string list \<Rightarrow> int list \<Rightarrow> int list" where
  "discover_loop max_out [] out = out"
| "discover_loop max_out (name # names) out =
     (if take 1 name = ''.'' then discover_loop max_out names out
      else (case strtol 10 name of (v, rest) \<Rightarrow>
        if rest = name \<or> rest \<noteq> [] then discover_loop max_out names out
        else if length out < max_out then discover_loop max_out names (out @ [c_int v])
        else discover_loop max_out names out))"

definition discover_tids :: "'w kernel \<Rightarrow> 'w \<Rightarrow> int \<Rightarrow> nat \<Rightarrow> int list option" where
  "discover_tids K w pid max_out =
     (case k_readdir K w (snprintf 64 (''/proc/'' @ show_int pid @ ''/task'')) of
        None \<Rightarrow> None | Some names \<Rightarrow> Some (discover_loop max_out names []))"

section \<open>Wait statuses\<close>

definition WIFEXITED :: "32 word \<Rightarrow> bool" where "WIFEXITED s = (s AND 0x7F = 0)"

definition WIFSIGNALED :: "32 word \<Rightarrow> bool" where
  "WIFSIGNALED s = (0 < sint (signed_drop_bit 1 (ucast ((s AND 0x7F) + 1) :: 8 word)))"

definition WIFSTOPPED :: "32 word \<Rightarrow> bool" where "WIFSTOPPED s = (s AND 0xFF = 0x7F)"

definition WSTOPSIG :: "32 word \<Rightarrow> int" where "WSTOPSIG s = uint (drop_bit 8 (s AND 0xFF00))"

text \<open>\<open>status >> 16\<close> on an \<open>int\<close>.\<close>

definition status_event :: "32 word \<Rightarrow> int" where
  "status_event s = sint (signed_drop_bit 16 s)"

definition SIGTRAP :: int where "SIGTRAP = 5"
definition SIGSTOP :: int where "SIGSTOP = 19"
definition SYSCALL_STOP :: int where "SYSCALL_STOP = SIGTRAP OR 0x80"
definition PTRACE_EVENT_CLONE :: int where "PTRACE_EVENT_CLONE = 3"

lemmas sig_consts = SIGTRAP_def SIGSTOP_def SYSCALL_STOP_def PTRACE_EVENT_CLONE_def

section \<open>Actions and kernel answers\<close>

datatype tact =
    Seize int | Interrupt int | WaitFor int | Detach int
  | Resume int int \<comment> \<open>\<open>PTRACE_SYSCALL\<close> of a thread, with the signal to deliver (0 for none)\<close>
  | Cont int
  | AttachedCb | PollCb
  | WriteCb int int "byte list" bool \<comment> \<open>thread, return value, captured bytes, \<open>is_writev\<close>\<close>

text \<open>The thread a request to the kernel is about; the callbacks are no requests.\<close>

fun req_target :: "tact \<Rightarrow> int option" where
  "req_target (Seize t) = Some t"
| "req_target (Interrupt t) = Some t"
| "req_target (WaitFor t) = Some t"
| "req_target (Detach t) = Some t"
| "req_target (Resume t sig) = Some t"
| "req_target (Cont t) = Some t"
| "req_target AttachedCb = None"
| "req_target PollCb = None"
| "req_target (WriteCb t ret bs wv) = None"

text \<open>What the kernel answers about a stopped thread while the loop handles its stop.\<close>

record 'r stop_env =
  regs_ans :: "'r option"
  eventmsg_ans :: "u64 option"
  mem_ans :: remote_mem

text \<open>The answers of \<open>waitpid(-1, &status, __WALL | WNOHANG)\<close>; \<open>'p\<close> is what the poll callback sees.\<close>

datatype ('r, 'p) wait_ev =
    W_idle 'p
  | W_err errno
  | W_child int "32 word" "'r stop_env"

text \<open>The answers while one thread is attached.\<close>

record attach_ans =
  seize_ans :: "nat \<Rightarrow> errno" \<comment> \<open>of the attempts 0 to 4; 0 for success\<close>
  interrupt_ok :: bool
  wait_tid :: int
  wait_status :: "32 word"
  resume_ok :: bool

section \<open>Attaching\<close>

fun seize_loop :: "(nat \<Rightarrow> errno) \<Rightarrow> int \<Rightarrow> nat \<Rightarrow> nat \<Rightarrow> bool \<times> tact list" where
  "seize_loop ans tid 0 attempt = (False, [])"
| "seize_loop ans tid (Suc k) attempt =
     (if ans attempt = 0 then (True, [Seize tid])
      else if ans attempt \<noteq> EPERM then (False, [Seize tid])
      else (case seize_loop ans tid k (Suc attempt) of (ok, acts) \<Rightarrow> (ok, Seize tid # acts)))"

definition attach_one :: "attach_ans \<Rightarrow> int \<Rightarrow> tid_state_t list \<Rightarrow> tid_state_t list \<times> tact list" where
  "attach_one a tid tids =
     (case seize_loop (seize_ans a) tid 5 0 of (ok, acts) \<Rightarrow>
        if \<not> ok then (tids, acts)
        else if \<not> interrupt_ok a then (tids, acts @ [Interrupt tid, Detach tid])
        else if wait_tid a \<noteq> tid \<or> \<not> WIFSTOPPED (wait_status a)
          then (tids, acts @ [Interrupt tid, WaitFor tid, Detach tid])
        else (case find_or_add_tid tids tid of
                (None, was_new, tids') \<Rightarrow> (tids', acts @ [Interrupt tid, WaitFor tid, Detach tid])
              | (Some i, was_new, tids') \<Rightarrow>
                  if \<not> resume_ok a
                  then (remove_tid tids' tid, acts @ [Interrupt tid, WaitFor tid, Resume tid 0, Detach tid])
                  else (tids', acts @ [Interrupt tid, WaitFor tid, Resume tid 0])))"

fun attach_all :: "(int \<Rightarrow> attach_ans) \<Rightarrow> int list \<Rightarrow> tid_state_t list \<Rightarrow> tid_state_t list \<times> tact list" where
  "attach_all ans [] tids = (tids, [])"
| "attach_all ans (tid # rest) tids =
     (case attach_one (ans tid) tid tids of (tids', acts) \<Rightarrow>
        case attach_all ans rest tids' of (tids'', acts') \<Rightarrow> (tids'', acts @ acts'))"

text \<open>The loop that lets every tracked thread go.\<close>

definition detach_all :: "(int \<Rightarrow> bool) \<Rightarrow> tid_state_t list \<Rightarrow> tact list" where
  "detach_all int_ok tids =
     concat (map (\<lambda>t. Interrupt (ts_tid t) # (if int_ok (ts_tid t) then [WaitFor (ts_tid t)] else [])
       @ [Detach (ts_tid t)]) tids)"

section \<open>One turn of the main loop\<close>

text \<open>The enter stop of a system call: does it write to our descriptor?\<close>

definition on_enter :: "'r arch \<Rightarrow> int \<Rightarrow> 'r option \<Rightarrow> tid_state_t \<Rightarrow> tid_state_t" where
  "on_enter A fd regs ts =
     (let ts0 = ts\<lparr>capturing := False\<rparr>;
          ts1 = (case regs of None \<Rightarrow> ts0
            | Some r \<Rightarrow>
                (let scno = reg_syscall_nr A r in
                 if (scno = SYS_write A \<or> scno = SYS_pwrite64 A \<or> scno = SYS_writev A) \<and> reg_arg1 A r = fd
                 then ts0\<lparr>capturing := True, pending_is_writev := (scno = SYS_writev A),
                         pending_buf_addr := reg_arg2 A r,
                         pending_iovcnt := (if scno = SYS_writev A then reg_arg3 A r else 0)\<rparr>
                 else ts0))
      in ts1\<lparr>in_syscall := True\<rparr>)"

text \<open>The bytes captured at the exit stop.\<close>

definition captured_bytes :: "remote_mem \<Rightarrow> nat \<Rightarrow> tid_state_t \<Rightarrow> int \<Rightarrow> byte list" where
  "captured_bytes rm max_capture ts ret =
     (if ret > 0 then
        (if pending_is_writev ts
         then capture_writev rm (pending_buf_addr ts) (pending_iovcnt ts) max_capture
         else (let want = (if nat ret < max_capture then nat ret else max_capture) in
               case read_remote rm (pending_buf_addr ts) want of None \<Rightarrow> [] | Some bs \<Rightarrow> bs))
      else [])"

definition on_exit :: "'r arch \<Rightarrow> nat \<Rightarrow> 'r stop_env \<Rightarrow> int \<Rightarrow> tid_state_t \<Rightarrow> tid_state_t \<times> tact list" where
  "on_exit A max_capture env tid ts =
     (ts\<lparr>in_syscall := False, capturing := False\<rparr>,
      if capturing ts then
        (case regs_ans env of None \<Rightarrow> []
         | Some r \<Rightarrow> [WriteCb tid (reg_ret A r) (captured_bytes (mem_ans env) max_capture ts (reg_ret A r))
                       (pending_is_writev ts)])
      else [])"

text \<open>A stop of a thread that is in the table, in slot \<open>i\<close>, and not new there.\<close>

definition on_stop :: "'r arch \<Rightarrow> int \<Rightarrow> nat \<Rightarrow> 'r stop_env \<Rightarrow> int \<Rightarrow> 32 word \<Rightarrow> nat \<Rightarrow> tid_state_t list \<Rightarrow>
    tid_state_t list \<times> tact list" where
  "on_stop A fd max_capture env r status i tids =
     (let stopsig = WSTOPSIG status in
      if stopsig = SYSCALL_STOP then
        (if \<not> in_syscall (tids ! i) then (tids[i := on_enter A fd (regs_ans env) (tids ! i)], [Resume r 0])
         else (case on_exit A max_capture env r (tids ! i) of (ts', acts) \<Rightarrow> (tids[i := ts'], acts @ [Resume r 0])))
      else if stopsig = SIGTRAP then
        (let tids' = (if status_event status = PTRACE_EVENT_CLONE
               then (case eventmsg_ans env of None \<Rightarrow> tids
                     | Some msg \<Rightarrow> snd (snd (find_or_add_tid tids (c_int (uint msg)))))
               else tids)
         in (tids', [Resume r 0]))
      else if stopsig = SIGSTOP then (tids, [Resume r 0])
      else (tids, [Resume r stopsig]))"

definition trace_step :: "'r arch \<Rightarrow> int \<Rightarrow> nat \<Rightarrow> ('p \<Rightarrow> bool) \<Rightarrow> (int \<Rightarrow> bool) \<Rightarrow> ('r, 'p) wait_ev \<Rightarrow>
    tid_state_t list \<Rightarrow> tid_state_t list \<times> tact list \<times> bool" where
  "trace_step A fd max_capture poll_cb int_ok ev tids =
     (case ev of
        W_idle p \<Rightarrow>
          if \<not> poll_cb p then (tids, PollCb # detach_all int_ok tids, True) else (tids, [PollCb], False)
      | W_err e \<Rightarrow> (tids, [], e = ECHILD)
      | W_child r status env \<Rightarrow>
          (case find_or_add_tid tids r of
             (None, was_new, tids') \<Rightarrow> (tids', [Cont r], False)
           | (Some i, was_new, tids') \<Rightarrow>
               if WIFEXITED status \<or> WIFSIGNALED status
               then (let tids'' = remove_tid tids' r in (tids'', [], tids'' = []))
               else if \<not> WIFSTOPPED status then (tids', [], False)
               else if was_new then (tids', [Resume r 0], False)
               else (case on_stop A fd max_capture env r status i tids' of (tids'', acts) \<Rightarrow>
                 (tids'', acts, False))))"

text \<open>
  The whole loop on a sequence of answers: the table, the actions, and whether the loop has
  returned (it returns 0).
\<close>

fun trace_loop :: "'r arch \<Rightarrow> int \<Rightarrow> nat \<Rightarrow> ('p \<Rightarrow> bool) \<Rightarrow> (int \<Rightarrow> bool) \<Rightarrow> ('r, 'p) wait_ev list \<Rightarrow>
    tid_state_t list \<Rightarrow> tid_state_t list \<times> tact list \<times> bool" where
  "trace_loop A fd max_capture poll_cb int_ok [] tids = (tids, [], False)"
| "trace_loop A fd max_capture poll_cb int_ok (ev # evs) tids =
     (case trace_step A fd max_capture poll_cb int_ok ev tids of (tids', acts, fin) \<Rightarrow>
        if fin then (tids', acts, True)
        else (case trace_loop A fd max_capture poll_cb int_ok evs tids' of (tids'', acts', fin') \<Rightarrow>
          (tids'', acts @ acts', fin')))"

section \<open>hsed_trace_fd\<close>

text \<open>Everything the kernel answers during one session.\<close>

record ('r, 'p) session =
  attach_of :: "int \<Rightarrow> attach_ans"
  list_errno :: errno \<comment> \<open>\<open>errno\<close> after the thread list was read\<close>
  seize_errno :: errno \<comment> \<open>\<open>errno\<close> after the attach loop\<close>
  malloc_ok :: bool
  int_ok_of :: "int \<Rightarrow> bool" \<comment> \<open>\<open>PTRACE_INTERRUPT\<close> of a thread when the session ends\<close>
  events :: "('r, 'p) wait_ev list"

definition clamp_capture :: "nat \<Rightarrow> nat" where
  "clamp_capture max_capture =
     (let m = (if max_capture = 0 then 200 else max_capture)
      in if m > MAX_CAPTURE_HARD_LIMIT then MAX_CAPTURE_HARD_LIMIT else m)"

text \<open>
  The result: the return value (\<open>None\<close> while the loop is still running), the message in
  \<open>errbuf\<close> and the actions.
\<close>

definition hsed_trace_fd :: "'r arch \<Rightarrow> 'w kernel \<Rightarrow> 'w \<Rightarrow> ('p \<Rightarrow> bool) \<Rightarrow> ('r, 'p) session \<Rightarrow> int \<Rightarrow> int \<Rightarrow> nat \<Rightarrow> nat \<Rightarrow>
    int option \<times> string \<times> tact list" where
  "hsed_trace_fd A K w poll_cb S pid fd max_capture errlen =
     (let m = clamp_capture max_capture;
          failed = (Some (- 1), snprintf errlen (''could not list threads for '' @ show_int pid @ '': '' @
            k_strerror K (list_errno S)), [])
      in case discover_tids K w pid MAX_TRACKED_TIDS of
        None \<Rightarrow> failed
      | Some [] \<Rightarrow> failed
      | Some tidlist \<Rightarrow>
          (case attach_all (attach_of S) tidlist [] of (tids, acts) \<Rightarrow>
             if tids = [] then
               (Some (- 1), snprintf errlen (''PTRACE_SEIZE failed for every thread of '' @ show_int pid @ '': '' @
                  k_strerror K (seize_errno S) @ '' (need root/CAP_SYS_PTRACE, '' @
                  ''and /proc/sys/kernel/yama/ptrace_scope must allow it)''), acts)
             else if \<not> malloc_ok S then
               (Some (- 1), snprintf errlen (''out of memory allocating a '' @ show_nat m @ ''-byte capture buffer''),
                acts @ [AttachedCb] @ detach_all (int_ok_of S) tids)
             else (case trace_loop A fd m poll_cb (int_ok_of S) (events S) tids of (tids', acts', fin) \<Rightarrow>
               (if fin then Some 0 else None, [], acts @ [AttachedCb] @ acts'))))"

text \<open>The build for any other architecture.\<close>

definition hsed_trace_fd_unsupported :: "nat \<Rightarrow> int option \<times> string \<times> tact list" where
  "hsed_trace_fd_unsupported errlen =
     (Some (- 1), snprintf errlen ''live streaming is only implemented for x86_64 and aarch64 in this version'', [])"

section \<open>The thread table is a bounded map\<close>

text \<open>
  What the main loop relies on: the slots are keyed by distinct thread ids, at most
  \<open>MAX_TRACKED_TIDS\<close> of them, and the search, the insertion, the in-place update of a slot and
  the removal act on the map from thread ids to states.
\<close>

definition tids_wf :: "tid_state_t list \<Rightarrow> bool" where
  "tids_wf tids = (distinct (map ts_tid tids) \<and> length tids \<le> MAX_TRACKED_TIDS)"

definition tid_map :: "tid_state_t list \<Rightarrow> int \<Rightarrow> tid_state_t option" where
  "tid_map tids = map_of (map (\<lambda>t. (ts_tid t, t)) tids)"

locale bounded_table =
  fixes invar :: "'t \<Rightarrow> bool"
    and lookup :: "'t \<Rightarrow> int \<Rightarrow> 'v option"
    and capacity :: nat
    and fresh :: "int \<Rightarrow> 'v"
    and add :: "'t \<Rightarrow> int \<Rightarrow> nat option \<times> bool \<times> 't"
    and del :: "'t \<Rightarrow> int \<Rightarrow> 't"
    and slot :: "'t \<Rightarrow> nat \<Rightarrow> 'v"
    and put :: "'t \<Rightarrow> nat \<Rightarrow> 'v \<Rightarrow> 't"
    and key :: "'v \<Rightarrow> int"
  assumes finite_dom: "finite (dom (lookup t))"
    and card_dom: "invar t \<Longrightarrow> card (dom (lookup t)) \<le> capacity"
    and lookup_key: "lookup t k = Some v \<Longrightarrow> key v = k"
    and key_fresh: "key (fresh k) = k"
    and add_found: "lookup t k = Some v \<Longrightarrow> \<exists>i. add t k = (Some i, False, t) \<and> slot t i = v"
    and add_full: "invar t \<Longrightarrow> lookup t k = None \<Longrightarrow> card (dom (lookup t)) = capacity \<Longrightarrow>
      add t k = (None, False, t)"
    and add_room: "invar t \<Longrightarrow> lookup t k = None \<Longrightarrow> card (dom (lookup t)) < capacity \<Longrightarrow>
      \<exists>i t'. add t k = (Some i, True, t') \<and> invar t' \<and> lookup t' = (lookup t)(k \<mapsto> fresh k)"
    and put_slot: "invar t \<Longrightarrow> add t k = (Some i, False, t) \<Longrightarrow> key v = k \<Longrightarrow>
      invar (put t i v) \<and> lookup (put t i v) = (lookup t)(k \<mapsto> v)"
    and del_lookup: "invar t \<Longrightarrow> lookup (del t k) = (lookup t)(k := None)"
    and del_invar: "invar t \<Longrightarrow> invar (del t k)"
begin

text \<open>The three outcomes of \<open>add\<close>.\<close>

lemma add_cases:
  assumes "invar t"
  obtains (found) v i where "lookup t k = Some v" and "add t k = (Some i, False, t)" and "slot t i = v"
  | (full) "lookup t k = None" and "card (dom (lookup t)) = capacity" and "add t k = (None, False, t)"
  | (new) i t' where "lookup t k = None" and "card (dom (lookup t)) < capacity"
      and "add t k = (Some i, True, t')" and "invar t'" and "lookup t' = (lookup t)(k \<mapsto> fresh k)"
  using add_found [of t k] add_full [OF assms, of k] add_room [OF assms, of k] card_dom [OF assms]
  by (cases "lookup t k") (metis le_neq_implies_less)+

lemma add_invar: "invar t \<Longrightarrow> invar (snd (snd (add t k)))"
  by (rule add_cases [of t k]) auto

lemma add_other: "invar t \<Longrightarrow> k' \<noteq> k \<Longrightarrow> lookup (snd (snd (add t k))) k' = lookup t k'"
  by (rule add_cases [of t k]) auto

lemma add_keeps: "invar t \<Longrightarrow> lookup t k' = Some v \<Longrightarrow> lookup (snd (snd (add t k))) k' = Some v"
  by (rule add_cases [of t k]) auto

lemma del_other: "invar t \<Longrightarrow> k' \<noteq> k \<Longrightarrow> lookup (del t k) k' = lookup t k'"
  by (simp add: del_lookup)

lemma add_again:
  assumes "invar t" and "add t k = (Some i, w, t')"
  shows "\<exists>j. add t' k = (Some j, False, t')"
proof (rule add_cases [OF assms(1), of k])
  fix v j assume "add t k = (Some j, False, t)"
  then show ?thesis using assms(2) by auto
next
  fix j t'' assume "lookup t'' = (lookup t)(k \<mapsto> fresh k)" and "add t k = (Some j, True, t'')"
  then show ?thesis using assms(2) add_found [of t' k "fresh k"] by auto
qed (use assms(2) in auto)

lemma del_add:
  assumes "invar t" and "lookup t k = None"
  shows "lookup (del (snd (snd (add t k))) k) = lookup t"
  using add_cases [OF assms(1), of k] assms
  by (metis add_invar del_lookup fun_upd_triv fun_upd_upd snd_conv)

lemma slot_after_add:
  assumes "invar t" and "add t k = (Some i, False, t')"
  shows "t' = t \<and> lookup t k = Some (slot t i)"
  by (rule add_cases [OF assms(1), of k]) (use assms(2) in auto)

end

subsection \<open>The array implements the map\<close>

lemma find_tid_None: "find_tid tids k = None \<longleftrightarrow> k \<notin> ts_tid ` set tids"
  by (induction tids) auto

lemma find_tid_Some:
  "find_tid tids k = Some i \<Longrightarrow> i < length tids \<and> ts_tid (tids ! i) = k \<and> tid_map tids k = Some (tids ! i)"
  by (induction tids arbitrary: i) (auto simp: tid_map_def split: if_splits)

lemma tid_map_None: "tid_map tids k = None \<longleftrightarrow> k \<notin> ts_tid ` set tids"
  by (auto simp: tid_map_def map_of_eq_None_iff image_image)

lemma find_tid_None_map: "find_tid tids k = None \<longleftrightarrow> tid_map tids k = None"
  by (simp add: find_tid_None tid_map_None)

lemma tid_map_key: "tid_map tids k = Some v \<Longrightarrow> ts_tid v = k \<and> v \<in> set tids"
  by (auto simp: tid_map_def dest: map_of_SomeD)

lemma dom_tid_map: "dom (tid_map tids) = ts_tid ` set tids"
  by (auto simp: tid_map_def dom_map_of_conv_image_fst image_image)

lemma card_dom_tid_map: "tids_wf tids \<Longrightarrow> card (dom (tid_map tids)) = length tids"
  by (metis dom_tid_map distinct_card length_map set_map tids_wf_def)

lemma tid_map_iff:
  "distinct (map ts_tid tids) \<Longrightarrow> tid_map tids k = Some v \<longleftrightarrow> v \<in> set tids \<and> ts_tid v = k"
  by (auto simp: tid_map_def map_of_eq_Some_iff comp_def image_iff)

lemma tid_map_eqI:
  assumes "distinct (map ts_tid tids)"
    and "\<And>k v. m k = Some v \<longleftrightarrow> v \<in> set tids \<and> ts_tid v = k"
  shows "tid_map tids = m"
  by (rule ext, metis assms tid_map_iff option.exhaust)

lemma tid_map_append_fresh:
  assumes "distinct (map ts_tid tids)" and "k \<notin> ts_tid ` set tids"
  shows "tid_map (tids @ [fresh_tid k]) = (tid_map tids)(k \<mapsto> fresh_tid k)"
  using assms by (intro tid_map_eqI) (auto simp: tid_map_iff fresh_tid_def)

lemma tid_map_put:
  assumes "distinct (map ts_tid tids)" and "i < length tids" and "ts_tid (tids ! i) = ts_tid v"
  shows "tid_map (tids[i := v]) = (tid_map tids)(ts_tid v \<mapsto> v)"
    and "map ts_tid (tids[i := v]) = map ts_tid tids"
proof -
  show keys: "map ts_tid (tids[i := v]) = map ts_tid tids"
    using assms(2,3) by (metis list_update_id map_update)
  have "distinct tids" and inj: "inj_on ts_tid (set tids)" using assms(1) by (auto simp: distinct_map)
  then have "set (tids[i := v]) = insert v (set tids - {tids ! i})"
    using assms(2) by (simp add: set_update_distinct)
  moreover have "u = tids ! i" if "u \<in> set tids" "ts_tid u = ts_tid v" for u
    using inj that assms(2,3) by (metis inj_onD nth_mem)
  ultimately show "tid_map (tids[i := v]) = (tid_map tids)(ts_tid v \<mapsto> v)"
    using assms keys by (intro tid_map_eqI) (auto simp: tid_map_iff)
qed

text \<open>Removal: the last slot replaces the removed one.\<close>

lemma mset_swap_last:
  assumes "i < length xs"
  shows "mset (butlast (xs[i := last xs])) = mset xs - {#xs ! i#}"
proof -
  have ne: "xs \<noteq> []" using assms by auto
  have "mset (butlast (xs[i := last xs])) = mset (xs[i := last xs]) - {#last (xs[i := last xs])#}"
    by (metis add_diff_cancel_right' append_butlast_last_id assms length_list_update list.size(3)
        mset.simps(1) mset_append mset_single_iff_right not_less_zero)
  also have "last (xs[i := last xs]) = last xs"
    using assms ne by (simp add: last_list_update)
  also have "mset (xs[i := last xs]) = add_mset (last xs) (mset xs - {#xs ! i#})"
    using assms by (simp add: mset_update)
  finally show ?thesis by simp
qed

lemma remove_tid_mset:
  "find_tid tids k = Some i \<Longrightarrow> mset (remove_tid tids k) = mset tids - {#tids ! i#}"
  by (simp add: remove_tid_def mset_swap_last find_tid_Some)

lemma set_remove_tid:
  assumes "distinct (map ts_tid tids)"
  shows "set (remove_tid tids k) = {t \<in> set tids. ts_tid t \<noteq> k}" (is ?set)
    and "distinct (map ts_tid (remove_tid tids k))" (is ?dist)
proof -
  have "?set \<and> ?dist"
  proof (cases "find_tid tids k")
    case None
    then show ?thesis using assms find_tid_None [of tids k] by (auto simp: remove_tid_def)
  next
    case (Some i)
    note m = remove_tid_mset [OF Some] and f = find_tid_Some [OF Some]
    have dist: "distinct tids" and inj: "inj_on ts_tid (set tids)" using assms by (auto simp: distinct_map)
    have m': "mset (remove_tid tids k) = mset (remove1 (tids ! i) tids)" using m by simp
    have set: "set (remove_tid tids k) = set tids - {tids ! i}"
      using mset_eq_setD [OF m'] dist by simp
    have "distinct (remove_tid tids k)"
      using mset_eq_imp_distinct_iff [OF m'] dist by (simp add: distinct_remove1)
    then have ?dist using inj set by (auto simp: distinct_map inj_on_subset)
    moreover have uniq: "t = tids ! i \<longleftrightarrow> ts_tid t = k" if "t \<in> set tids" for t
      using inj that f by (metis inj_onD nth_mem)
    have ?set unfolding set using uniq by blast
    ultimately show ?thesis by simp
  qed
  then show ?set ?dist by simp_all
qed

lemma length_remove_tid: "length (remove_tid tids k) \<le> length tids"
  by (simp add: remove_tid_def split: option.splits)

lemma fresh_key [simp]: "ts_tid (fresh_tid k) = k"
  by (simp add: fresh_tid_def)

interpretation ttab: bounded_table tids_wf tid_map MAX_TRACKED_TIDS fresh_tid find_or_add_tid remove_tid
  "(!)" list_update ts_tid
proof
  show "finite (dom (tid_map t))" for t by (simp add: dom_tid_map)
  show "card (dom (tid_map t)) \<le> MAX_TRACKED_TIDS" if "tids_wf t" for t
    using that by (simp add: card_dom_tid_map) (simp add: tids_wf_def)
  show "ts_tid v = k" if "tid_map t k = Some v" for t k v using tid_map_key [OF that] by simp
  show "ts_tid (fresh_tid k) = k" for k by simp
  show "\<exists>i. find_or_add_tid t k = (Some i, False, t) \<and> t ! i = v" if "tid_map t k = Some v" for t k v
    using that find_tid_Some [of t k]
    by (cases "find_tid t k") (auto simp: find_or_add_tid_def find_tid_None simp flip: tid_map_None)
  show "find_or_add_tid t k = (None, False, t)"
    if "tids_wf t" "tid_map t k = None" "card (dom (tid_map t)) = MAX_TRACKED_TIDS" for t k
    using that card_dom_tid_map [OF that(1)]
    by (simp add: find_or_add_tid_def find_tid_None_map [THEN iffD2])
  show "\<exists>i t'. find_or_add_tid t k = (Some i, True, t') \<and> tids_wf t' \<and> tid_map t' = (tid_map t)(k \<mapsto> fresh_tid k)"
    if "tids_wf t" "tid_map t k = None" "card (dom (tid_map t)) < MAX_TRACKED_TIDS" for t k
    using that card_dom_tid_map [OF that(1)]
    by (auto simp: find_or_add_tid_def tid_map_append_fresh tids_wf_def tid_map_None
        find_tid_None [THEN iffD2])
  show "tids_wf (t[i := v]) \<and> tid_map (t[i := v]) = (tid_map t)(k \<mapsto> v)"
    if "tids_wf t" "find_or_add_tid t k = (Some i, False, t)" "ts_tid v = k" for t k i v
    using that tid_map_put [of t i v] find_tid_Some [of t k i]
    by (auto simp: tids_wf_def find_or_add_tid_def split: option.splits if_splits)
  show "tid_map (remove_tid t k) = (tid_map t)(k := None)" if "tids_wf t" for t k
    using that set_remove_tid [of t k]
    by (intro tid_map_eqI) (auto simp: tids_wf_def tid_map_iff)
  show "tids_wf (remove_tid t k)" if "tids_wf t" for t k
    using that set_remove_tid [of t k] length_remove_tid [of t k] by (auto simp: tids_wf_def)
qed

section \<open>What is captured\<close>

lemma length_read_remote: "read_remote rm a n = Some bs \<Longrightarrow> length bs \<le> n"
  by (auto simp: read_remote_def)

lemma length_writev_loop: "length got \<le> m \<Longrightarrow> length (writev_loop rm iovs m got) \<le> m"
proof (induction iovs arbitrary: got)
  case Nil
  then show ?case by simp
next
  case (Cons s iovs)
  have ext: "length (writev_loop rm iovs m (got @ bs)) \<le> m"
    if "read_remote rm a n = Some bs" "n \<le> m - length got" for a n bs
    using length_read_remote [OF that(1)] that(2) Cons.prems by (intro Cons.IH) auto
  show ?case using Cons by (cases s) (auto simp: Let_def split: option.splits intro: ext)
qed

lemma length_capture_writev: "length (capture_writev rm a n m) \<le> m"
  by (auto simp: capture_writev_def length_writev_loop Let_def split: option.splits)

lemma length_captured_bytes:
  "length (captured_bytes rm m ts ret) \<le> m"
  "\<not> pending_is_writev ts \<Longrightarrow> int (length (captured_bytes rm m ts ret)) \<le> max 0 ret"
  using length_capture_writev
  by (auto simp: captured_bytes_def Let_def split: option.splits dest: length_read_remote)

text \<open>The layout of \<open>struct iovec\<close> in the tracee's memory.\<close>

fun le_bytes :: "nat \<Rightarrow> nat \<Rightarrow> byte list" where
  "le_bytes 0 v = []"
| "le_bytes (Suc k) v = of_nat (v mod 256) # le_bytes k (v div 256)"

definition iov_bytes :: "(u64 \<times> nat) list \<Rightarrow> byte list" where
  "iov_bytes segs = concat (map (\<lambda>(base, len). le_bytes 8 (unat base) @ le_bytes 8 len) segs)"

lemma length_le_bytes [simp]: "length (le_bytes k v) = k"
  by (induction k arbitrary: v) auto

lemma le_nat_le_bytes: "v < 256 ^ k \<Longrightarrow> le_nat (le_bytes k v) = v"
proof (induction k arbitrary: v)
  case 0
  then show ?case by simp
next
  case (Suc k)
  have "v div 256 < 256 ^ k" using Suc.prems by (simp add: div_less_iff_less_mult mult.commute)
  moreover have "unat (of_nat (v mod 256) :: byte) = v mod 256" by (simp add: unat_of_nat)
  ultimately show ?case using Suc.IH by simp
qed

lemma length_iov_bytes [simp]: "length (iov_bytes segs) = 16 * length segs"
  by (induction segs) (auto simp: iov_bytes_def)

lemma iovecs_of_iov_bytes:
  "\<forall>s \<in> set segs. snd s < 2 ^ 64 \<Longrightarrow> iovecs_of (length segs) (iov_bytes segs) = segs"
proof (induction segs)
  case Nil
  then show ?case by simp
next
  case (Cons s segs)
  obtain base len where s: "s = (base, len)" by force
  have base_lt: "unat base < 2 ^ 64" using unsigned_less [of base] by simp
  have "iov_bytes (s # segs) = le_bytes 8 (unat base) @ le_bytes 8 len @ iov_bytes segs"
    by (simp add: iov_bytes_def s)
  moreover have "le_nat (le_bytes 8 (unat base)) = unat base" "le_nat (le_bytes 8 len) = len"
    using Cons.prems s base_lt by (auto intro!: le_nat_le_bytes)
  ultimately show ?case using Cons by (simp add: s)
qed

text \<open>A segment of the tracee's memory whose every prefix can be read.\<close>

definition seg_at :: "remote_mem \<Rightarrow> u64 \<times> nat \<Rightarrow> byte list \<Rightarrow> bool" where
  "seg_at rm s bs = (length bs = snd s \<and> (\<forall>n \<in> {1..snd s}. rm (fst s) n = Some (take n bs)))"

lemma writev_loop_reads:
  assumes "list_all2 (seg_at rm) segs datas" and "length got \<le> m"
  shows "writev_loop rm segs m got = take m (got @ concat datas)"
  using assms
proof (induction segs datas arbitrary: got rule: list_all2_induct)
  case Nil
  then show ?case by simp
next
  case (Cons s segs bs datas)
  obtain base len where s: "s = (base, len)" by force
  define want where "want = min len (m - length got)"
  have len: "length bs = len" and rd: "\<And>n. 1 \<le> n \<Longrightarrow> n \<le> len \<Longrightarrow> read_remote rm base n = Some (take n bs)"
    using Cons.hyps(1) by (auto simp: seg_at_def s read_remote_def)
  have want: "take want bs = take (m - length got) bs" by (simp add: want_def len min_def)
  have "writev_loop rm (s # segs) m got = writev_loop rm segs m (got @ take want bs)"
    if "length got < m"
  proof (cases "want = 0")
    case True
    then show ?thesis using that by (auto simp: s want_def Let_def)
  next
    case False
    then have "read_remote rm base want = Some (take want bs)" by (intro rd) (auto simp: want_def)
    moreover have "(if len > m - length got then m - length got else len) = want"
      by (auto simp: want_def)
    ultimately show ?thesis using that False by (simp add: s Let_def)
  qed
  moreover have "writev_loop rm segs m (got @ take want bs) = take m ((got @ take want bs) @ concat datas)"
    using Cons.prems by (intro Cons.IH) (simp add: want_def)
  moreover have "take m ((got @ take want bs) @ concat datas) = take m (got @ bs @ concat datas)"
    using want len by (simp add: take_append) (simp add: want_def len min_def)
  ultimately show ?case using Cons.prems by (cases "length got < m") (auto simp: s)
qed

lemma capture_writev_reads:
  assumes "0 < length segs" and "length segs < 2 ^ 64"
    and "\<forall>s \<in> set segs. snd s < 2 ^ 64"
    and "rm iov (16 * length (take 16 segs)) = Some (iov_bytes (take 16 segs))"
    and "list_all2 (seg_at rm) (take 16 segs) datas"
  shows "capture_writev rm iov (of_nat (length segs)) m = take m (concat datas)"
proof -
  let ?k = "length (take 16 segs)"
  have n: "unat (of_nat (length segs) :: u64) = length segs"
    using assms(2) by (simp add: unat_of_nat)
  have cnt: "(if length segs > MAX_WRITEV_IOVECS then MAX_WRITEV_IOVECS else length segs) = ?k"
    by (simp add: MAX_WRITEV_IOVECS_def)
  have ne: "(of_nat (length segs) :: u64) \<noteq> 0" using n assms(1) by (metis unat_0 less_irrefl)
  have "iov_bytes (take 16 segs) \<noteq> []" using assms(1) by (metis length_iov_bytes length_0_conv
        mult_is_0 take_eq_Nil zero_neq_numeral less_irrefl list.size(3))
  moreover have "iovecs_of ?k (iov_bytes (take 16 segs)) = take 16 segs"
    using assms(3) by (intro iovecs_of_iov_bytes) (auto dest: in_set_takeD)
  moreover have "read_remote rm iov (?k * 16) = Some (iov_bytes (take 16 segs))"
    using assms(4) by (simp add: read_remote_def mult.commute)
  ultimately show ?thesis
    using writev_loop_reads [OF assms(5), of "[]" m] ne
    by (simp add: capture_writev_def n cnt [simplified] Let_def min_def MAX_WRITEV_IOVECS_def split: if_splits)
qed

section \<open>What every architecture provides\<close>

text \<open>
  When a system call returns, the kernel stores the result with \<open>set_ret\<close> into the registers the
  enter stop has shown. The tracer relies on the number still being readable and on the result
  register; the first argument may be gone (on aarch64 it is the result register), which is why
  the loop decides at the enter stop.
\<close>

locale syscall_abi =
  fixes A :: "'r arch" and valid :: "'r \<Rightarrow> bool" and set_ret :: "u64 \<Rightarrow> 'r \<Rightarrow> 'r"
  assumes valid_set_ret: "valid r \<Longrightarrow> valid (set_ret v r)"
    and nr_set_ret: "valid r \<Longrightarrow> reg_syscall_nr A (set_ret v r) = reg_syscall_nr A r"
    and ret_set_ret: "valid r \<Longrightarrow> reg_ret A (set_ret v r) = sint v"
    and nr_distinct: "distinct [SYS_write A, SYS_pwrite64 A, SYS_writev A]"

definition x86_set_ret :: "u64 \<Rightarrow> x86_regs \<Rightarrow> x86_regs" where
  "x86_set_ret v r = r\<lparr>rax := v\<rparr>"

definition aarch64_set_ret :: "u64 \<Rightarrow> aarch64_regs \<Rightarrow> aarch64_regs" where
  "aarch64_set_ret v r = r\<lparr>xregs := (xregs r)[0 := v]\<rparr>"

interpretation x86: syscall_abi x86_64 "\<lambda>r. True" x86_set_ret
  by unfold_locales (simp_all add: x86_64_def x86_set_ret_def)

interpretation arm: syscall_abi aarch64 "\<lambda>r. length (xregs r) = 31" aarch64_set_ret
  by unfold_locales (simp_all add: aarch64_def aarch64_set_ret_def)

end
