(* ===== verification/Hsed_TraceLoop.thy ===== *)
theory Hsed_TraceLoop
  imports Hsed_Tracer
begin

text \<open>
  What a tracing session does: the reports of each thread against a reference that sees only that
  thread, the resumption of stopped threads, the delivery of signals, attaching and detaching, and
  the bounds of what is captured. The reference pairs the system-call stops of one thread, so it
  says nothing of the table, of the other threads and of the order in which their events arrive.
\<close>

section \<open>Reference: the reports of one thread\<close>

definition writes_to :: "'r arch \<Rightarrow> int \<Rightarrow> 'r \<Rightarrow> bool" where
  "writes_to A fd r = (reg_syscall_nr A r \<in> {SYS_write A, SYS_pwrite64 A, SYS_writev A} \<and> reg_arg1 A r = fd)"

definition call_bytes :: "'r arch \<Rightarrow> nat \<Rightarrow> remote_mem \<Rightarrow> 'r \<Rightarrow> int \<Rightarrow> byte list" where
  "call_bytes A m rm r ret =
     (if ret \<le> 0 then []
      else if reg_syscall_nr A r = SYS_writev A then capture_writev rm (reg_arg2 A r) (reg_arg3 A r) m
      else (case read_remote rm (reg_arg2 A r) (min (nat ret) m) of None \<Rightarrow> [] | Some bs \<Rightarrow> bs))"

definition call_report :: "'r arch \<Rightarrow> int \<Rightarrow> nat \<Rightarrow> int \<Rightarrow> 'r stop_env \<Rightarrow> 'r stop_env \<Rightarrow> tact list" where
  "call_report A fd m t e x =
     (case regs_ans e of None \<Rightarrow> [] | Some r \<Rightarrow>
        (if writes_to A fd r
         then (case regs_ans x of None \<Rightarrow> []
               | Some r' \<Rightarrow> [WriteCb t (reg_ret A r') (call_bytes A m (mem_ans x) r (reg_ret A r'))
                              (reg_syscall_nr A r = SYS_writev A)])
         else []))"

fun call_reports :: "'r arch \<Rightarrow> int \<Rightarrow> nat \<Rightarrow> int \<Rightarrow> 'r stop_env list \<Rightarrow> tact list" where
  "call_reports A fd m t (e # x # es) = call_report A fd m t e x @ call_reports A fd m t es"
| "call_reports A fd m t _ = []"

fun syscall_stops :: "int \<Rightarrow> ('r, 'p) wait_ev list \<Rightarrow> 'r stop_env list" where
  "syscall_stops t [] = []"
| "syscall_stops t (W_child r s env # evs) =
     (if r = t \<and> WIFSTOPPED s \<and> WSTOPSIG s = SYSCALL_STOP then env # syscall_stops t evs
      else syscall_stops t evs)"
| "syscall_stops t (_ # evs) = syscall_stops t evs"

fun ends_thread :: "int \<Rightarrow> ('r, 'p) wait_ev \<Rightarrow> bool" where
  "ends_thread t (W_child r s env) = (r = t \<and> (WIFEXITED s \<or> WIFSIGNALED s))"
| "ends_thread t _ = False"

fun is_write_of :: "int \<Rightarrow> tact \<Rightarrow> bool" where
  "is_write_of t (WriteCb r ret bs wv) = (r = t)"
| "is_write_of t _ = False"

text \<open>What is still to be reported by a thread in state \<open>ts\<close>.\<close>

definition reports_from :: "'r arch \<Rightarrow> int \<Rightarrow> nat \<Rightarrow> int \<Rightarrow> tid_state_t \<Rightarrow> 'r stop_env list \<Rightarrow> tact list" where
  "reports_from A fd m t ts es =
     (if in_syscall ts
      then (case es of [] \<Rightarrow> [] | x # es' \<Rightarrow> snd (on_exit A m x t ts) @ call_reports A fd m t es')
      else call_reports A fd m t es)"

section \<open>Single turns\<close>

lemma stopped_not_ended: "WIFSTOPPED s \<Longrightarrow> \<not> WIFEXITED s \<and> \<not> WIFSIGNALED s"
proof -
  assume "WIFSTOPPED s"
  moreover have "s AND 0x7F = (s AND 0xFF) AND 0x7F" by (simp only: and.assoc) simp
  ultimately have "s AND 0x7F = 0x7F" by (simp add: WIFSTOPPED_def)
  then show ?thesis by (simp add: WIFEXITED_def WIFSIGNALED_def) 
qed

lemma on_enter_keys [simp]:
  "ts_tid (on_enter A fd regs ts) = ts_tid ts" "in_syscall (on_enter A fd regs ts)"
  by (auto simp: on_enter_def Let_def split: option.splits)

lemma on_exit_keys [simp]:
  "ts_tid (fst (on_exit A m env t ts)) = ts_tid ts" "\<not> in_syscall (fst (on_exit A m env t ts))"
  by (auto simp: on_exit_def)

lemma on_exit_acts: "a \<in> set (snd (on_exit A m env t ts)) \<Longrightarrow> \<exists>ret bs wv. a = WriteCb t ret bs wv"
  by (cases "capturing ts"; cases "regs_ans env"; simp add: on_exit_def)

text \<open>An enter stop and the exit stop after it report the call.\<close>

lemma on_exit_on_enter:
  "snd (on_exit A m x t (on_enter A fd (regs_ans e) ts)) = call_report A fd m t e x"
proof (cases "regs_ans e")
  case None
  then show ?thesis by (simp add: on_exit_def on_enter_def call_report_def)
next
  case (Some r)
  have m: "(if nat ret < m then nat ret else m) = min (nat ret) m" for ret by simp
  show ?thesis
    by (cases "writes_to A fd r")
      (auto simp: Some on_exit_def on_enter_def call_report_def writes_to_def call_bytes_def
        captured_bytes_def Let_def m split: option.split)
qed

lemma filter_other_write: "r \<noteq> t \<Longrightarrow> filter (is_write_of t) (snd (on_exit A m env r ts)) = []"
  by (auto simp: filter_empty_conv dest!: on_exit_acts)

lemma filter_own_write: "filter (is_write_of t) (snd (on_exit A m env t ts)) = snd (on_exit A m env t ts)"
  by (auto simp: filter_id_conv dest!: on_exit_acts)


text \<open>The signal a stop is resumed with.\<close>

definition resume_sig :: "32 word \<Rightarrow> int" where
  "resume_sig s = (if WSTOPSIG s \<in> {SYSCALL_STOP, SIGTRAP, SIGSTOP} then 0 else WSTOPSIG s)"

lemma on_stop_table [trace_simps]:
  "fst (on_stop A fd m env r s i tids) =
     (if WSTOPSIG s = SYSCALL_STOP
      then tids[i := if in_syscall (tids ! i) then fst (on_exit A m env r (tids ! i))
                     else on_enter A fd (regs_ans env) (tids ! i)]
      else if WSTOPSIG s = SIGTRAP \<and> status_event s = PTRACE_EVENT_CLONE \<and> eventmsg_ans env \<noteq> None
      then snd (snd (find_or_add_tid tids (c_int (uint (the (eventmsg_ans env))))))
      else tids)"
  by (auto simp: on_stop_def Let_def split: option.split prod.split)

lemma on_stop_acts [trace_simps]:
  "snd (on_stop A fd m env r s i tids) =
     (if WSTOPSIG s = SYSCALL_STOP \<and> in_syscall (tids ! i) then snd (on_exit A m env r (tids ! i)) else [])
     @ [Resume r (resume_sig s)]"
  by (auto simp: on_stop_def Let_def resume_sig_def sig_consts split: option.split prod.split)

text \<open>The turn for a report of a thread, by what the table says of the thread.\<close>

lemma step_found [trace_simps]:
  "find_or_add_tid tids r = (Some i, False, tids) \<Longrightarrow>
   trace_step A fd m poll_cb int_ok (W_child r s env) tids =
     (if WIFEXITED s \<or> WIFSIGNALED s then (remove_tid tids r, [], remove_tid tids r = [])
      else if \<not> WIFSTOPPED s then (tids, [], False)
      else (fst (on_stop A fd m env r s i tids), snd (on_stop A fd m env r s i tids), False))"
  by (simp add: trace_step_def Let_def split: prod.split)

lemma step_full [trace_simps]:
  "find_or_add_tid tids r = (None, False, tids) \<Longrightarrow>
   trace_step A fd m poll_cb int_ok (W_child r s env) tids = (tids, [Cont r], False)"
  by (simp add: trace_step_def)

lemma step_new [trace_simps]:
  "find_or_add_tid tids r = (Some i, True, tids') \<Longrightarrow>
   trace_step A fd m poll_cb int_ok (W_child r s env) tids =
     (if WIFEXITED s \<or> WIFSIGNALED s then (remove_tid tids' r, [], remove_tid tids' r = [])
      else (tids', if WIFSTOPPED s then [Resume r 0] else [], False))"
  by (simp add: trace_step_def Let_def)

lemma step_other [trace_simps]:
  "trace_step A fd m poll_cb int_ok (W_idle p) tids =
     (tids, PollCb # (if poll_cb p then [] else detach_all int_ok tids), \<not> poll_cb p)"
  "trace_step A fd m poll_cb int_ok (W_err e) tids = (tids, [], e = ECHILD)"
  by (simp_all add: trace_step_def)

text \<open>A turn keeps the table well formed, whatever the kernel answers.\<close>

lemma on_stop_wf:
  assumes "tids_wf tids" and "find_or_add_tid tids r = (Some i, False, tids)"
  shows "tids_wf (fst (on_stop A fd m env r s i tids))"
proof -
  have key: "ts_tid (tids ! i) = r"
    using ttab.slot_after_add [OF assms] by (auto dest: tid_map_key)
  have put: "tids_wf (tids[i := v])" if "ts_tid v = r" for v
    using ttab.put_slot [OF assms that] by simp
  show ?thesis using assms(1) key by (simp add: on_stop_table put ttab.add_invar)
qed

lemma trace_step_wf:
  assumes "tids_wf tids"
  shows "tids_wf (fst (trace_step A fd m poll_cb int_ok ev tids))"
proof (cases ev)
  case (W_child r s env)
  show ?thesis unfolding W_child
    by (rule ttab.add_cases [OF assms, of r])
      (simp_all add: step_found step_full step_new ttab.del_invar on_stop_wf assms)
qed (simp_all add: step_other assms)

lemma trace_loop_wf:
  "tids_wf tids \<Longrightarrow> tids_wf (fst (trace_loop A fd m poll_cb int_ok evs tids))"
proof (induction evs arbitrary: tids)
  case Nil
  then show ?case by simp
next
  case (Cons ev evs)
  then have "tids_wf (fst (trace_step A fd m poll_cb int_ok ev tids))" by (intro trace_step_wf)
  with Cons.IH show ?case
    by (auto split: prod.split) (metis fst_conv)
qed

text \<open>
  A turn about another thread, or about none, leaves a tracked thread's state alone and reports
  nothing of it.
\<close>

lemma on_stop_others:
  assumes "tids_wf tids" and "find_or_add_tid tids r = (Some i, False, tids)"
    and "tid_map tids t = Some ts" and "r \<noteq> t"
  shows "tid_map (fst (on_stop A fd m env r s i tids)) t = Some ts"
    and "filter (is_write_of t) (snd (on_stop A fd m env r s i tids)) = []"
proof -
  have key: "ts_tid (tids ! i) = r"
    using ttab.slot_after_add [OF assms(1,2)] by (auto dest: tid_map_key)
  have put: "tid_map (tids[i := v]) t = Some ts" if "ts_tid v = r" for v
    using ttab.put_slot [OF assms(1,2) that] assms(3,4) by simp
  show "tid_map (fst (on_stop A fd m env r s i tids)) t = Some ts"
    using key assms by (simp add: on_stop_table put ttab.add_keeps)
  show "filter (is_write_of t) (snd (on_stop A fd m env r s i tids)) = []"
    using assms(4) by (simp add: on_stop_acts filter_other_write)
qed

lemma trace_step_others:
  assumes "tids_wf tids" and "tid_map tids t = Some ts" and "\<forall>s env. ev \<noteq> W_child t s env"
    and "trace_step A fd m poll_cb int_ok ev tids = (tids', acts, False)"
  shows "tid_map tids' t = Some ts \<and> filter (is_write_of t) acts = []"
proof (cases ev)
  case (W_child r s env)
  then have r: "r \<noteq> t" using assms(3) by simp
  show ?thesis
    by (rule ttab.add_cases [OF assms(1), of r])
      (use assms(2,4) r in \<open>auto simp: W_child step_found step_full step_new ttab.del_lookup assms(1)
        on_stop_others [OF assms(1) _ assms(2) r] split: if_split_asm\<close>)
qed (use assms in \<open>auto simp: step_other split: if_split_asm\<close>)

lemma trace_step_own:
  assumes "tids_wf tids" and "tid_map tids t = Some ts" and "\<not> WIFEXITED s" and "\<not> WIFSIGNALED s"
  shows "\<exists>tids' acts. trace_step A fd m poll_cb int_ok (W_child t s env) tids = (tids', acts, False) \<and>
    (if WIFSTOPPED s \<and> WSTOPSIG s = SYSCALL_STOP
     then tid_map tids' t = Some (if in_syscall ts then fst (on_exit A m env t ts) else on_enter A fd (regs_ans env) ts)
       \<and> acts = (if in_syscall ts then snd (on_exit A m env t ts) else []) @ [Resume t 0]
     else tid_map tids' t = Some ts \<and> acts = (if WIFSTOPPED s then [Resume t (resume_sig s)] else []))"
proof -
  obtain i where i: "find_or_add_tid tids t = (Some i, False, tids)" "tids ! i = ts"
    using ttab.add_found [OF assms(2)] by auto
  have key: "ts_tid ts = t" using assms(2) by (auto dest: tid_map_key)
  have put: "tid_map (tids[i := v]) t = Some v" if "ts_tid v = t" for v
    using ttab.put_slot [OF assms(1) i(1) that] by simp
  show ?thesis
    using assms i(2) key
    by (auto simp: step_found [OF i(1)] on_stop_table on_stop_acts put ttab.add_keeps resume_sig_def)
qed

lemma trace_loop_reports_from:
  assumes "tids_wf tids" and "tid_map tids t = Some ts" and "\<not> list_ex (ends_thread t) evs"
    and "trace_loop A fd m poll_cb int_ok evs tids = (tids', acts, False)"
  shows "filter (is_write_of t) acts = reports_from A fd m t ts (syscall_stops t evs)"
  using assms
proof (induction evs arbitrary: tids ts acts)
  case Nil
  then show ?case by (simp add: reports_from_def)
next
  case (Cons ev evs)
  obtain tids1 acts1 acts2 where step: "trace_step A fd m poll_cb int_ok ev tids = (tids1, acts1, False)"
    and rest: "trace_loop A fd m poll_cb int_ok evs tids1 = (tids', acts2, False)" and acts: "acts = acts1 @ acts2"
    using Cons.prems(4) by (auto split: prod.splits if_split_asm)
  have wf1: "tids_wf tids1" using trace_step_wf [OF Cons.prems(1), of A fd m poll_cb int_ok ev] step by simp
  have IH: "filter (is_write_of t) acts2 = reports_from A fd m t ts1 (syscall_stops t evs)"
    if "tid_map tids1 t = Some ts1" for ts1
    using Cons.IH [OF wf1 that _ rest] Cons.prems(3) by simp
  show ?case
  proof (cases "\<exists>s env. ev = W_child t s env")
    case False
    then have "syscall_stops t (ev # evs) = syscall_stops t evs" by (cases ev) auto
    then show ?thesis using trace_step_others [OF Cons.prems(1,2) _ step] False IH acts by auto
  next
    case True
    then obtain s env where ev: "ev = W_child t s env" by auto
    then have "\<not> WIFEXITED s" "\<not> WIFSIGNALED s" using Cons.prems(3) by auto
    from trace_step_own [OF Cons.prems(1,2) this, of A fd m poll_cb int_ok env] step ev
    have own: "if WIFSTOPPED s \<and> WSTOPSIG s = SYSCALL_STOP
     then tid_map tids1 t = Some (if in_syscall ts then fst (on_exit A m env t ts) else on_enter A fd (regs_ans env) ts)
       \<and> acts1 = (if in_syscall ts then snd (on_exit A m env t ts) else []) @ [Resume t 0]
     else tid_map tids1 t = Some ts \<and> acts1 = (if WIFSTOPPED s then [Resume t (resume_sig s)] else [])"
      by simp
    show ?thesis
    proof (cases "WIFSTOPPED s \<and> WSTOPSIG s = SYSCALL_STOP")
      case False
      then show ?thesis using own IH by (auto simp: ev acts)
    next
      case True
      then show ?thesis using own IH
        by (cases "in_syscall ts") (auto simp: ev acts filter_own_write reports_from_def
          on_exit_on_enter split: list.split)
    qed
  qed
qed


section \<open>Resuming and letting go\<close>

fun resumes :: "int \<Rightarrow> tact \<Rightarrow> bool" where
  "resumes r (Resume t sig) = (t = r)"
| "resumes r (Cont t) = (t = r)"
| "resumes r _ = False"

fun detaches :: "int \<Rightarrow> tact \<Rightarrow> bool" where
  "detaches r (Detach t) = (t = r)"
| "detaches r _ = False"

fun about :: "int \<Rightarrow> ('r, 'p) wait_ev \<Rightarrow> bool" where
  "about t (W_child r s env) = (r = t)"
| "about t _ = False"

fun stop_status :: "('r, 'p) wait_ev \<Rightarrow> 32 word" where
  "stop_status (W_child r s env) = s"
| "stop_status _ = 0"

lemma filter_on_exit [simp]:
  "filter (resumes r) (snd (on_exit A m env t ts)) = []"
  "filter (detaches r) (snd (on_exit A m env t ts)) = []"
  by (auto simp: filter_empty_conv dest!: on_exit_acts)

lemma find_or_add_outcomes:
  obtains (found) i where "find_or_add_tid tids r = (Some i, False, tids)"
  | (full) "find_or_add_tid tids r = (None, False, tids)"
  | (new) i tids' where "find_or_add_tid tids r = (Some i, True, tids')"
  by (cases "find_tid tids r"; cases "length tids \<ge> MAX_TRACKED_TIDS") (auto simp: find_or_add_tid_def)

text \<open>A turn that does not end the loop resumes exactly the thread that stopped.\<close>

lemma trace_step_resumes:
  assumes "trace_step A fd m poll_cb int_ok ev tids = (tids', acts, False)"
    and "about r ev \<longrightarrow> WIFSTOPPED (stop_status ev)"
  shows "length (filter (resumes r) acts) = (if about r ev then 1 else 0)"
proof (cases ev)
  case (W_child t s env)
  show ?thesis
    by (rule find_or_add_outcomes [of tids t])
      (use assms stopped_not_ended [of s] in \<open>auto simp: W_child step_found step_full step_new
        on_stop_acts split: if_split_asm\<close>)
qed (use assms in \<open>auto simp: step_other split: if_split_asm\<close>)

lemma trace_step_no_detach:
  "trace_step A fd m poll_cb int_ok ev tids = (tids', acts, False) \<Longrightarrow> filter (detaches r) acts = []"
proof (cases ev)
  case (W_child t s env)
  assume "trace_step A fd m poll_cb int_ok ev tids = (tids', acts, False)"
  then show ?thesis
    by (cases rule: find_or_add_outcomes [of tids t])
      (auto simp: W_child step_found step_full step_new on_stop_acts split: if_split_asm)
qed (auto simp: step_other split: if_split_asm)

lemma detach_all_once:
  assumes "distinct (map ts_tid tids)"
  shows "filter (detaches r) (detach_all int_ok tids) = (if r \<in> ts_tid ` set tids then [Detach r] else [])"
  using assms by (induction tids) (auto simp: detach_all_def)

text \<open>
  The turns that end the loop: the client is gone and every tracked thread is detached; no child
  is left (the kernel says so, or the table is empty) and nobody is.
\<close>

definition ends_loop :: "('p \<Rightarrow> bool) \<Rightarrow> ('r, 'p) wait_ev \<Rightarrow> tid_state_t list \<Rightarrow> bool" where
  "ends_loop poll_cb ev tids =
     (case ev of W_idle p \<Rightarrow> \<not> poll_cb p | W_err e \<Rightarrow> e = ECHILD
      | W_child r s env \<Rightarrow> (WIFEXITED s \<or> WIFSIGNALED s) \<and> tids = [])"

fun is_idle :: "('r, 'p) wait_ev \<Rightarrow> bool" where
  "is_idle (W_idle p) = True"
| "is_idle _ = False"

lemma trace_step_end:
  assumes "tids_wf tids" and "trace_step A fd m poll_cb int_ok ev tids = (tids', acts, True)"
  shows "ends_loop poll_cb ev tids'"
    and "filter (detaches r) acts = (if is_idle ev \<and> tid_map tids' r \<noteq> None then [Detach r] else [])"
proof -
  have "ends_loop poll_cb ev tids' \<and>
    filter (detaches r) acts = (if is_idle ev \<and> tid_map tids' r \<noteq> None then [Detach r] else [])"
  proof (cases ev)
    case (W_child t s env)
    show ?thesis
      by (rule find_or_add_outcomes [of tids t])
        (use assms in \<open>auto simp: W_child ends_loop_def step_found step_full step_new split: if_split_asm\<close>)
  next
    case (W_idle p)
    then show ?thesis using assms
      by (auto simp: ends_loop_def step_other detach_all_once tids_wf_def tid_map_None split: if_split_asm)
  qed (use assms in \<open>auto simp: ends_loop_def step_other\<close>)
  then show "ends_loop poll_cb ev tids'"
    and "filter (detaches r) acts = (if is_idle ev \<and> tid_map tids' r \<noteq> None then [Detach r] else [])" by blast+
qed

lemma trace_loop_cons:
  "trace_loop A fd m poll_cb int_ok (ev # evs) tids = (tids', acts, fin) \<longleftrightarrow>
   (\<exists>tids1 acts1 fin1. trace_step A fd m poll_cb int_ok ev tids = (tids1, acts1, fin1) \<and>
     (if fin1 then tids' = tids1 \<and> acts = acts1 \<and> fin
      else \<exists>acts2. trace_loop A fd m poll_cb int_ok evs tids1 = (tids', acts2, fin) \<and> acts = acts1 @ acts2))"
  by (auto split: prod.splits)

lemma trace_loop_resumes:
  assumes "trace_loop A fd m poll_cb int_ok evs tids = (tids', acts, False)"
    and "\<forall>ev \<in> set evs. about r ev \<longrightarrow> WIFSTOPPED (stop_status ev)"
  shows "length (filter (resumes r) acts) = length (filter (about r) evs)"
  using assms
proof (induction evs arbitrary: tids acts)
  case (Cons ev evs)
  then obtain tids1 acts1 acts2 where "trace_step A fd m poll_cb int_ok ev tids = (tids1, acts1, False)"
    and "trace_loop A fd m poll_cb int_ok evs tids1 = (tids', acts2, False)" and "acts = acts1 @ acts2"
    unfolding trace_loop_cons by (auto split: if_split_asm)
  with Cons trace_step_resumes [of A fd m poll_cb int_ok ev tids tids1 acts1 r] show ?case by auto
qed simp

text \<open>A loop that returns was ended by one of its events, after turns that went on.\<close>

lemma trace_loop_ended:
  assumes "trace_loop A fd m poll_cb int_ok evs tids = (tids', acts, True)" and "tids_wf tids"
  shows "\<exists>pre ev post tids1 acts1 acts2. evs = pre @ ev # post \<and> tids_wf tids1 \<and>
    trace_loop A fd m poll_cb int_ok pre tids = (tids1, acts1, False) \<and>
    trace_step A fd m poll_cb int_ok ev tids1 = (tids', acts2, True) \<and> acts = acts1 @ acts2"
  using assms
proof (induction evs arbitrary: tids acts)
  case (Cons ev evs)
  from Cons.prems(1) obtain tids1 acts1 fin1
    where step: "trace_step A fd m poll_cb int_ok ev tids = (tids1, acts1, fin1)"
    and rest: "if fin1 then tids' = tids1 \<and> acts = acts1
      else \<exists>acts2. trace_loop A fd m poll_cb int_ok evs tids1 = (tids', acts2, True) \<and> acts = acts1 @ acts2"
    unfolding trace_loop_cons by auto
  show ?case
  proof (cases fin1)
    case True
    then have "ev # evs = [] @ ev # evs \<and> tids_wf tids \<and> trace_loop A fd m poll_cb int_ok [] tids = (tids, [], False) \<and>
        trace_step A fd m poll_cb int_ok ev tids = (tids', acts, True) \<and> acts = [] @ acts"
      using step rest Cons.prems(2) by simp
    then show ?thesis by blast
  next
    case False
    have wf1: "tids_wf tids1" using trace_step_wf [OF Cons.prems(2), of A fd m poll_cb int_ok ev] step by simp
    obtain acts2 where "trace_loop A fd m poll_cb int_ok evs tids1 = (tids', acts2, True)" and acts: "acts = acts1 @ acts2"
      using False rest by auto
    from Cons.IH [OF this(1) wf1] obtain pre e post tids2 acts3 acts4 where ih: "evs = pre @ e # post" "tids_wf tids2"
      "trace_loop A fd m poll_cb int_ok pre tids1 = (tids2, acts3, False)"
      "trace_step A fd m poll_cb int_ok e tids2 = (tids', acts4, True)" "acts2 = acts3 @ acts4" by blast
    have "trace_loop A fd m poll_cb int_ok (ev # pre) tids = (tids2, acts1 @ acts3, False)"
      using step ih(3) False by simp
    moreover have "ev # evs = (ev # pre) @ e # post" "acts = (acts1 @ acts3) @ acts4" using ih acts by simp_all
    ultimately show ?thesis using ih(2,4) by blast
  qed
qed simp

lemma trace_loop_no_detach:
  "trace_loop A fd m poll_cb int_ok evs tids = (tids', acts, False) \<Longrightarrow> filter (detaches r) acts = []"
proof (induction evs arbitrary: tids acts)
  case (Cons ev evs)
  then obtain tids1 acts1 acts2 where "trace_step A fd m poll_cb int_ok ev tids = (tids1, acts1, False)"
    and "trace_loop A fd m poll_cb int_ok evs tids1 = (tids', acts2, False)" and "acts = acts1 @ acts2"
    unfolding trace_loop_cons by (auto split: if_split_asm)
  with Cons.IH trace_step_no_detach show ?case by auto
qed simp

text \<open>A tracked thread is resumed with the signals it stopped for.\<close>

lemma trace_step_others_resume:
  assumes "\<not> about t ev" and "trace_step A fd m poll_cb int_ok ev tids = (tids', acts, False)"
  shows "filter (resumes t) acts = []"
  using trace_step_resumes [OF assms(2), of t] assms(1) by simp

lemma about_iff: "about t ev \<longleftrightarrow> (\<exists>s env. ev = W_child t s env)"
  by (cases ev) auto

lemma trace_loop_signals:
  assumes "tids_wf tids" and "tid_map tids t = Some ts"
    and "trace_loop A fd m poll_cb int_ok evs tids = (tids', acts, False)"
    and "\<forall>ev \<in> set evs. about t ev \<longrightarrow> WIFSTOPPED (stop_status ev)"
  shows "filter (resumes t) acts = map (\<lambda>ev. Resume t (resume_sig (stop_status ev))) (filter (about t) evs)"
  using assms
proof (induction evs arbitrary: tids ts acts)
  case (Cons ev evs)
  then obtain tids1 acts1 acts2 where step: "trace_step A fd m poll_cb int_ok ev tids = (tids1, acts1, False)"
    and rest: "trace_loop A fd m poll_cb int_ok evs tids1 = (tids', acts2, False)" and acts: "acts = acts1 @ acts2"
    unfolding trace_loop_cons by (auto split: if_split_asm)
  have wf1: "tids_wf tids1" using trace_step_wf [OF Cons.prems(1), of A fd m poll_cb int_ok ev] step by simp
  have IH: "filter (resumes t) acts2 = map (\<lambda>ev. Resume t (resume_sig (stop_status ev))) (filter (about t) evs)"
    if "tid_map tids1 t = Some ts1" for ts1
    using Cons.IH [OF wf1 that rest] Cons.prems(4) by simp
  show ?case
  proof (cases "about t ev")
    case False
    then have "tid_map tids1 t = Some ts" using trace_step_others [OF Cons.prems(1,2) _ step]
      by (simp add: about_iff)
    then show ?thesis using trace_step_others_resume [OF False step] IH False by (simp add: acts)
  next
    case True
    then obtain s env where ev: "ev = W_child t s env" by (auto simp: about_iff)
    then have stop: "WIFSTOPPED s" using Cons.prems(4) by simp
    then have "\<not> WIFEXITED s" "\<not> WIFSIGNALED s" using stopped_not_ended by auto
    from trace_step_own [OF Cons.prems(1,2) this, of A fd m poll_cb int_ok env] step ev stop
    have "filter (resumes t) acts1 = [Resume t (resume_sig s)] \<and> tid_map tids1 t \<noteq> None"
      by (auto simp: resume_sig_def split: if_split_asm)
    then show ?thesis using IH by (auto simp: acts ev)
  qed
qed simp

section \<open>Bounds of what is reported\<close>

fun write_ok :: "nat \<Rightarrow> tact \<Rightarrow> bool" where
  "write_ok m (WriteCb t ret bs wv) = (length bs \<le> m \<and> (wv \<or> int (length bs) \<le> max 0 ret))"
| "write_ok m _ = True"

lemma on_exit_write_ok: "list_all (write_ok m) (snd (on_exit A m env t ts))"
  using length_captured_bytes [where m = m and ts = ts]
  by (cases "capturing ts"; cases "regs_ans env") (auto simp: on_exit_def)

lemma detach_all_write_ok: "list_all (write_ok m) (detach_all int_ok tids)"
  by (induction tids) (auto simp: detach_all_def)

lemma trace_step_write_ok: "list_all (write_ok m) (fst (snd (trace_step A fd m poll_cb int_ok ev tids)))"
proof (cases ev)
  case (W_child t s env)
  show ?thesis
    by (cases rule: find_or_add_outcomes [of tids t])
      (simp_all add: W_child step_found step_full step_new on_stop_acts on_exit_write_ok)
qed (simp_all add: step_other detach_all_write_ok)

lemma trace_loop_write_ok: "list_all (write_ok m) (fst (snd (trace_loop A fd m poll_cb int_ok evs tids)))"
proof (induction evs arbitrary: tids)
  case (Cons ev evs)
  then show ?case using trace_step_write_ok [of m A fd poll_cb int_ok ev tids]
    by (auto split: prod.split) (metis fst_conv snd_conv)
qed simp

lemma on_exit_not_attached: "AttachedCb \<notin> set (snd (on_exit A m env t ts))"
  by (auto dest: on_exit_acts)

lemma detach_all_not_attached: "AttachedCb \<notin> set (detach_all int_ok tids)"
  by (induction tids) (auto simp: detach_all_def)

lemma trace_step_not_attached: "AttachedCb \<notin> set (fst (snd (trace_step A fd m poll_cb int_ok ev tids)))"
proof (cases ev)
  case (W_child t s env)
  show ?thesis
    by (cases rule: find_or_add_outcomes [of tids t])
      (simp_all add: W_child step_found step_full step_new on_stop_acts on_exit_not_attached)
qed (simp_all add: step_other detach_all_not_attached)

lemma trace_loop_not_attached: "AttachedCb \<notin> set (fst (snd (trace_loop A fd m poll_cb int_ok evs tids)))"
proof (induction evs arbitrary: tids)
  case (Cons ev evs)
  then show ?case using trace_step_not_attached [of A fd m poll_cb int_ok ev tids]
    by (auto split: prod.split) (metis fst_conv snd_conv)
qed simp

section \<open>Attaching\<close>

fun is_callback :: "tact \<Rightarrow> bool" where
  "is_callback AttachedCb = True"
| "is_callback PollCb = True"
| "is_callback (WriteCb t ret bs wv) = True"
| "is_callback _ = False"

text \<open>
  One of the five attempts to seize the thread succeeds, and every one before it failed with
  \<open>EPERM\<close>, the error of a thread that another session has just let go.
\<close>

definition seized :: "attach_ans \<Rightarrow> bool" where
  "seized a = (\<exists>j < 5. seize_ans a j = 0 \<and> (\<forall>i < j. seize_ans a i = EPERM))"

text \<open>Everything that has to go well for a thread to be followed.\<close>

definition attach_ok :: "attach_ans \<Rightarrow> int \<Rightarrow> bool" where
  "attach_ok a t = (seized a \<and> interrupt_ok a \<and> wait_tid a = t \<and> WIFSTOPPED (wait_status a) \<and> resume_ok a)"

lemma seize_loop_spec:
  "fst (seize_loop ans t k n) \<longleftrightarrow> (\<exists>j < k. ans (n + j) = 0 \<and> (\<forall>i < j. ans (n + i) = EPERM))"
proof (induction k arbitrary: n)
  case (Suc k)
  have e: "EPERM \<noteq> 0" by (simp add: EPERM_def)
  have "(\<exists>j < Suc k. ans (n + j) = 0 \<and> (\<forall>i < j. ans (n + i) = EPERM)) \<longleftrightarrow>
      ans n = 0 \<or> ans n = EPERM \<and> (\<exists>j < k. ans (Suc n + j) = 0 \<and> (\<forall>i < j. ans (Suc n + i) = EPERM))"
    by (simp only: Ex_less_Suc2 All_less_Suc2) auto
  moreover have "fst (seize_loop ans t (Suc k) n) \<longleftrightarrow>
      ans n = 0 \<or> ans n = EPERM \<and> fst (seize_loop ans t k (Suc n))"
    using e by (simp split: prod.split)
  ultimately show ?case using Suc [of "Suc n"] by simp
qed simp

lemma seize_loop_seized: "fst (seize_loop (seize_ans a) t 5 0) \<longleftrightarrow> seized a"
  by (simp add: seize_loop_spec seized_def)

lemma seize_loop_acts: "set (snd (seize_loop ans t k n)) \<subseteq> {Seize t}"
  by (induction ans t k n rule: seize_loop.induct) (auto split: prod.split)

lemma seize_no_detach [simp]: "filter (detaches r) (snd (seize_loop ans t k n)) = []"
  using seize_loop_acts [of ans t k n] by (auto simp: filter_empty_conv)

lemma find_or_add_fresh:
  "t \<notin> ts_tid ` set tids \<Longrightarrow> length tids < MAX_TRACKED_TIDS \<Longrightarrow>
   find_or_add_tid tids t = (Some (length tids), True, tids @ [fresh_tid t])"
  by (simp add: find_or_add_tid_def find_tid_None [THEN iffD2])

lemma remove_tid_fresh:
  "t \<notin> ts_tid ` set tids \<Longrightarrow> remove_tid (tids @ [fresh_tid t]) t = tids"
proof -
  assume "t \<notin> ts_tid ` set tids"
  then have "find_tid (tids @ [fresh_tid t]) t = Some (length tids)" by (induction tids) auto
  then show ?thesis by (simp add: remove_tid_def)
qed

lemma attach_one_spec:
  assumes "t \<notin> ts_tid ` set tids" and "length tids < MAX_TRACKED_TIDS"
  shows "fst (attach_one a t tids) = tids @ (if attach_ok a t then [fresh_tid t] else [])"
    and "filter (detaches r) (snd (attach_one a t tids)) =
      (if seized a \<and> \<not> attach_ok a t \<and> r = t then [Detach t] else [])"
proof -
  obtain ok acts where sz: "seize_loop (seize_ans a) t 5 0 = (ok, acts)" by force
  then have ok: "ok = seized a" and quiet: "filter (detaches q) acts = []" for q
    using seize_loop_seized [of a t] seize_no_detach [of q "seize_ans a" t 5 0] by simp_all
  show "fst (attach_one a t tids) = tids @ (if attach_ok a t then [fresh_tid t] else [])"
    by (auto simp: attach_one_def attach_ok_def sz ok find_or_add_fresh [OF assms] remove_tid_fresh [OF assms(1)])
  show "filter (detaches r) (snd (attach_one a t tids)) =
      (if seized a \<and> \<not> attach_ok a t \<and> r = t then [Detach t] else [])"
    by (auto simp: attach_one_def attach_ok_def sz ok quiet find_or_add_fresh [OF assms])
qed

lemma attach_all_spec:
  assumes "distinct tidlist" and "set tidlist \<inter> ts_tid ` set tids = {}"
    and "length tidlist + length tids \<le> MAX_TRACKED_TIDS"
  shows "fst (attach_all ans tidlist tids) = tids @ map fresh_tid (filter (\<lambda>t. attach_ok (ans t) t) tidlist)"
    and "filter (detaches r) (snd (attach_all ans tidlist tids)) =
      map Detach (filter (\<lambda>t. seized (ans t) \<and> \<not> attach_ok (ans t) t \<and> t = r) tidlist)"
proof -
  have "fst (attach_all ans tidlist tids) = tids @ map fresh_tid (filter (\<lambda>t. attach_ok (ans t) t) tidlist) \<and>
    filter (detaches r) (snd (attach_all ans tidlist tids)) =
      map Detach (filter (\<lambda>t. seized (ans t) \<and> \<not> attach_ok (ans t) t \<and> t = r) tidlist)"
    using assms
  proof (induction tidlist arbitrary: tids)
    case (Cons t rest)
    have t: "t \<notin> ts_tid ` set tids" "length tids < MAX_TRACKED_TIDS" using Cons.prems by auto
    obtain tids1 acts1 where one: "attach_one (ans t) t tids = (tids1, acts1)" by force
    obtain tids2 acts2 where all: "attach_all ans rest tids1 = (tids2, acts2)" by force
    note spec = attach_one_spec [OF t, where a = "ans t", unfolded one fst_conv snd_conv]
    show ?case using Cons.IH [of tids1] Cons.prems all one by (auto simp: spec)
  qed simp
  then show "fst (attach_all ans tidlist tids) = tids @ map fresh_tid (filter (\<lambda>t. attach_ok (ans t) t) tidlist)"
    and "filter (detaches r) (snd (attach_all ans tidlist tids)) =
      map Detach (filter (\<lambda>t. seized (ans t) \<and> \<not> attach_ok (ans t) t \<and> t = r) tidlist)" by simp_all
qed

lemma attach_one_wf: "tids_wf tids \<Longrightarrow> tids_wf (fst (attach_one a t tids))"
  using ttab.add_invar [of tids t] ttab.del_invar
  by (auto simp: attach_one_def split: prod.split option.split) 

lemma attach_all_wf: "tids_wf tids \<Longrightarrow> tids_wf (fst (attach_all ans tidlist tids))"
proof (induction tidlist arbitrary: tids)
  case (Cons t rest)
  then show ?case using attach_one_wf [OF Cons.prems, of "ans t" t] by (auto split: prod.split) (metis fst_conv)
qed simp

lemma attach_one_quiet: "\<not> list_ex is_callback (snd (attach_one a t tids))"
  using seize_loop_acts [of "seize_ans a" t 5 0]
  by (auto simp: attach_one_def list_ex_iff split: prod.split option.split)

lemma attach_all_quiet: "\<not> list_ex is_callback (snd (attach_all ans tidlist tids))"
proof (induction tidlist arbitrary: tids)
  case (Cons t rest)
  then show ?case using attach_one_quiet [of "ans t" t tids] by (auto split: prod.split) (metis snd_conv)
qed simp

text \<open>A whole call on any architecture with the interface.\<close>

context syscall_abi
begin

lemma write_call_report:
  assumes "valid r" and "reg_syscall_nr A r \<in> {SYS_write A, SYS_pwrite64 A}" and "reg_arg1 A r = fd"
    and "regs_ans e = Some r" and "regs_ans x = Some (set_ret v r)"
    and "seg_at (mem_ans x) (reg_arg2 A r, length bs) bs" and "0 < sint v" and "sint v \<le> int (length bs)"
  shows "call_report A fd m t e x = [WriteCb t (sint v) (take (min (nat (sint v)) m) bs) False]"
proof -
  have ne: "reg_syscall_nr A r \<noteq> SYS_writev A" using assms(2) nr_distinct by auto
  let ?n = "min (nat (sint v)) m"
  have "read_remote (mem_ans x) (reg_arg2 A r) ?n = Some (take ?n bs) \<or> ?n = 0"
  proof (cases "?n = 0")
    case False
    then have "?n \<in> {1..length bs}" using assms(7,8) by auto
    then show ?thesis using assms(6) by (simp add: seg_at_def read_remote_def del: atLeastAtMost_iff)
  qed simp
  then have "call_bytes A m (mem_ans x) r (sint v) = take ?n bs"
    using ne assms(7) by (auto simp: call_bytes_def read_remote_def split: option.split)
  then show ?thesis
    using assms(1-5) ne by (auto simp: call_report_def writes_to_def ret_set_ret)
qed

lemma writev_call_report:
  assumes "valid r" and "reg_syscall_nr A r = SYS_writev A" and "reg_arg1 A r = fd"
    and "regs_ans e = Some r" and "regs_ans x = Some (set_ret v r)" and "0 < sint v"
  shows "call_report A fd m t e x =
    [WriteCb t (sint v) (capture_writev (mem_ans x) (reg_arg2 A r) (reg_arg3 A r) m) True]"
  using assms by (simp add: call_report_def writes_to_def call_bytes_def ret_set_ret)

end

section \<open>The session\<close>

lemma length_discover_loop: "length out \<le> n \<Longrightarrow> length (discover_loop n names out) \<le> n"
  by (induction names arbitrary: out) (auto split: prod.split)

lemma length_discover_tids: "discover_tids K w pid n = Some tidlist \<Longrightarrow> length tidlist \<le> n"
  by (auto simp: discover_tids_def length_discover_loop split: option.split_asm)

lemma tids_wf_Nil [simp]: "tids_wf []"
  by (simp add: tids_wf_def)

lemma attach_all_tracks:
  assumes "distinct tidlist" and "length tidlist \<le> MAX_TRACKED_TIDS" and "t \<in> set tidlist"
    and "attach_ok (ans t) t"
  shows "tid_map (fst (attach_all ans tidlist [])) t = Some (fresh_tid t)"
proof -
  have "fst (attach_all ans tidlist []) = map fresh_tid (filter (\<lambda>t. attach_ok (ans t) t) tidlist)"
    using attach_all_spec(1) [of tidlist "[]" ans] assms(1,2) by simp
  moreover have "tids_wf (fst (attach_all ans tidlist []))" by (rule attach_all_wf) simp
  ultimately show ?thesis using assms by (auto simp: tid_map_iff tids_wf_def)
qed

lemma trace_fd_cases:
  obtains (unlisted) err where "hsed_trace_fd A K w poll_cb S pid fd mc errlen = (Some (- 1), err, [])"
    and "discover_tids K w pid MAX_TRACKED_TIDS \<in> {None, Some []}"
  | (unattached) tidlist acts0 err where "discover_tids K w pid MAX_TRACKED_TIDS = Some tidlist" and "tidlist \<noteq> []"
    and "attach_all (attach_of S) tidlist [] = ([], acts0)"
    and "hsed_trace_fd A K w poll_cb S pid fd mc errlen = (Some (- 1), err, acts0)"
  | (nomem) tidlist tids acts0 err where "discover_tids K w pid MAX_TRACKED_TIDS = Some tidlist"
    and "attach_all (attach_of S) tidlist [] = (tids, acts0)" and "tids \<noteq> []" and "\<not> malloc_ok S"
    and "hsed_trace_fd A K w poll_cb S pid fd mc errlen =
      (Some (- 1), err, acts0 @ [AttachedCb] @ detach_all (int_ok_of S) tids)"
  | (looping) tidlist tids acts0 tids' acts1 fin where "discover_tids K w pid MAX_TRACKED_TIDS = Some tidlist"
    and "attach_all (attach_of S) tidlist [] = (tids, acts0)" and "tids \<noteq> []" and "malloc_ok S"
    and "trace_loop A fd (clamp_capture mc) poll_cb (int_ok_of S) (events S) tids = (tids', acts1, fin)"
    and "hsed_trace_fd A K w poll_cb S pid fd mc errlen =
      (if fin then Some 0 else None, [], acts0 @ [AttachedCb] @ acts1)"
proof (cases "discover_tids K w pid MAX_TRACKED_TIDS")
  case None
  then show ?thesis using unlisted by (simp add: hsed_trace_fd_def)
next
  case (Some tidlist)
  show ?thesis
  proof (cases "tidlist = []")
    case True
    then show ?thesis using Some unlisted by (simp add: hsed_trace_fd_def)
  next
    case False
    then obtain t rest where l: "tidlist = t # rest" by (cases tidlist) auto
    obtain tids acts0 where att: "attach_all (attach_of S) tidlist [] = (tids, acts0)" by force
    obtain tids' acts1 fin where
      loop: "trace_loop A fd (clamp_capture mc) poll_cb (int_ok_of S) (events S) tids = (tids', acts1, fin)"
      by (metis surj_pair)
    note run = hsed_trace_fd_def [of A K w poll_cb S pid fd mc errlen, unfolded Let_def Some l option.case list.case,
      folded l, unfolded att loop prod.case]
    show ?thesis
    proof (cases "tids = []")
      case True
      then show ?thesis using unattached [OF Some False] run att by simp
    next
      case tids: False
      show ?thesis
      proof (cases "malloc_ok S")
        case True
        then show ?thesis using looping [OF Some att tids True loop] run tids by simp
      next
        case False
        then show ?thesis using nomem [OF Some att tids False] run tids by simp
      qed
    qed
  qed
qed

lemma trace_fd_running:
  assumes "hsed_trace_fd A K w poll_cb S pid fd mc errlen = (None, err, acts)"
  obtains tidlist tids acts0 tids' acts1
  where "discover_tids K w pid MAX_TRACKED_TIDS = Some tidlist"
    and "attach_all (attach_of S) tidlist [] = (tids, acts0)"
    and "trace_loop A fd (clamp_capture mc) poll_cb (int_ok_of S) (events S) tids = (tids', acts1, False)"
    and "acts = acts0 @ [AttachedCb] @ acts1"
  by (rule trace_fd_cases [of A K w poll_cb S pid fd mc errlen])
    (use assms that in \<open>auto split: if_split_asm\<close>)

text \<open>
  C2. While a session runs, the reports of a thread it has attached to are exactly one report for
  each of the thread's completed writes to the descriptor (\<open>write\<close>, \<open>pwrite64\<close> or \<open>writev\<close>, decided
  at the enter stop), in order, however its events interleave with those of the other threads,
  with signals, clones, idle polls and thread exits.
\<close>

theorem hsed_trace_fd_reports:
  assumes "discover_tids K w pid MAX_TRACKED_TIDS = Some tidlist" and "distinct tidlist"
    and "t \<in> set tidlist" and "attach_ok (attach_of S t) t"
    and "\<not> list_ex (ends_thread t) (events S)"
    and "hsed_trace_fd A K w poll_cb S pid fd mc errlen = (None, err, acts)"
  shows "filter (is_write_of t) acts = call_reports A fd (clamp_capture mc) t (syscall_stops t (events S))"
proof -
  obtain tids acts0 tids' acts1 where att: "attach_all (attach_of S) tidlist [] = (tids, acts0)"
    and loop: "trace_loop A fd (clamp_capture mc) poll_cb (int_ok_of S) (events S) tids = (tids', acts1, False)"
    and acts: "acts = acts0 @ [AttachedCb] @ acts1"
    using trace_fd_running [OF assms(6)] assms(1) by (metis option.inject)
  have wf: "tids_wf tids" using attach_all_wf [of "[]" "attach_of S" tidlist] att by simp
  have map: "tid_map tids t = Some (fresh_tid t)"
    using attach_all_tracks [OF assms(2) length_discover_tids [OF assms(1)] assms(3), of "attach_of S"]
      assms(4) att by simp
  have "filter (is_write_of t) acts0 = []"
    using attach_all_quiet [of "attach_of S" tidlist "[]"] att
    by (auto simp: list_ex_iff filter_empty_conv elim!: is_write_of.elims)
  then show ?thesis
    using trace_loop_reports_from [OF wf map assms(5) loop]
    by (simp add: acts reports_from_def fresh_tid_def)
qed

section \<open>Which threads a session touches\<close>

text \<open>The threads an event names: the one it reports, and the new one of a clone.\<close>

fun named_by :: "('r, 'p) wait_ev \<Rightarrow> int set" where
  "named_by (W_child r s env) = insert r (case eventmsg_ans env of None \<Rightarrow> {} | Some msg \<Rightarrow> {c_int (uint msg)})"
| "named_by _ = {}"

definition targets :: "tact list \<Rightarrow> int set" where
  "targets acts = {t. \<exists>a \<in> set acts. req_target a = Some t}"

lemma targets_simps [simp]:
  "targets [] = {}" "targets (acts @ acts') = targets acts \<union> targets acts'"
  "targets (a # acts) = (case req_target a of None \<Rightarrow> {} | Some t \<Rightarrow> {t}) \<union> targets acts"
  by (auto simp: targets_def split: option.split)

definition keys :: "tid_state_t list \<Rightarrow> int set" where
  "keys tids = ts_tid ` set tids"

lemma keys_Nil [simp]: "keys [] = {}"
  by (simp add: keys_def)

lemma targets_detach_all: "targets (detach_all int_ok tids) = keys tids"
  by (induction tids) (auto simp: detach_all_def keys_def)

lemma targets_on_exit [simp]: "targets (snd (on_exit A m env t ts)) = {}"
  by (auto simp: targets_def dest!: on_exit_acts)

lemma find_or_add_keys: "keys (snd (snd (find_or_add_tid tids t))) \<subseteq> insert t (keys tids)"
  by (auto simp: find_or_add_tid_def keys_def split: option.split)

lemma remove_tid_keys: "tids_wf tids \<Longrightarrow> keys (remove_tid tids t) \<subseteq> keys tids"
  by (auto simp: set_remove_tid tids_wf_def keys_def)

lemma on_stop_keys:
  assumes "tids_wf tids" and "find_or_add_tid tids r = (Some i, False, tids)"
  shows "keys (fst (on_stop A fd m env r s i tids)) \<subseteq>
    named_by (W_child r s env) \<union> keys tids"
proof -
  have key: "ts_tid (tids ! i) = r" using ttab.slot_after_add [OF assms] by (auto dest: tid_map_key)
  have put: "keys (tids[i := v]) \<subseteq> insert r (keys tids)" if "ts_tid v = r" for v
    using set_update_subset_insert [of tids i v] that by (auto simp: keys_def)
  have "keys (tids[i := if in_syscall (tids ! i) then fst (on_exit A m env r (tids ! i))
      else on_enter A fd (regs_ans env) (tids ! i)]) \<subseteq> insert r (keys tids)" by (rule put) (simp add: key)
  then show ?thesis
    using find_or_add_keys [of tids] by (cases "eventmsg_ans env") (auto simp: on_stop_table simp del: on_exit_keys)
qed

lemma trace_step_targets:
  assumes "tids_wf tids" and "trace_step A fd m poll_cb int_ok ev tids = (tids', acts, fin)"
  shows "keys tids' \<union> targets acts \<subseteq> keys tids \<union> named_by ev"
proof (cases ev)
  case (W_child r s env)
  have r: "r \<in> named_by ev" by (simp add: W_child)
  show ?thesis
  proof (cases rule: ttab.add_cases [OF assms(1), of r])
    case (1 v i)
    then have "keys tids' \<subseteq> keys tids \<union> named_by ev" and "targets acts \<subseteq> {r}"
      using assms(2) on_stop_keys [OF assms(1) 1(2), of A fd m env s] remove_tid_keys [OF assms(1), of r]
      by (auto simp: W_child step_found on_stop_acts simp del: named_by.simps split: if_split_asm)
    then show ?thesis using r by blast
  next
    case 2
    then show ?thesis using assms(2) by (auto simp: W_child step_full)
  next
    case (3 i t')
    then have "keys t' \<subseteq> insert r (keys tids)" "keys (remove_tid t' r) \<subseteq> keys t'"
      using find_or_add_keys [of tids r] remove_tid_keys [of t' r] by auto
    then have "keys tids' \<subseteq> insert r (keys tids)" and "targets acts \<subseteq> {r}"
      using assms(2) 3(3) by (auto simp: W_child step_new split: if_split_asm)
    then show ?thesis using r by blast
  qed
qed (use assms(2) in \<open>auto simp: step_other targets_detach_all split: if_split_asm\<close>)

lemma trace_loop_targets:
  assumes "tids_wf tids" and "trace_loop A fd m poll_cb int_ok evs tids = (tids', acts, fin)"
  shows "targets acts \<subseteq> keys tids \<union> (\<Union>ev \<in> set evs. named_by ev)"
  using assms
proof (induction evs arbitrary: tids acts)
  case (Cons ev evs)
  from Cons.prems(2) obtain tids1 acts1 fin1
    where step: "trace_step A fd m poll_cb int_ok ev tids = (tids1, acts1, fin1)"
    and rest: "if fin1 then acts = acts1
      else \<exists>acts2. trace_loop A fd m poll_cb int_ok evs tids1 = (tids', acts2, fin) \<and> acts = acts1 @ acts2"
    unfolding trace_loop_cons by (auto split: if_split_asm)
  have wf1: "tids_wf tids1" using trace_step_wf [OF Cons.prems(1), of A fd m poll_cb int_ok ev] step by simp
  show ?case
  proof (cases fin1)
    case True
    then show ?thesis using rest trace_step_targets [OF Cons.prems(1) step] by auto
  next
    case False
    then obtain acts2 where "targets acts2 \<subseteq> keys tids1 \<union> (\<Union>ev \<in> set evs. named_by ev)" and "acts = acts1 @ acts2"
      using rest Cons.IH [OF wf1] by auto
    then show ?thesis using trace_step_targets [OF Cons.prems(1) step] by auto
  qed
qed simp

lemma attach_one_targets:
  "keys (fst (attach_one a t tids)) \<union> targets (snd (attach_one a t tids)) \<subseteq> insert t (keys tids)"
  if "tids_wf tids"
proof -
  obtain ok acts where sz: "seize_loop (seize_ans a) t 5 0 = (ok, acts)" by force
  then have "targets acts \<subseteq> {t}"
    using seize_loop_acts [of "seize_ans a" t 5 0] by (auto simp: targets_def)
  moreover obtain i w tids' where add: "find_or_add_tid tids t = (i, w, tids')" by (metis prod.exhaust)
  moreover from add have "keys tids' \<subseteq> insert t (keys tids)" using find_or_add_keys [of tids t] by simp
  moreover have "tids_wf tids'" using ttab.add_invar [OF that, of t] add by simp
  ultimately show ?thesis
    using remove_tid_keys [of tids' t] by (cases i) (auto simp: attach_one_def sz)
qed

lemma attach_all_targets:
  "tids_wf tids \<Longrightarrow> keys (fst (attach_all ans l tids)) \<union> targets (snd (attach_all ans l tids)) \<subseteq> set l \<union> keys tids"
proof (induction l arbitrary: tids)
  case (Cons t l)
  obtain tids1 acts1 where one: "attach_one (ans t) t tids = (tids1, acts1)" by force
  obtain tids2 acts2 where all: "attach_all ans l tids1 = (tids2, acts2)" by force
  have "tids_wf tids1" using attach_one_wf [OF Cons.prems, of "ans t" t] one by simp
  from Cons.IH [OF this] attach_one_targets [OF Cons.prems, of "ans t" t] one all show ?case by auto
qed simp

lemma hsed_trace_fd_targets:
  "targets (snd (snd (hsed_trace_fd A K w poll_cb S pid fd mc errlen))) \<subseteq>
   set (case discover_tids K w pid MAX_TRACKED_TIDS of None \<Rightarrow> [] | Some l \<Rightarrow> l) \<union> (\<Union>ev \<in> set (events S). named_by ev)"
proof (cases rule: trace_fd_cases [of A K w poll_cb S pid fd mc errlen])
  case (looping tidlist tids acts0 tids' acts1 fin)
  have "tids_wf tids" using attach_all_wf [of "[]" "attach_of S" tidlist] looping(2) by simp
  from trace_loop_targets [OF this looping(5)] attach_all_targets [of "[]" "attach_of S" tidlist] looping
  show ?thesis by auto
next
  case (nomem tidlist tids acts0 err)
  with attach_all_targets [of "[]" "attach_of S" tidlist] show ?thesis by (auto simp: targets_detach_all)
next
  case (unattached tidlist acts0 err)
  with attach_all_targets [of "[]" "attach_of S" tidlist] show ?thesis by auto
qed auto

section \<open>A small session\<close>

text \<open>Two threads of process 42; one writes three bytes to descriptor 3 and is then sent a signal.\<close>

definition demo_stop :: "u64 \<Rightarrow> x86_regs stop_env" where
  "demo_stop v = \<lparr>regs_ans = Some \<lparr>orig_rax = 1, rdi = 3, rsi = 4096, rdx = 3, rax = v\<rparr>, eventmsg_ans = None,
     mem_ans = (\<lambda>a n. if a = 4096 then Some (take n [104, 105, 10]) else None)\<rparr>"

definition demo_attach :: "int \<Rightarrow> attach_ans" where
  "demo_attach t = \<lparr>seize_ans = (\<lambda>n. 0), interrupt_ok = True, wait_tid = t, wait_status = 0x857F, resume_ok = True\<rparr>"

definition demo_events :: "(x86_regs, bool) wait_ev list" where
  "demo_events = [W_child 42 0x857F (demo_stop 1), W_child 43 0x857F (demo_stop 1), W_idle True,
     W_child 42 0x857F (demo_stop 3), W_child 42 0x0A7F (demo_stop 3)]"

definition demo_session :: "(x86_regs, bool) session" where
  "demo_session = \<lparr>attach_of = demo_attach, list_errno = 0, seize_errno = 0, malloc_ok = True,
     int_ok_of = (\<lambda>t. True), events = demo_events\<rparr>"

definition demo_iov_mem :: remote_mem where
  "demo_iov_mem a n = (if a = 64 then Some (iov_bytes [(4096, 2), (8192, 3)])
     else if a = 4096 then Some (take n [1, 2]) else Some (take n [3, 4, 5]))"

lemma demo_status:
  "WIFSTOPPED 0x857F" "\<not> WIFEXITED 0x857F" "\<not> WIFSIGNALED 0x857F" "WSTOPSIG 0x857F = SYSCALL_STOP"
  "WIFSTOPPED 0x0A7F" "\<not> WIFEXITED 0x0A7F" "\<not> WIFSIGNALED 0x0A7F" "WSTOPSIG 0x0A7F = 10" 
  by (simp_all add: WIFSTOPPED_def WIFEXITED_def WIFSIGNALED_def WSTOPSIG_def sig_consts)

lemma demo_discover: "discover_tids demo_kernel demo_w 42 MAX_TRACKED_TIDS = Some [42, 43]"
proof -
  have a: "show_int 42 = ''42''" by code_simp
  have "snprintf 64 (''/proc/'' @ show_int 42 @ ''/task'') = ''/proc/42/task''" by (simp add: a snprintf_def)
  then have "k_readdir demo_kernel demo_w (snprintf 64 (''/proc/'' @ show_int 42 @ ''/task''))
      = Some [''.'', ''..'', ''42'', ''43'']" by (simp add: demo_kernel_def)
  moreover have "discover_loop MAX_TRACKED_TIDS [''.'', ''..'', ''42'', ''43''] [] = [42, 43]" by code_simp
  ultimately show ?thesis by (simp add: discover_tids_def)
qed

lemma demo_attach_ok: "attach_ok (demo_attach t) t" "seized (demo_attach t)"
  by (auto simp: attach_ok_def seized_def demo_attach_def demo_status intro: exI [of _ 0])

lemma demo_tids: "fst (attach_all demo_attach [42, 43] []) = [fresh_tid 42, fresh_tid 43]"
  using attach_all_spec(1) [of "[42, 43]" "[]" demo_attach] by (simp add: demo_attach_ok MAX_TRACKED_TIDS_def)

lemma demo_find:
  "ts_tid a = 42 \<Longrightarrow> find_or_add_tid [a, b] 42 = (Some 0, False, [a, b])"
  "ts_tid a = 42 \<Longrightarrow> ts_tid b = 43 \<Longrightarrow> find_or_add_tid [a, b] 43 = (Some 1, False, [a, b])"
  by (simp_all add: find_or_add_tid_def)

lemma demo_wf: "tids_wf [fresh_tid 42, fresh_tid 43]" "tid_map [fresh_tid 42, fresh_tid 43] 42 = Some (fresh_tid 42)"
  by (simp_all add: tids_wf_def MAX_TRACKED_TIDS_def tid_map_def)

text \<open>The loop is still running after the events of the example, since both threads live and nobody asked to stop.\<close>

lemma demo_loop:
  "\<exists>tids acts. trace_loop x86_64 3 m id (\<lambda>t. True) demo_events [fresh_tid 42, fresh_tid 43] = (tids, acts, False)"
  by (simp add: demo_events_def trace_step_def demo_find demo_status on_stop_def on_exit_def sig_consts Let_def split: prod.split)

lemma demo_trace:
  "\<exists>acts. hsed_trace_fd x86_64 demo_kernel demo_w id demo_session 42 3 2 256 = (None, [], acts)"
proof -
  obtain acts0 where a: "attach_all demo_attach [42, 43] [] = ([fresh_tid 42, fresh_tid 43], acts0)"
    using demo_tids by (metis prod.collapse)
  obtain tids acts where "trace_loop x86_64 3 (clamp_capture 2) id (\<lambda>t. True) demo_events [fresh_tid 42, fresh_tid 43] = (tids, acts, False)"
    using demo_loop by blast
  with a show ?thesis by (simp add: hsed_trace_fd_def demo_discover demo_session_def)
qed

lemma demo_report:
  "call_reports x86_64 3 2 42 (syscall_stops 42 demo_events) = [WriteCb 42 3 [104, 105] False]"
  by (simp add: demo_events_def demo_status sig_consts call_report_def demo_stop_def writes_to_def x86_64_def
    call_bytes_def read_remote_def)

lemma demo_trace_writes:
  "\<exists>acts. hsed_trace_fd x86_64 demo_kernel demo_w id demo_session 42 3 2 256 = (None, [], acts) \<and>
     WriteCb 42 3 [104, 105] False \<in> set acts"
proof -
  obtain acts0 where a: "attach_all demo_attach [42, 43] [] = ([fresh_tid 42, fresh_tid 43], acts0)"
    using demo_tids by (metis prod.collapse)
  obtain tids acts where l: "trace_loop x86_64 3 (clamp_capture 2) id (\<lambda>t. True) demo_events [fresh_tid 42, fresh_tid 43] = (tids, acts, False)"
    using demo_loop by blast
  have "\<not> list_ex (ends_thread 42) demo_events" by (simp add: demo_events_def demo_status)
  from trace_loop_reports_from [OF demo_wf this l]
  have "filter (is_write_of 42) acts = [WriteCb 42 3 [104, 105] False]"
    using demo_report by (simp add: reports_from_def fresh_tid_def clamp_capture_def MAX_CAPTURE_HARD_LIMIT_def)
  then have "WriteCb 42 3 [104, 105] False \<in> set (filter (is_write_of 42) acts)" by simp
  then have "WriteCb 42 3 [104, 105] False \<in> set acts" by simp
  with a l show ?thesis by (simp add: hsed_trace_fd_def demo_discover demo_session_def del: attach_all.simps)
qed

theorem hsed_trace_fd_reports_witness:
  "\<exists>acts. hsed_trace_fd x86_64 demo_kernel demo_w id demo_session 42 3 2 256 = (None, [], acts) \<and>
     filter (is_write_of 42) acts = [WriteCb 42 3 [104, 105] False]"
proof -
  obtain acts where run: "hsed_trace_fd x86_64 demo_kernel demo_w id demo_session 42 3 2 256 = (None, [], acts)"
    using demo_trace by blast
  have "filter (is_write_of 42) acts = call_reports x86_64 3 (clamp_capture 2) 42 (syscall_stops 42 (events demo_session))"
    using run demo_discover
    by (intro hsed_trace_fd_reports [where tidlist = "[42, 43]"])
      (auto simp: demo_session_def demo_attach_ok demo_events_def demo_status)
  with run demo_report show ?thesis by (simp add: demo_session_def clamp_capture_def MAX_CAPTURE_HARD_LIMIT_def)
qed

section \<open>Properties of a session\<close>

text \<open>
  C16. The table of tracked threads is a map from thread ids with room for \<open>MAX_TRACKED_TIDS\<close>
  entries: \<open>find_or_add_tid\<close> adds a fresh state exactly when the thread is unknown and there is
  room, \<open>remove_tid\<close> (which moves the last slot into the hole) deletes exactly that thread, and
  both keep the slots distinct and within the array.
\<close>

theorem tid_table_refines_map:
  assumes "tids_wf tids"
  shows "tid_map (snd (snd (find_or_add_tid tids t))) =
      (if tid_map tids t = None \<and> card (dom (tid_map tids)) < MAX_TRACKED_TIDS
       then (tid_map tids)(t \<mapsto> fresh_tid t) else tid_map tids) \<and>
    tid_map (remove_tid tids t) = (tid_map tids)(t := None) \<and>
    tids_wf (snd (snd (find_or_add_tid tids t))) \<and> tids_wf (remove_tid tids t)"
proof -
  have "tid_map (snd (snd (find_or_add_tid tids t))) =
      (if tid_map tids t = None \<and> card (dom (tid_map tids)) < MAX_TRACKED_TIDS
       then (tid_map tids)(t \<mapsto> fresh_tid t) else tid_map tids)"
    by (rule ttab.add_cases [OF assms, of t]) simp_all
  then show ?thesis using assms ttab.del_lookup ttab.add_invar ttab.del_invar by blast
qed

theorem tid_table_refines_map_witness:
  "tids_wf [fresh_tid 42, fresh_tid 43, fresh_tid 44] \<and>
   tid_map (remove_tid [fresh_tid 42, fresh_tid 43, fresh_tid 44] 42) 44 = Some (fresh_tid 44) \<and>
   tid_map (snd (snd (find_or_add_tid [fresh_tid 42, fresh_tid 43, fresh_tid 44] 45))) 45 = Some (fresh_tid 45)"
proof -
  have wf: "tids_wf [fresh_tid 42, fresh_tid 43, fresh_tid 44]" by (simp add: tids_wf_def MAX_TRACKED_TIDS_def)
  then have "card (dom (tid_map [fresh_tid 42, fresh_tid 43, fresh_tid 44])) < MAX_TRACKED_TIDS"
    by (simp add: card_dom_tid_map MAX_TRACKED_TIDS_def)
  then show ?thesis
    using wf by (simp add: tid_table_refines_map [OF wf]) (simp add: tid_map_def)
qed

text \<open>
  C17. Whatever threads are found, whatever the kernel answers while they are attached and
  whatever events follow, the table never holds a thread twice and never grows past the array.
\<close>

theorem trace_table_invariant:
  "tids_wf (fst (trace_loop A fd m poll_cb int_ok evs (fst (attach_all ans tidlist []))))"
  by (intro trace_loop_wf attach_all_wf tids_wf_Nil)

text \<open>
  C13. No thread is left stopped: while the loop runs, a thread that reported \<open>n\<close> stops is
  resumed exactly \<open>n\<close> times, whether it is tracked, new, or beyond the capacity of the table.
\<close>

theorem trace_loop_resumes_every_stop:
  assumes "trace_loop A fd m poll_cb int_ok evs tids = (tids', acts, False)"
    and "\<forall>ev \<in> set evs. about r ev \<longrightarrow> WIFSTOPPED (stop_status ev)"
  shows "length (filter (resumes r) acts) = length (filter (about r) evs)"
  using assms by (rule trace_loop_resumes)

theorem trace_loop_resumes_every_stop_witness:
  "\<exists>tids acts. trace_loop x86_64 3 2 id (\<lambda>t. True) demo_events [fresh_tid 42, fresh_tid 43] = (tids, acts, False) \<and>
     length (filter (resumes 42) acts) = 3"
proof -
  obtain tids acts where run: "trace_loop x86_64 3 2 id (\<lambda>t. True) demo_events [fresh_tid 42, fresh_tid 43] = (tids, acts, False)"
    using demo_loop by blast
  have "length (filter (resumes 42) acts) = length (filter (about 42) demo_events)"
    by (rule trace_loop_resumes_every_stop [OF run]) (simp add: demo_events_def demo_status)
  with run show ?thesis by (simp add: demo_events_def)
qed

text \<open>
  C14. Signals other than \<open>SIGTRAP\<close> and \<open>SIGSTOP\<close> get through: every stop of a tracked thread is
  answered, in order, by exactly one \<open>PTRACE_SYSCALL\<close>, which delivers the signal the thread stopped
  for. System-call stops and all stops with \<open>SIGTRAP\<close> or \<open>SIGSTOP\<close> are resumed without a signal,
  also where the thread was really sent that signal.
\<close>

theorem trace_loop_passes_signals:
  assumes "tids_wf tids" and "tid_map tids t = Some ts"
    and "trace_loop A fd m poll_cb int_ok evs tids = (tids', acts, False)"
    and "\<forall>ev \<in> set evs. about t ev \<longrightarrow> WIFSTOPPED (stop_status ev)"
  shows "filter (resumes t) acts = map (\<lambda>ev. Resume t (resume_sig (stop_status ev))) (filter (about t) evs)"
  using assms by (rule trace_loop_signals)

theorem trace_loop_passes_signals_witness:
  "\<exists>tids acts. trace_loop x86_64 3 2 id (\<lambda>t. True) demo_events [fresh_tid 42, fresh_tid 43] = (tids, acts, False) \<and>
     filter (resumes 42) acts = [Resume 42 0, Resume 42 0, Resume 42 10]"
proof -
  obtain tids acts where run: "trace_loop x86_64 3 2 id (\<lambda>t. True) demo_events [fresh_tid 42, fresh_tid 43] = (tids, acts, False)"
    using demo_loop by blast
  have "filter (resumes 42) acts = map (\<lambda>ev. Resume 42 (resume_sig (stop_status ev))) (filter (about 42) demo_events)"
    by (rule trace_loop_passes_signals [OF demo_wf run]) (simp add: demo_events_def demo_status)
  with run show ?thesis by (simp add: demo_events_def resume_sig_def demo_status sig_consts)
qed

text \<open>
  C15. How the loop returns. Some event ends it: an idle poll after which the client turns out to
  be gone, the end of the last tracked thread, or the kernel's answer that there is no child. In
  the first case every thread in the table has been detached, exactly once, and no other thread
  has; in the other two nothing is detached, the table being empty or the children gone.
\<close>

theorem trace_loop_returns:
  assumes "tids_wf tids" and "trace_loop A fd m poll_cb int_ok evs tids = (tids', acts, True)"
  shows "\<exists>pre ev post. evs = pre @ ev # post \<and> ends_loop poll_cb ev tids' \<and>
    (\<forall>t. filter (detaches t) acts = (if is_idle ev \<and> tid_map tids' t \<noteq> None then [Detach t] else []))"
proof -
  obtain pre ev post tids1 acts1 acts2 where evs: "evs = pre @ ev # post" and wf: "tids_wf tids1"
    and loop: "trace_loop A fd m poll_cb int_ok pre tids = (tids1, acts1, False)"
    and step: "trace_step A fd m poll_cb int_ok ev tids1 = (tids', acts2, True)" and acts: "acts = acts1 @ acts2"
    using trace_loop_ended [OF assms(2,1)] by blast
  show ?thesis
    using evs trace_step_end [OF wf step] trace_loop_no_detach [OF loop] acts by auto
qed

theorem trace_loop_returns_witness:
  "\<exists>tids acts. trace_loop x86_64 3 2 id (\<lambda>t. True) [W_idle True, W_idle False] [fresh_tid 42, fresh_tid 43] = (tids, acts, True)
     \<and> filter (detaches 43) acts = [Detach 43]"
proof -
  let ?T = "[fresh_tid 42, fresh_tid 43]" and ?E = "[W_idle True, W_idle False] :: (x86_regs, bool) wait_ev list"
  obtain acts where run: "trace_loop x86_64 3 2 id (\<lambda>t. True) ?E ?T = (?T, acts, True)"
    by (simp add: step_other)
  from trace_loop_returns [OF demo_wf(1) run] obtain pre ev post
    where ev: "?E = pre @ ev # post" "ends_loop id ev ?T"
    and det: "\<forall>t. filter (detaches t) acts = (if is_idle ev \<and> tid_map ?T t \<noteq> None then [Detach t] else [])" by blast
  have "ev \<in> set ?E" unfolding ev(1) by simp
  then have "is_idle ev" by auto
  then have "filter (detaches 43) acts = [Detach 43]" using det by (simp add: tid_map_def)
  with run show ?thesis by blast
qed

text \<open>
  C23. Attaching: of the threads listed, exactly those for which every request succeeded are
  tracked, each in its initial state and in the order listed; every other thread that had been
  seized is detached again, once, and no tracked thread is.
\<close>

theorem attach_all_tracks_or_detaches:
  assumes "distinct tidlist" and "length tidlist \<le> MAX_TRACKED_TIDS"
  shows "fst (attach_all ans tidlist []) = map fresh_tid (filter (\<lambda>t. attach_ok (ans t) t) tidlist) \<and>
    filter (detaches t) (snd (attach_all ans tidlist [])) =
      map Detach (filter (\<lambda>r. seized (ans r) \<and> \<not> attach_ok (ans r) r \<and> r = t) tidlist)"
  using attach_all_spec [of tidlist "[]"] assms by simp

theorem attach_all_tracks_or_detaches_witness:
  "fst (attach_all (\<lambda>t. demo_attach 42) [42, 43] []) = [fresh_tid 42] \<and>
   filter (detaches 43) (snd (attach_all (\<lambda>t. demo_attach 42) [42, 43] [])) = [Detach 43]"
proof -
  have "\<not> attach_ok (demo_attach 42) 43" by (simp add: attach_ok_def demo_attach_def)
  then show ?thesis
    using attach_all_tracks_or_detaches [of "[42, 43]" "\<lambda>t. demo_attach 42" 43]
    by (simp add: demo_attach_ok MAX_TRACKED_TIDS_def del: attach_all.simps)
qed

text \<open>
  C18. The capture buffer is never exceeded: every report carries at most \<open>max_capture\<close> bytes,
  that is between 1 and 65536 after clamping, and for \<open>write\<close> and \<open>pwrite64\<close> never more than the
  call returned.
\<close>

theorem hsed_trace_fd_capture_bounds:
  assumes "WriteCb t ret bs wv \<in> set (snd (snd (hsed_trace_fd A K w poll_cb S pid fd mc errlen)))"
  shows "length bs \<le> clamp_capture mc \<and> clamp_capture mc \<in> {1..65536} \<and>
    (wv \<or> int (length bs) \<le> max 0 ret)"
proof -
  have att: "WriteCb t ret bs wv \<notin> set acts0" if "attach_all (attach_of S) l [] = (tids, acts0)" for l tids acts0
    using attach_all_quiet [of "attach_of S" l "[]"] that by (auto simp: list_ex_iff)
  have det: "WriteCb t ret bs wv \<notin> set (detach_all (int_ok_of S) tids)" for tids
    by (induction tids) (auto simp: detach_all_def)
  have "write_ok (clamp_capture mc) (WriteCb t ret bs wv)"
  proof (cases rule: trace_fd_cases [of A K w poll_cb S pid fd mc errlen])
    case (looping tidlist tids acts0 tids' acts1 fin)
    then have "WriteCb t ret bs wv \<in> set acts1" using assms att by auto
    then show ?thesis
      using trace_loop_write_ok [of "clamp_capture mc" A fd poll_cb "int_ok_of S" "events S" tids] looping(5)
      by (auto simp: list_all_iff)
  qed (use assms att det in auto)
  moreover have "clamp_capture mc \<in> {1..65536}"
    by (auto simp: clamp_capture_def MAX_CAPTURE_HARD_LIMIT_def Let_def)
  ultimately show ?thesis by simp
qed

theorem hsed_trace_fd_capture_bounds_witness:
  "\<exists>acts. hsed_trace_fd x86_64 demo_kernel demo_w id demo_session 42 3 2 256 = (None, [], acts) \<and>
     WriteCb 42 3 [104, 105] False \<in> set acts \<and> length [104 :: byte, 105] \<le> clamp_capture 2"
proof -
  obtain acts where run: "hsed_trace_fd x86_64 demo_kernel demo_w id demo_session 42 3 2 256 = (None, [], acts)"
    and "WriteCb 42 3 [104, 105] False \<in> set acts" using demo_trace_writes by blast
  with hsed_trace_fd_capture_bounds [of 42 3 "[104, 105]" False x86_64 demo_kernel demo_w id demo_session 42 3 2 256]
  show ?thesis by simp
qed

text \<open>
  C26. The attached callback tells the truth: it is made at most once, only when at least one
  thread is really being traced, and before any report; without it the result is \<open>-1\<close> and no
  write was reported.
\<close>

theorem hsed_trace_fd_attached_callback:
  assumes "hsed_trace_fd A K w poll_cb S pid fd mc errlen = (res, err, acts)"
  shows "(\<not> list_ex is_callback acts \<and> res = Some (- 1)) \<or>
    (\<exists>tidlist tids acts0 acts1. discover_tids K w pid MAX_TRACKED_TIDS = Some tidlist \<and>
      attach_all (attach_of S) tidlist [] = (tids, acts0) \<and> tids \<noteq> [] \<and>
      acts = acts0 @ AttachedCb # acts1 \<and> \<not> list_ex is_callback acts0 \<and> AttachedCb \<notin> set acts1)"
proof (cases rule: trace_fd_cases [of A K w poll_cb S pid fd mc errlen])
  case (looping tidlist tids acts0 tids' acts1 fin)
  have "AttachedCb \<notin> set acts1"
    using trace_loop_not_attached [of A fd "clamp_capture mc" poll_cb "int_ok_of S" "events S" tids] looping(5) by simp
  then show ?thesis using looping assms attach_all_quiet [of "attach_of S" tidlist "[]"] by auto
next
  case (nomem tidlist tids acts0 err)
  then show ?thesis
    using assms attach_all_quiet [of "attach_of S" tidlist "[]"] detach_all_not_attached by auto
next
  case (unattached tidlist acts0 err)
  then show ?thesis using assms attach_all_quiet [of "attach_of S" tidlist "[]"] by auto
qed (use assms in auto)

theorem hsed_trace_fd_attached_callback_witness:
  "\<exists>acts. hsed_trace_fd x86_64 demo_kernel demo_w id demo_session 42 3 2 256 = (None, [], acts) \<and>
     AttachedCb \<in> set acts"
proof -
  obtain acts where run: "hsed_trace_fd x86_64 demo_kernel demo_w id demo_session 42 3 2 256 = (None, [], acts)"
    using demo_trace by blast
  with hsed_trace_fd_attached_callback [OF run] show ?thesis by auto
qed

text \<open>
  C25. The preview of a \<open>writev\<close>: when the array of segments and the segments can be read, the
  captured bytes are the first \<open>max_capture\<close> bytes of the concatenation of the first 16 segments.
\<close>

theorem capture_writev_concatenates:
  assumes "0 < length segs" and "length segs < 2 ^ 64" and "\<forall>s \<in> set segs. snd s < 2 ^ 64"
    and "rm iov (16 * length (take 16 segs)) = Some (iov_bytes (take 16 segs))"
    and "list_all2 (seg_at rm) (take 16 segs) datas"
  shows "capture_writev rm iov (of_nat (length segs)) m = take m (concat datas)"
  using assms by (rule capture_writev_reads)

theorem capture_writev_concatenates_witness:
  "capture_writev demo_iov_mem 64 2 4 = [1, 2, 3, 4]"
proof -
  have "capture_writev demo_iov_mem 64 (of_nat (length [(4096 :: u64, 2 :: nat), (8192, 3)])) 4
      = take 4 (concat [[1, 2], [3, 4, 5]])"
    by (rule capture_writev_concatenates) (simp_all add: demo_iov_mem_def seg_at_def)
  then show ?thesis by simp
qed

text \<open>
  C24. On both supported architectures a completed write to the watched descriptor is reported,
  with the value the call returned: for \<open>write\<close> and \<open>pwrite64\<close> with the bytes it wrote (those at the
  address in the second argument register, \<open>rsi\<close> or \<open>x1\<close>), cut to the capture limit, and for
  \<open>writev\<close> with the preview of the segments its second and third argument registers name. The exit
  stop no longer shows the descriptor on aarch64, and on x86-64 shows the result in \<open>rax\<close>.
\<close>

theorem write_call_reported:
  fixes e :: "x86_regs stop_env" and d :: "aarch64_regs stop_env"
  assumes "orig_rax r \<in> {1, 18, 20}" and "sint (rdi r) = fd"
    and "regs_ans e = Some r" and "regs_ans x = Some (r\<lparr>rax := v\<rparr>)"
    and "seg_at (mem_ans x) (rsi r, length bs) bs"
    and "xregs q ! 8 \<in> {64, 68, 66}" and "sint (xregs q ! 0) = fd" and "length (xregs q) = 31"
    and "regs_ans d = Some q" and "regs_ans y = Some (q\<lparr>xregs := (xregs q)[0 := v]\<rparr>)"
    and "seg_at (mem_ans y) (xregs q ! 1, length bs) bs"
    and "0 < sint v" and "sint v \<le> int (length bs)"
  shows "snd (on_exit x86_64 m x t (on_enter x86_64 fd (regs_ans e) ts)) =
      [WriteCb t (sint v) (if orig_rax r = 20 then capture_writev (mem_ans x) (rsi r) (rdx r) m
         else take (min (nat (sint v)) m) bs) (orig_rax r = 20)] \<and>
    snd (on_exit aarch64 m y t (on_enter aarch64 fd (regs_ans d) ts)) =
      [WriteCb t (sint v) (if xregs q ! 8 = 66 then capture_writev (mem_ans y) (xregs q ! 1) (xregs q ! 2) m
         else take (min (nat (sint v)) m) bs) (xregs q ! 8 = 66)]"
proof
  show "snd (on_exit x86_64 m x t (on_enter x86_64 fd (regs_ans e) ts)) =
      [WriteCb t (sint v) (if orig_rax r = 20 then capture_writev (mem_ans x) (rsi r) (rdx r) m
         else take (min (nat (sint v)) m) bs) (orig_rax r = 20)]"
    unfolding on_exit_on_enter
    using x86.write_call_report [of r fd e x v bs m t] x86.writev_call_report [of r fd e x v m t] assms
    by (auto simp: x86_64_def x86_set_ret_def)
  show "snd (on_exit aarch64 m y t (on_enter aarch64 fd (regs_ans d) ts)) =
      [WriteCb t (sint v) (if xregs q ! 8 = 66 then capture_writev (mem_ans y) (xregs q ! 1) (xregs q ! 2) m
         else take (min (nat (sint v)) m) bs) (xregs q ! 8 = 66)]"
    unfolding on_exit_on_enter
    using arm.write_call_report [of q fd d y v bs m t] arm.writev_call_report [of q fd d y v m t] assms
    by (auto simp: aarch64_def aarch64_set_ret_def)
qed

theorem write_call_reported_witness:
  "snd (on_exit x86_64 2 (demo_stop 3) 42 (on_enter x86_64 3 (regs_ans (demo_stop 1)) (fresh_tid 42))) =
     [WriteCb 42 3 [104, 105] False] \<and>
   snd (on_exit aarch64 2 \<lparr>regs_ans = Some \<lparr>xregs = [3, 4096, 3, 0, 0, 0, 0, 0, 64] @ replicate 22 0\<rparr>,
       eventmsg_ans = None, mem_ans = mem_ans (demo_stop 1)\<rparr> 42
     (on_enter aarch64 3 (Some \<lparr>xregs = [3, 4096, 3, 0, 0, 0, 0, 0, 64] @ replicate 22 0\<rparr>) (fresh_tid 42))) =
     [WriteCb 42 3 [104, 105] False]"
proof -
  define r where "r = \<lparr>orig_rax = 1, rdi = 3, rsi = 4096, rdx = 3, rax = (1 :: u64)\<rparr>"
  define q where "q = \<lparr>xregs = [3, 4096, 3, 0, 0, 0, 0, 0, 64] @ replicate 22 (0 :: u64)\<rparr>"
  define d where "d = \<lparr>regs_ans = Some q, eventmsg_ans = None, mem_ans = mem_ans (demo_stop 1)\<rparr>"
  have "snd (on_exit x86_64 2 (demo_stop 3) 42 (on_enter x86_64 3 (regs_ans (demo_stop 1)) (fresh_tid 42))) =
      [WriteCb 42 (sint (3 :: u64)) (if orig_rax r = 20 then capture_writev (mem_ans (demo_stop 3)) (rsi r) (rdx r) 2
         else take (min (nat (sint (3 :: u64))) 2) [104, 105, 10]) (orig_rax r = 20)] \<and>
    snd (on_exit aarch64 2 d 42 (on_enter aarch64 3 (regs_ans d) (fresh_tid 42))) =
      [WriteCb 42 (sint (3 :: u64)) (if xregs q ! 8 = 66 then capture_writev (mem_ans d) (xregs q ! 1) (xregs q ! 2) 2
         else take (min (nat (sint (3 :: u64))) 2) [104, 105, 10]) (xregs q ! 8 = 66)]"
    by (rule write_call_reported) (simp_all add: r_def q_def d_def demo_stop_def seg_at_def)
  then show ?thesis by (simp add: r_def q_def d_def)
qed

end
