(* ===== verification/Hsed_Server.thy ===== *)
theory Hsed_Server
  imports Hsed_Util Hsed_Base64 Hsed_Protocol Hsed_Reclaim Hsed_TraceLoop
begin

text \<open>
  \<open>server.c\<close>: reading request lines, the command handlers, the streaming callbacks, the dispatch
  loop of a connection and the accept loop. A connection's state holds the kernel state it acts
  on, its socket, what \<open>recv\<close> still answers and the kernel's answers to the tracing sessions it
  may start. \<open>None\<close> is a call that has not returned: it still waits for the peer.
\<close>

section \<open>Reading a line\<close>

datatype recv_ans = RecvByte char | RecvEOF | RecvIntr | RecvErr

text \<open>
  The loop of \<open>recv_line\<close>; \<open>got\<close> are the bytes stored in the buffer. The result is the line
  (\<open>None\<close> for the return value -1) and the answers not yet used.
\<close>

fun recv_loop :: "nat \<Rightarrow> recv_ans list \<Rightarrow> string \<Rightarrow> (string option \<times> recv_ans list) option" where
  "recv_loop bufsize [] got = None"
| "recv_loop bufsize (RecvEOF # as) got = Some (None, as)"
| "recv_loop bufsize (RecvIntr # as) got = recv_loop bufsize as got"
| "recv_loop bufsize (RecvErr # as) got = Some (None, as)"
| "recv_loop bufsize (RecvByte c # as) got =
     (if c = LF then Some (Some got, as)
      else if length got + 1 < bufsize then recv_loop bufsize as (got @ [c])
      else recv_loop bufsize as got)"

definition recv_line :: "nat \<Rightarrow> recv_ans list \<Rightarrow> (string option \<times> recv_ans list) option" where
  "recv_line bufsize as = recv_loop bufsize as []"

section \<open>Connections\<close>

text \<open>The answers of the non-blocking \<open>recv\<close> of \<open>stream_poll_cb\<close>.\<close>

datatype poll_ans = PollData string | PollErr errno

record ('w, 'r) conn =
  kst :: 'w
  sk :: sock
  sk_open :: bool \<comment> \<open>the descriptor has not been closed\<close>
  inbox :: "recv_ans list"
  sessions :: "('r, poll_ans) session list"

text \<open>
  What the handlers run against: the machine, \<open>errno\<close> after a failed scan, and what a request of the
  tracer (seizing, interrupting, waiting for, resuming or detaching a thread) does to the kernel
  state.
\<close>

record ('w, 'r) machine =
  kern :: "'w kernel"
  cpu :: "'r arch"
  scan_errno :: "'w \<Rightarrow> errno"
  ptrace_effect :: "tact \<Rightarrow> 'w \<Rightarrow> 'w"

record conn_args_t =
  sockfd :: nat
  max_capture :: nat
  scan_threads :: int

text \<open>\<open>hsed_send_linef\<close> on the connection; the handlers ignore its result.\<close>

definition reply :: "('w, 'r) conn \<Rightarrow> string \<Rightarrow> ('w, 'r) conn option" where
  "reply c msg = do { (r, so) \<leftarrow> hsed_send_linef (sk c) msg; Some (c\<lparr>sk := so\<rparr>) }"

text \<open>The error reply of the handlers: \<open>char esc[512]\<close> and the line around it.\<close>

definition reply_error :: "('w, 'r) conn \<Rightarrow> string \<Rightarrow> ('w, 'r) conn option" where
  "reply_error c err =
     do { esc \<leftarrow> esc_buf 512 err;
          reply c (''{\"type\":\"error\",\"message\":\"'' @ esc @ ''\"}'') }"

section \<open>The handlers\<close>

definition end_line :: "nat \<Rightarrow> ll \<Rightarrow> string" where
  "end_line n tot =
     ''{\"type\":\"end\",\"count\":'' @ show_nat n @ '',\"total_bytes\":'' @ show_int (sint tot) @ ''}''"

definition stats_line :: "hsed_stats_t \<Rightarrow> string" where
  "stats_line s =
     ''{\"type\":\"stats\",\"count\":'' @ show_nat (s_count s) @
     '',\"total_bytes\":'' @ show_int (sint (total_bytes s)) @ ''}''"

text \<open>The loop over the entries: whether every line was sent, the socket, the total.\<close>

fun scan_send_loop :: "hsed_entry_t list \<Rightarrow> sock \<Rightarrow> ll \<Rightarrow> (bool \<times> sock \<times> ll) option" where
  "scan_send_loop [] so tot = Some (True, so, tot)"
| "scan_send_loop (e # es) so tot =
     do { linebuf \<leftarrow> hsed_format_entry e LINEBUF_SIZE;
          (r, so') \<leftarrow> hsed_send_line so linebuf;
          if r \<noteq> 0 then Some (False, so', tot)
          else scan_send_loop es so' (tot + word_of_int (e_size e)) }"

definition handle_scan :: "('w, 'r) machine \<Rightarrow> ('w, 'r) conn \<Rightarrow> int \<Rightarrow> int \<Rightarrow> uid_t \<Rightarrow> int \<Rightarrow> ('w, 'r) conn option" where
  "handle_scan M c min_size only_pid uid_filter threads =
     (case hsed_scan (kern M) (kst c) hsed_list_init min_size only_pid uid_filter threads of (rc, list) \<Rightarrow>
        if rc \<noteq> 0 then
          reply c (''{\"type\":\"error\",\"message\":\"scan failed: '' @
            k_strerror (kern M) (scan_errno M (kst c)) @ ''\"}'')
        else
          do { (ok, so, tot) \<leftarrow> scan_send_loop (list_contents list) (sk c) 0;
               if \<not> ok then Some (c\<lparr>sk := so\<rparr>)
               else reply (c\<lparr>sk := so\<rparr>) (end_line (l_count list) tot) })"

definition handle_stats :: "('w, 'r) machine \<Rightarrow> ('w, 'r) conn \<Rightarrow> int \<Rightarrow> uid_t \<Rightarrow> int \<Rightarrow> ('w, 'r) conn option" where
  "handle_stats M c min_size uid_filter threads =
     (case hsed_scan_stats (kern M) (kst c) stats_zero min_size uid_filter threads of (rc, stats) \<Rightarrow>
        if rc \<noteq> 0 then
          reply c (''{\"type\":\"error\",\"message\":\"stats scan failed: '' @
            k_strerror (kern M) (scan_errno M (kst c)) @ ''\"}'')
        else reply c (stats_line stats))"

definition handle_truncate :: "('w, 'r) machine \<Rightarrow> ('w, 'r) conn \<Rightarrow> int \<Rightarrow> int \<Rightarrow> ('w, 'r) conn option" where
  "handle_truncate M c pid fd =
     (case hsed_truncate_fd (kern M) (kst c) pid fd 256 of
        (w', Inl err) \<Rightarrow> reply_error (c\<lparr>kst := w'\<rparr>) err
      | (w', Inr freed) \<Rightarrow>
          reply (c\<lparr>kst := w'\<rparr>) (''{\"type\":\"result\",\"ok\":true,\"freed\":'' @ show_int freed @ ''}''))"

definition SIGHUP :: int where "SIGHUP = 1"
definition SIGKILL :: int where "SIGKILL = 9"

definition handle_hup :: "('w, 'r) machine \<Rightarrow> ('w, 'r) conn \<Rightarrow> int \<Rightarrow> ('w, 'r) conn option" where
  "handle_hup M c pid =
     (case hsed_send_signal (kern M) (kst c) pid SIGHUP 256 of
        (w', Inl err) \<Rightarrow> reply_error (c\<lparr>kst := w'\<rparr>) err
      | (w', Inr u) \<Rightarrow> reply (c\<lparr>kst := w'\<rparr>) ''{\"type\":\"result\",\"ok\":true}'')"

definition handle_kill :: "('w, 'r) machine \<Rightarrow> ('w, 'r) conn \<Rightarrow> int \<Rightarrow> ('w, 'r) conn option" where
  "handle_kill M c pid =
     (case hsed_send_signal (kern M) (kst c) pid SIGKILL 256 of
        (w', Inl err) \<Rightarrow> reply_error (c\<lparr>kst := w'\<rparr>) err
      | (w', Inr u) \<Rightarrow> reply (c\<lparr>kst := w'\<rparr>) ''{\"type\":\"result\",\"ok\":true}'')"

section \<open>Streaming\<close>

record stream_ctx_t =
  sc_pid :: int
  sc_fd :: int

text \<open>\<open>memmem(buf, n, "STOP", 4) != NULL\<close>.\<close>

fun has_stop :: "string \<Rightarrow> bool" where
  "has_stop [] = False"
| "has_stop (c # cs) = (take 4 (c # cs) = ''STOP'' \<or> has_stop cs)"

definition stream_poll_cb :: "poll_ans \<Rightarrow> bool" where
  "stream_poll_cb a =
     (case a of
        PollData s \<Rightarrow> (let buf = take 256 s in if buf = [] then False else \<not> has_stop buf)
      | PollErr e \<Rightarrow> e = EAGAIN)"

definition write_line :: "int \<Rightarrow> int \<Rightarrow> nat \<Rightarrow> bool \<Rightarrow> string \<Rightarrow> string" where
  "write_line tid ret buflen is_writev b64 =
     ''{\"type\":\"write\",\"tid\":'' @ show_int tid @ '',\"ret\":'' @ show_int ret @
     '',\"captured\":'' @ show_nat buflen @ '',\"is_writev\":'' @ (if is_writev then ''true'' else ''false'') @
     '',\"data_b64\":\"'' @ b64 @ ''\"}''"

definition stream_write_cb :: "('w, 'r) machine \<Rightarrow> int \<Rightarrow> int \<Rightarrow> byte list \<Rightarrow> bool \<Rightarrow> ('w, 'r) conn \<Rightarrow> ('w, 'r) conn option" where
  "stream_write_cb M tid ret buf is_writev c =
     (let need = hsed_base64_encoded_len (length buf);
          room = (if need \<le> 1024 then Some (1024 :: nat)
                  else if k_realloc_ok (kern M) (kst c) need then Some need else None)
      in case room of
           None \<Rightarrow> Some c
         | Some cap \<Rightarrow>
             do { b64 \<leftarrow> hsed_base64_encode buf (length buf) (replicate cap NUL);
                  reply c (write_line tid ret (length buf) is_writev (cstr b64)) })"

definition stream_attached_cb :: "stream_ctx_t \<Rightarrow> ('w, 'r) conn \<Rightarrow> ('w, 'r) conn option" where
  "stream_attached_cb sc c =
     reply c (''{\"type\":\"attached\",\"pid\":'' @ show_int (sc_pid sc) @ '',\"fd\":'' @ show_int (sc_fd sc) @ ''}'')"

text \<open>
  The actions of the tracer in their order: its requests change the kernel state, its callbacks
  send lines. What the poll callback receives is part of the session's answers.
\<close>

fun stream_callbacks :: "('w, 'r) machine \<Rightarrow> stream_ctx_t \<Rightarrow> tact list \<Rightarrow> ('w, 'r) conn \<Rightarrow> ('w, 'r) conn option" where
  "stream_callbacks M sc [] c = Some c"
| "stream_callbacks M sc (a # acts) c =
     do { c' \<leftarrow> (case a of
            AttachedCb \<Rightarrow> stream_attached_cb sc c
          | WriteCb tid ret buf is_writev \<Rightarrow> stream_write_cb M tid ret buf is_writev c
          | PollCb \<Rightarrow> Some c
          | _ \<Rightarrow> Some (c\<lparr>kst := ptrace_effect M a (kst c)\<rparr>));
          stream_callbacks M sc acts c' }"

text \<open>A session takes the next of the kernel's answer sets.\<close>

definition handle_stream :: "('w, 'r) machine \<Rightarrow> ('w, 'r) conn \<Rightarrow> int \<Rightarrow> int \<Rightarrow> nat \<Rightarrow> ('w, 'r) conn option" where
  "handle_stream M c pid fd capture =
     (case sessions c of
        [] \<Rightarrow> None
      | S # rest \<Rightarrow>
          (case hsed_trace_fd (cpu M) (kern M) (kst c) stream_poll_cb S pid fd capture 256 of (res, err, acts) \<Rightarrow>
             do { c' \<leftarrow> stream_callbacks M \<lparr>sc_pid = pid, sc_fd = fd\<rparr> acts (c\<lparr>sessions := rest\<rparr>);
                  rc \<leftarrow> res;
                  if rc \<noteq> 0 then reply_error c' err
                  else reply c' ''{\"type\":\"stream_end\"}'' }))"

section \<open>Dispatch\<close>

definition WS :: "char set" where "WS = {CHR '' '', TAB, CR, LF}"

text \<open>\<open>strtok_r(NULL, " \t\r\n", &save)\<close>: the token, if any, and the new \<open>save\<close>.\<close>

definition next_tok :: "string \<Rightarrow> string option \<times> string" where
  "next_tok save = (case strtok WS save of None \<Rightarrow> (None, []) | Some (t, r) \<Rightarrow> (Some t, r))"

text \<open>One turn of the loop on a line that has been read: whether to leave it, and the connection.\<close>

definition handle_command :: "('w, 'r) machine \<Rightarrow> conn_args_t \<Rightarrow> string \<Rightarrow> ('w, 'r) conn \<Rightarrow> (bool \<times> ('w, 'r) conn) option" where
  "handle_command M args line c =
     (case next_tok (cstr line) of
        (None, save) \<Rightarrow> Some (False, c)
      | (Some cmd, save) \<Rightarrow>
          if strcasecmp_eq cmd ''PING'' then map_option (Pair False) (reply c ''{\"type\":\"pong\"}'')
          else if strcasecmp_eq cmd ''QUIT'' then Some (True, c)
          else if strcasecmp_eq cmd ''SCAN'' then
            (case next_tok save of (a1, save1) \<Rightarrow> case next_tok save1 of (a2, save2) \<Rightarrow> case next_tok save2 of (a3, save3) \<Rightarrow>
               map_option (Pair False)
                 (handle_scan M c (case a1 of Some s \<Rightarrow> atoll s | None \<Rightarrow> 0)
                   (case a2 of Some s \<Rightarrow> c_int (atol s) | None \<Rightarrow> 0)
                   (case a3 of Some s \<Rightarrow> to_uid (strtoul s) | None \<Rightarrow> HSED_UID_ANY) (scan_threads args)))
          else if strcasecmp_eq cmd ''STATS'' then
            (case next_tok save of (a1, save1) \<Rightarrow> case next_tok save1 of (a2, save2) \<Rightarrow>
               map_option (Pair False)
                 (handle_stats M c (case a1 of Some s \<Rightarrow> atoll s | None \<Rightarrow> 0)
                   (case a2 of Some s \<Rightarrow> to_uid (strtoul s) | None \<Rightarrow> HSED_UID_ANY) (scan_threads args)))
          else if strcasecmp_eq cmd ''TRUNCATE'' then
            (case next_tok save of (a1, save1) \<Rightarrow> case next_tok save1 of (a2, save2) \<Rightarrow>
               map_option (Pair False)
                 (case (a1, a2) of
                    (Some s1, Some s2) \<Rightarrow> handle_truncate M c (c_int (atol s1)) (atoi s2)
                  | _ \<Rightarrow> reply c ''{\"type\":\"error\",\"message\":\"usage: TRUNCATE <pid> <fd>\"}''))
          else if strcasecmp_eq cmd ''HUP'' then
            (case next_tok save of (a1, save1) \<Rightarrow>
               map_option (Pair False)
                 (case a1 of
                    Some s1 \<Rightarrow> handle_hup M c (c_int (atol s1))
                  | None \<Rightarrow> reply c ''{\"type\":\"error\",\"message\":\"usage: HUP <pid>\"}''))
          else if strcasecmp_eq cmd ''KILL'' then
            (case next_tok save of (a1, save1) \<Rightarrow>
               map_option (Pair False)
                 (case a1 of
                    Some s1 \<Rightarrow> handle_kill M c (c_int (atol s1))
                  | None \<Rightarrow> reply c ''{\"type\":\"error\",\"message\":\"usage: KILL <pid>\"}''))
          else if strcasecmp_eq cmd ''STREAM'' then
            (case next_tok save of (a1, save1) \<Rightarrow> case next_tok save1 of (a2, save2) \<Rightarrow>
               map_option (Pair False)
                 (case (a1, a2) of
                    (Some s1, Some s2) \<Rightarrow> handle_stream M c (c_int (atol s1)) (atoi s2) (max_capture args)
                  | _ \<Rightarrow> reply c ''{\"type\":\"error\",\"message\":\"usage: STREAM <pid> <fd>\"}''))
          else map_option (Pair False) (reply c ''{\"type\":\"error\",\"message\":\"unknown command\"}''))"

subsection \<open>What the handlers leave alone\<close>

lemma reply_frame [conn_simps]:
  "reply c msg = Some c' \<Longrightarrow> kst c' = kst c \<and> inbox c' = inbox c \<and> sessions c' = sessions c"
  by (auto simp: reply_def split: bind_split_asm)

lemma reply_error_frame [conn_simps]:
  "reply_error c msg = Some c' \<Longrightarrow> kst c' = kst c \<and> inbox c' = inbox c \<and> sessions c' = sessions c"
  by (auto simp: reply_error_def dest: reply_frame split: bind_split_asm)

lemma stream_callback_frame:
  "stream_attached_cb sc c = Some c' \<Longrightarrow> kst c' = kst c \<and> inbox c' = inbox c \<and> sessions c' = sessions c"
  "stream_write_cb M tid ret buf wv c = Some c' \<Longrightarrow> kst c' = kst c \<and> inbox c' = inbox c \<and> sessions c' = sessions c"
  by (auto simp: stream_attached_cb_def stream_write_cb_def Let_def dest: reply_frame
      split: option.split_asm if_split_asm bind_split_asm)

text \<open>The requests of the tracer are all that a session does to the kernel state.\<close>

lemma stream_callbacks_frame [conn_simps]:
  "stream_callbacks M sc acts c = Some c' \<Longrightarrow>
   kst c' = fold (ptrace_effect M) (filter (\<lambda>a. req_target a \<noteq> None) acts) (kst c) \<and>
   inbox c' = inbox c \<and> sessions c' = sessions c"
proof (induction acts arbitrary: c)
  case (Cons a acts)
  show ?case
  proof (cases a)
    case AttachedCb
    with Cons.prems obtain c1 where "stream_attached_cb sc c = Some c1" and "stream_callbacks M sc acts c1 = Some c'"
      by (auto split: bind_split_asm)
    with Cons.IH stream_callback_frame(1) AttachedCb show ?thesis by fastforce
  next
    case (WriteCb tid ret buf wv)
    with Cons.prems obtain c1 where "stream_write_cb M tid ret buf wv c = Some c1"
      and "stream_callbacks M sc acts c1 = Some c'" by (auto split: bind_split_asm)
    with Cons.IH stream_callback_frame(2) WriteCb show ?thesis by fastforce
  qed (use Cons.IH Cons.prems in auto)
qed simp

lemma handle_scan_frame: "handle_scan M c m p u t = Some c' \<Longrightarrow> kst c' = kst c \<and> inbox c' = inbox c"
  by (auto simp: handle_scan_def dest!: reply_frame split: prod.splits if_split_asm bind_split_asm)

lemma handle_stats_frame: "handle_stats M c m u t = Some c' \<Longrightarrow> kst c' = kst c \<and> inbox c' = inbox c"
  by (auto simp: handle_stats_def dest!: reply_frame split: prod.splits if_split_asm)

lemma handle_stream_frame:
  assumes "handle_stream M c pid fd m = Some c'"
  shows "\<exists>S rest. sessions c = S # rest \<and> inbox c' = inbox c \<and>
    kst c' = fold (ptrace_effect M) (filter (\<lambda>a. req_target a \<noteq> None)
      (snd (snd (hsed_trace_fd (cpu M) (kern M) (kst c) stream_poll_cb S pid fd m 256)))) (kst c)"
proof -
  obtain S rest where S: "sessions c = S # rest" using assms by (cases "sessions c") (auto simp: handle_stream_def)
  obtain res err acts where tr: "hsed_trace_fd (cpu M) (kern M) (kst c) stream_poll_cb S pid fd m 256 = (res, err, acts)"
    by (metis prod.exhaust)
  obtain c1 rc where "stream_callbacks M \<lparr>sc_pid = pid, sc_fd = fd\<rparr> acts (c\<lparr>sessions := rest\<rparr>) = Some c1"
    and "res = Some rc" and "(if rc \<noteq> 0 then reply_error c1 err else reply c1 ''{\"type\":\"stream_end\"}'') = Some c'"
    using assms S tr by (auto simp: handle_stream_def split: bind_split_asm)
  then show ?thesis using S tr
    by (auto dest!: stream_callbacks_frame reply_frame reply_error_frame split: if_split_asm)
qed

lemma handle_action_frame:
  "handle_truncate M c pid fd = Some c' \<Longrightarrow> inbox c' = inbox c"
  "handle_hup M c pid = Some c' \<Longrightarrow> inbox c' = inbox c"
  "handle_kill M c pid = Some c' \<Longrightarrow> inbox c' = inbox c"
  by (auto simp: handle_truncate_def handle_hup_def handle_kill_def dest!: reply_frame reply_error_frame
      split: prod.splits sum.splits)

lemma handle_command_inbox:
  "handle_command M args line c = Some (q, c') \<Longrightarrow> inbox c' = inbox c"
  by (auto simp: handle_command_def dest: reply_frame handle_scan_frame handle_stats_frame handle_stream_frame
      handle_action_frame split: prod.splits option.splits if_split_asm)

subsection \<open>The loop\<close>

lemma recv_loop_shrinks: "recv_loop n as got = Some (l, as') \<Longrightarrow> length as' < length as"
  by (induction n as got rule: recv_loop.induct) (auto split: if_split_asm simp: less_Suc_eq)

text \<open>
  The loop of \<open>handle_connection\<close>: the connection when the loop has ended. Every turn consumes
  answers of \<open>recv\<close>.
\<close>

function conn_loop :: "('w, 'r) machine \<Rightarrow> conn_args_t \<Rightarrow> ('w, 'r) conn \<Rightarrow> ('w, 'r) conn option" where
  "conn_loop M args c =
     (case recv_line 512 (inbox c) of
        None \<Rightarrow> None
      | Some (None, as) \<Rightarrow> Some (c\<lparr>inbox := as\<rparr>)
      | Some (Some line, as) \<Rightarrow>
          (case handle_command M args line (c\<lparr>inbox := as\<rparr>) of
             None \<Rightarrow> None
           | Some (True, c') \<Rightarrow> Some c'
           | Some (False, c') \<Rightarrow> conn_loop M args c'))"
  by pat_completeness auto
termination
  by (relation "measure (\<lambda>(M, args, c). length (inbox c))")
    (auto simp: recv_line_def dest!: recv_loop_shrinks handle_command_inbox)

declare conn_loop.simps [simp del]

text \<open>The thread of a connection: the loop, then \<open>close(sockfd)\<close>.\<close>

definition handle_connection :: "('w, 'r) machine \<Rightarrow> conn_args_t \<Rightarrow> ('w, 'r) conn \<Rightarrow> ('w, 'r) conn option" where
  "handle_connection M args c = map_option (\<lambda>c'. c'\<lparr>sk_open := False\<rparr>) (conn_loop M args c)"

text \<open>No handler closes the socket: it is open until the loop has ended, and closed then.\<close>

lemma reply_open:
  "reply c msg = Some c' \<Longrightarrow> sk_open c' = sk_open c"
  "reply_error c msg = Some c' \<Longrightarrow> sk_open c' = sk_open c"
  by (auto simp: reply_error_def reply_def split: bind_split_asm)

lemma stream_callbacks_open: "stream_callbacks M sc acts c = Some c' \<Longrightarrow> sk_open c' = sk_open c"
proof (induction acts arbitrary: c)
  case (Cons a acts)
  have "sk_open c1 = sk_open c" if "stream_attached_cb sc c = Some c1" for c1
    using that by (auto simp: stream_attached_cb_def dest: reply_open)
  moreover have "sk_open c1 = sk_open c" if "stream_write_cb M tid ret buf wv c = Some c1" for c1 tid ret buf wv
    using that by (auto simp: stream_write_cb_def Let_def dest: reply_open
        split: option.split_asm if_split_asm bind_split_asm)
  ultimately show ?case using Cons.IH Cons.prems
    by (cases a) (fastforce split: bind_split_asm)+
qed simp

lemma handler_open:
  "handle_scan M c m p u t = Some c' \<Longrightarrow> sk_open c' = sk_open c"
  "handle_stats M c m u t = Some c' \<Longrightarrow> sk_open c' = sk_open c"
  "handle_truncate M c p f = Some c' \<Longrightarrow> sk_open c' = sk_open c"
  "handle_hup M c p = Some c' \<Longrightarrow> sk_open c' = sk_open c"
  "handle_kill M c p = Some c' \<Longrightarrow> sk_open c' = sk_open c"
  by (auto simp: handle_scan_def handle_stats_def handle_truncate_def handle_hup_def handle_kill_def
      dest!: reply_open split: prod.splits sum.splits if_split_asm bind_split_asm)

lemma handle_stream_open: "handle_stream M c p f k = Some c' \<Longrightarrow> sk_open c' = sk_open c"
  by (auto simp: handle_stream_def dest!: reply_open stream_callbacks_open
      split: list.split_asm prod.split_asm if_split_asm bind_split_asm)

lemma handle_command_open: "handle_command M args line c = Some (q, c') \<Longrightarrow> sk_open c' = sk_open c"
  by (auto simp: handle_command_def dest: reply_open handler_open handle_stream_open split: prod.splits option.splits if_split_asm)

lemma conn_loop_open: "conn_loop M args c = Some c' \<Longrightarrow> sk_open c' = sk_open c"
proof (induction M args c rule: conn_loop.induct)
  case (1 M args c)
  show ?case
  proof (cases "recv_line 512 (inbox c)")
    case (Some r)
    obtain l as where r: "r = (l, as)" by force
    show ?thesis
    proof (cases l)
      case line: (Some line)
      obtain q c1 where cmd: "handle_command M args line (c\<lparr>inbox := as\<rparr>) = Some (q, c1)"
        using "1.prems" by (subst (asm) conn_loop.simps) (auto simp: Some r line split: option.split_asm)
      have "(if q then Some c1 else conn_loop M args c1) = Some c'"
        using "1.prems" by (subst (asm) conn_loop.simps) (simp add: Some r line cmd split: bool.split_asm)
      then show ?thesis using "1.IH" [OF Some r [symmetric] line cmd refl] handle_command_open [OF cmd] by (auto split: if_split_asm)
    qed (use "1.prems" in \<open>subst (asm) conn_loop.simps, auto simp: Some r\<close>)
  qed (use "1.prems" in \<open>subst (asm) conn_loop.simps, simp\<close>)
qed

lemma handle_connection_closes:
  "handle_connection M args c = Some c' \<longleftrightarrow>
   (\<exists>c1. conn_loop M args c = Some c1 \<and> sk_open c1 = sk_open c \<and> c' = c1\<lparr>sk_open := False\<rparr>)"
  using conn_loop_open [of M args c] by (auto simp: handle_connection_def)

section \<open>The accept loop\<close>

text \<open>
  What one turn of the loop of \<open>hsed_server_run\<close> sees: the shutdown flag when it is tested, the
  answer of \<open>poll\<close>, and for a connection the answers of \<open>accept\<close>, \<open>malloc\<close> and
  \<open>pthread_create\<close>.
\<close>

datatype accept_ans = AcceptErr errno | Accepted nat bool "errno option"

datatype srv_poll = SrvPollErr errno | SrvTimeout | SrvReady accept_ans

record srv_turn =
  shutdown_flag :: bool
  polled :: srv_poll

datatype srv_act =
    SrvUnlink string | SrvBind string | SrvChmod string nat | SrvListen nat
  | SrvLog string | SrvLogErr string | SrvClose nat
  | SrvSpawn conn_args_t \<comment> \<open>a detached thread running \<open>handle_connection\<close>\<close>

definition accept_one :: "(errno \<Rightarrow> string) \<Rightarrow> nat \<Rightarrow> int \<Rightarrow> accept_ans \<Rightarrow> srv_act list" where
  "accept_one strerr capture threads a =
     (case a of
        AcceptErr e \<Rightarrow> []
      | Accepted client_fd malloc_works create_err \<Rightarrow>
          if \<not> malloc_works then [SrvClose client_fd]
          else (case create_err of
                  Some e \<Rightarrow> [SrvLogErr (''pthread_create failed: '' @ strerr e), SrvClose client_fd]
                | None \<Rightarrow> [SrvSpawn \<lparr>sockfd = client_fd, max_capture = capture, scan_threads = threads\<rparr>]))"

text \<open>The loop, until it is left; \<open>False\<close> when the turns are used up before.\<close>

fun srv_loop :: "(errno \<Rightarrow> string) \<Rightarrow> nat \<Rightarrow> int \<Rightarrow> srv_turn list \<Rightarrow> srv_act list \<times> bool" where
  "srv_loop strerr capture threads [] = ([], False)"
| "srv_loop strerr capture threads (t # ts) =
     (if shutdown_flag t then ([], True)
      else (case polled t of
              SrvPollErr e \<Rightarrow> if e = EINTR then srv_loop strerr capture threads ts else ([], True)
            | SrvTimeout \<Rightarrow> srv_loop strerr capture threads ts
            | SrvReady a \<Rightarrow>
                (case srv_loop strerr capture threads ts of (acts, fin) \<Rightarrow>
                   (accept_one strerr capture threads a @ acts, fin))))"

record srv_env =
  socket_ans :: "errno + nat"
  bind_err :: "errno option"
  listen_err :: "errno option"
  turns :: "srv_turn list"

text \<open>\<open>sizeof(addr.sun_path)\<close>\<close>

definition SUN_PATH_SIZE :: nat where "SUN_PATH_SIZE = 108"

definition hsed_server_run :: "(errno \<Rightarrow> string) \<Rightarrow> srv_env \<Rightarrow> string \<Rightarrow> nat \<Rightarrow> int \<Rightarrow> int option \<times> srv_act list" where
  "hsed_server_run strerr E socket_path capture threads =
     (case socket_ans E of
        Inl e \<Rightarrow> (Some (- 1), [SrvUnlink socket_path, SrvLogErr (''socket() failed: '' @ strerr e)])
      | Inr listen_fd \<Rightarrow>
          (let sun_path = (case hsed_strlcpy (replicate SUN_PATH_SIZE NUL) socket_path SUN_PATH_SIZE of
                             Some (n, dst) \<Rightarrow> cstr dst | None \<Rightarrow> []);
               start = [SrvUnlink socket_path, SrvBind sun_path]
           in case bind_err E of
                Some e \<Rightarrow> (Some (- 1), start @
                  [SrvLogErr (''bind('' @ socket_path @ '') failed: '' @ strerr e), SrvClose listen_fd])
              | None \<Rightarrow>
                  (case listen_err E of
                     Some e \<Rightarrow> (Some (- 1), start @ [SrvChmod socket_path 0x180, SrvListen listen_fd,
                       SrvLogErr (''listen() failed: '' @ strerr e), SrvClose listen_fd, SrvUnlink socket_path])
                   | None \<Rightarrow>
                       (case srv_loop strerr capture threads (turns E) of (acts, fin) \<Rightarrow>
                          (if fin then Some 0 else None,
                           start @ [SrvChmod socket_path 0x180, SrvListen listen_fd, SrvLog (''listening on '' @ socket_path)] @
                           acts @
                           (if fin then [SrvClose listen_fd, SrvUnlink socket_path, SrvLog ''shut down''] else []))))))"

end
