(* ===== verification/Hsed_Requests.thy ===== *)
theory Hsed_Requests
  imports Hsed_Server
begin

text \<open>
  What a client can rely on. A request line is a value of the type \<open>request\<close>; the dispatch code is
  compared with a table over the tokens of the line, requests the client writes are read back
  unchanged, commands have the effect their names say, and the replies arrive as whole lines. The
  accept loop is treated at the end.
\<close>

section \<open>Requests as data\<close>

datatype request =
    R_empty | R_ping | R_quit | R_scan int int uid_t | R_stats int uid_t
  | R_truncate int int | R_hup int | R_kill int | R_stream int int
  | R_usage string | R_unknown

lemma strtok_shrinks: "strtok D s = Some (t, r) \<Longrightarrow> length r < length s"
proof -
  assume "strtok D s = Some (t, r)"
  then have ne: "dropWhile (\<lambda>c. c \<in> D) s \<noteq> []" and r: "r = drop 1 (dropWhile (\<lambda>c. c \<notin> D) (dropWhile (\<lambda>c. c \<in> D) s))"
    by (auto simp: strtok_def Let_def split: if_split_asm)
  obtain c cs where "dropWhile (\<lambda>c. c \<in> D) s = c # cs" using ne by (cases "dropWhile (\<lambda>c. c \<in> D) s") auto
  moreover from this have "length (c # cs) \<le> length s" by (metis length_dropWhile_le)
  ultimately show ?thesis using r length_dropWhile_le [of "\<lambda>c. c \<notin> D" cs] by auto
qed

text \<open>All tokens of a line.\<close>

function tokens :: "string \<Rightarrow> string list" where
  "tokens s = (case strtok WS s of None \<Rightarrow> [] | Some (t, r) \<Rightarrow> t # tokens r)"
  by pat_completeness auto
termination
  by (relation "measure length") (auto dest: strtok_shrinks)

declare tokens.simps [simp del]

definition arg_or :: "'a \<Rightarrow> (string \<Rightarrow> 'a) \<Rightarrow> nat \<Rightarrow> string list \<Rightarrow> 'a" where
  "arg_or d f i ts = (if i < length ts then f (ts ! i) else d)"

definition request_of :: "string list \<Rightarrow> request" where
  "request_of ts =
     (case ts of [] \<Rightarrow> R_empty
      | cmd # as \<Rightarrow>
         (let name = map tolower cmd; pid = (\<lambda>s. c_int (atol s)); uid = (\<lambda>s. to_uid (strtoul s)) in
          if name = ''ping'' then R_ping
          else if name = ''quit'' then R_quit
          else if name = ''scan'' then R_scan (arg_or 0 atoll 0 as) (arg_or 0 pid 1 as) (arg_or HSED_UID_ANY uid 2 as)
          else if name = ''stats'' then R_stats (arg_or 0 atoll 0 as) (arg_or HSED_UID_ANY uid 1 as)
          else if name = ''truncate'' then
            (if length as < 2 then R_usage ''TRUNCATE <pid> <fd>'' else R_truncate (pid (as ! 0)) (atoi (as ! 1)))
          else if name = ''hup'' then (if as = [] then R_usage ''HUP <pid>'' else R_hup (pid (as ! 0)))
          else if name = ''kill'' then (if as = [] then R_usage ''KILL <pid>'' else R_kill (pid (as ! 0)))
          else if name = ''stream'' then
            (if length as < 2 then R_usage ''STREAM <pid> <fd>'' else R_stream (pid (as ! 0)) (atoi (as ! 1)))
          else R_unknown))"

definition run_request :: "('w, 'r) machine \<Rightarrow> conn_args_t \<Rightarrow> request \<Rightarrow> ('w, 'r) conn \<Rightarrow> (bool \<times> ('w, 'r) conn) option" where
  "run_request M args q c =
     (case q of
        R_empty \<Rightarrow> Some (False, c)
      | R_quit \<Rightarrow> Some (True, c)
      | R_ping \<Rightarrow> map_option (Pair False) (reply c ''{\"type\":\"pong\"}'')
      | R_scan m p u \<Rightarrow> map_option (Pair False) (handle_scan M c m p u (scan_threads args))
      | R_stats m u \<Rightarrow> map_option (Pair False) (handle_stats M c m u (scan_threads args))
      | R_truncate p f \<Rightarrow> map_option (Pair False) (handle_truncate M c p f)
      | R_hup p \<Rightarrow> map_option (Pair False) (handle_hup M c p)
      | R_kill p \<Rightarrow> map_option (Pair False) (handle_kill M c p)
      | R_stream p f \<Rightarrow> map_option (Pair False) (handle_stream M c p f (max_capture args))
      | R_usage s \<Rightarrow> map_option (Pair False) (reply c (''{\"type\":\"error\",\"message\":\"usage: '' @ s @ ''\"}''))
      | R_unknown \<Rightarrow> map_option (Pair False) (reply c ''{\"type\":\"error\",\"message\":\"unknown command\"}''))"

subsection \<open>Dispatch\<close>

lemma next_tok_tokens:
  "next_tok s = (case tokens s of [] \<Rightarrow> (None, []) | t # ts \<Rightarrow> (Some t, snd (next_tok s)))"
  "tokens (snd (next_tok s)) = tl (tokens s)"
  by (subst tokens.simps, simp add: next_tok_def split: option.split prod.split)
    (subst (2) tokens.simps, auto simp: next_tok_def tokens.simps [of "[]"] strtok_def split: option.split prod.split)

lemma next_tok_Nil: "tokens s = [] \<Longrightarrow> next_tok s = (None, [])"
  using next_tok_tokens(1) [of s] by simp

lemma next_tok_Cons: "tokens s = t # ts \<Longrightarrow> \<exists>r. next_tok s = (Some t, r) \<and> tokens r = ts"
  using next_tok_tokens [of s] by (auto split: list.split_asm)

lemma tokens_Nil [simp]: "tokens [] = []"
  by (simp add: tokens.simps strtok_def)

lemma strcasecmp_lit:
  "strcasecmp_eq s ''PING'' \<longleftrightarrow> map tolower s = ''ping''" "strcasecmp_eq s ''QUIT'' \<longleftrightarrow> map tolower s = ''quit''"
  "strcasecmp_eq s ''SCAN'' \<longleftrightarrow> map tolower s = ''scan''" "strcasecmp_eq s ''STATS'' \<longleftrightarrow> map tolower s = ''stats''"
  "strcasecmp_eq s ''TRUNCATE'' \<longleftrightarrow> map tolower s = ''truncate''" "strcasecmp_eq s ''HUP'' \<longleftrightarrow> map tolower s = ''hup''"
  "strcasecmp_eq s ''KILL'' \<longleftrightarrow> map tolower s = ''kill''" "strcasecmp_eq s ''STREAM'' \<longleftrightarrow> map tolower s = ''stream''"
proof -
  have "map tolower ''PING'' = ''ping''" "map tolower ''QUIT'' = ''quit''" "map tolower ''SCAN'' = ''scan''"
    "map tolower ''STATS'' = ''stats''" "map tolower ''TRUNCATE'' = ''truncate''" "map tolower ''HUP'' = ''hup''"
    "map tolower ''KILL'' = ''kill''" "map tolower ''STREAM'' = ''stream''" by code_simp+
  then show "strcasecmp_eq s ''PING'' \<longleftrightarrow> map tolower s = ''ping''" "strcasecmp_eq s ''QUIT'' \<longleftrightarrow> map tolower s = ''quit''"
    "strcasecmp_eq s ''SCAN'' \<longleftrightarrow> map tolower s = ''scan''" "strcasecmp_eq s ''STATS'' \<longleftrightarrow> map tolower s = ''stats''"
    "strcasecmp_eq s ''TRUNCATE'' \<longleftrightarrow> map tolower s = ''truncate''" "strcasecmp_eq s ''HUP'' \<longleftrightarrow> map tolower s = ''hup''"
    "strcasecmp_eq s ''KILL'' \<longleftrightarrow> map tolower s = ''kill''" "strcasecmp_eq s ''STREAM'' \<longleftrightarrow> map tolower s = ''stream''"
    by (simp_all only: strcasecmp_eq_def)
qed

text \<open>The first three tokens behind the command, as the code fetches them.\<close>

lemma next_tok_args:
  obtains s1 s2 s3 where "next_tok s = (if tokens s = [] then None else Some (tokens s ! 0), s1)"
    and "next_tok s1 = (if length (tokens s) \<le> 1 then None else Some (tokens s ! 1), s2)"
    and "next_tok s2 = (if length (tokens s) \<le> 2 then None else Some (tokens s ! 2), s3)"
proof -
  have tok: "next_tok r = (if tokens r = [] then None else Some (hd (tokens r)), snd (next_tok r))" for r
    using next_tok_tokens(1) [of r] by (cases "tokens r") auto
  let ?s1 = "snd (next_tok s)" and ?ts = "tokens s"
  have ts1: "tokens ?s1 = tl ?ts" and ts2: "tokens (snd (next_tok ?s1)) = tl (tl ?ts)"
    by (simp_all add: next_tok_tokens(2))
  show ?thesis
  proof (rule that [of ?s1 "snd (next_tok ?s1)" "snd (next_tok (snd (next_tok ?s1)))"])
    show "next_tok s = (if ?ts = [] then None else Some (?ts ! 0), ?s1)"
      by (subst tok) (simp add: hd_conv_nth)
    show "next_tok ?s1 = (if length ?ts \<le> 1 then None else Some (?ts ! 1), snd (next_tok ?s1))"
      by (subst tok) (cases ?ts; simp add: ts1 hd_conv_nth le_Suc_eq)
    show "next_tok (snd (next_tok ?s1)) = (if length ?ts \<le> 2 then None else Some (?ts ! 2), snd (next_tok (snd (next_tok ?s1))))"
      by (subst tok) (cases ?ts; cases "tl ?ts"; simp add: ts2 hd_conv_nth le_Suc_eq numeral_2_eq_2)
  qed
qed

lemma handle_command_eq:
  "handle_command M args line c = run_request M args (request_of (tokens (cstr line))) c"
proof (cases "tokens (cstr line)")
  case Nil
  then show ?thesis by (simp add: handle_command_def next_tok_Nil request_of_def run_request_def)
next
  case (Cons cmd ts)
  then obtain r where r: "next_tok (cstr line) = (Some cmd, r)" "tokens r = ts"
    using next_tok_Cons by blast
  obtain s1 s2 s3 where args: "next_tok r = (if ts = [] then None else Some (ts ! 0), s1)"
    "next_tok s1 = (if length ts \<le> 1 then None else Some (ts ! 1), s2)"
    "next_tok s2 = (if length ts \<le> 2 then None else Some (ts ! 2), s3)"
    using next_tok_args [of r] unfolding r(2) by blast
  show ?thesis
    unfolding handle_command_def Cons r(1) prod.case option.case args strcasecmp_lit
    by (auto simp: request_of_def run_request_def arg_or_def Let_def not_le not_less le_Suc_eq numeral_2_eq_2)
qed

subsection \<open>Requests as the client writes them\<close>

definition request_words :: "request \<Rightarrow> string list" where
  "request_words q =
     (case q of
        R_ping \<Rightarrow> [''PING''] | R_quit \<Rightarrow> [''QUIT'']
      | R_scan m p u \<Rightarrow> [''SCAN'', show_int m, show_int p] @ (if u = HSED_UID_ANY then [] else [show_nat (unat u)])
      | R_stats m u \<Rightarrow> [''STATS'', show_int m] @ (if u = HSED_UID_ANY then [] else [show_nat (unat u)])
      | R_truncate p f \<Rightarrow> [''TRUNCATE'', show_int p, show_int f]
      | R_hup p \<Rightarrow> [''HUP'', show_int p]
      | R_kill p \<Rightarrow> [''KILL'', show_int p]
      | R_stream p f \<Rightarrow> [''STREAM'', show_int p, show_int f]
      | _ \<Rightarrow> [])"

definition request_ok :: "request \<Rightarrow> bool" where
  "request_ok q =
     (case q of
        R_ping \<Rightarrow> True | R_quit \<Rightarrow> True
      | R_scan m p u \<Rightarrow> is_c_ll m \<and> is_c_int p
      | R_stats m u \<Rightarrow> is_c_ll m
      | R_truncate p f \<Rightarrow> is_c_int p \<and> is_c_int f
      | R_hup p \<Rightarrow> is_c_int p
      | R_kill p \<Rightarrow> is_c_int p
      | R_stream p f \<Rightarrow> is_c_int p \<and> is_c_int f
      | _ \<Rightarrow> False)"

lemma strtok_word:
  assumes "w \<noteq> []" and "set w \<inter> D = {}" and "d \<in> D"
  shows "strtok D (w @ d # s) = Some (w, s)" and "strtok D w = Some (w, [])"
proof -
  have ws: "\<And>c. c \<in> set w \<Longrightarrow> c \<notin> D" using assms(2) by blast
  have skip: "dropWhile (\<lambda>c. c \<in> D) (w @ t) = w @ t" for t
    using assms(1) ws by (cases w) auto
  have "takeWhile (\<lambda>c. c \<notin> D) (w @ d # s) = w" "dropWhile (\<lambda>c. c \<notin> D) (w @ d # s) = d # s"
    using ws assms(3) by (simp_all add: takeWhile_append2 dropWhile_append2)
  then show "strtok D (w @ d # s) = Some (w, s)" using assms(1) by (simp add: strtok_def skip)
  have "takeWhile (\<lambda>c. c \<notin> D) w = w" "dropWhile (\<lambda>c. c \<notin> D) w = []"
    using ws by (simp_all add: takeWhile_eq_all_conv dropWhile_eq_Nil_conv)
  moreover have "dropWhile (\<lambda>c. c \<in> D) w = w" using skip [of "[]"] by simp
  ultimately show "strtok D w = Some (w, [])" using assms(1) by (simp only: strtok_def Let_def) simp
qed

lemma tokens_join:
  "\<forall>w \<in> set ws. w \<noteq> [] \<and> set w \<inter> WS = {} \<Longrightarrow> tokens (join_sp ws) = ws"
proof (induction ws rule: join_sp.induct)
  case (3 a b ws)
  have sp: "CHR '' '' \<in> WS" by (simp add: WS_def)
  have "strtok WS (a @ CHR '' '' # join_sp (b # ws)) = Some (a, join_sp (b # ws))"
    using 3 sp by (intro strtok_word) auto
  then show ?case using 3 by (subst tokens.simps) simp
next
  case (2 a)
  then show ?case using strtok_word(2) [of a WS "CHR '' ''"] by (subst tokens.simps) (simp add: WS_def)
qed simp

lemma show_nat_word: "set (show_nat n) \<inter> WS = {}" "NUL \<notin> set (show_nat n)"
  using show_nat_digits [of n] by (auto simp: WS_def isdigit_def)

lemma show_int_word: "show_int i \<noteq> []" "set (show_int i) \<inter> WS = {}" "NUL \<notin> set (show_int i)"
  using show_nat_word by (auto simp: show_int_def WS_def)

lemma show_nat_uid: "to_uid (strtoul (show_nat (unat (u :: uid_t)))) = u"
proof -
  have "unat u < 2 ^ 64" using unsigned_less [of u, where ?'a = nat] by simp
  then show ?thesis by (simp add: strtoul_show_nat to_uid_def unsigned_ucast_eq take_bit_word_eq_self)
qed

lemma c_int_atol: "is_c_int p \<Longrightarrow> c_int (atol (show_int p)) = p"
  by (simp add: is_c_int_def atol_show_int c_int_id LONG_MIN_def LONG_MAX_def)

lemma atoi_c_int: "is_c_int p \<Longrightarrow> atoi (show_int p) = p"
  by (simp add: is_c_int_def atoi_show_int)

lemma atoll_c_ll: "is_c_ll m \<Longrightarrow> atoll (show_int m) = m"
  by (simp add: is_c_ll_def atoll_show_int LONG_MIN_def LONG_MAX_def)


lemma request_words_ok:
  "request_ok q \<Longrightarrow> \<forall>w \<in> set (request_words q). w \<noteq> [] \<and> set w \<inter> WS = {} \<and> NUL \<notin> set w"
  using show_nat_word show_int_word
  by (auto simp: request_ok_def request_words_def WS_def split: request.split_asm if_split_asm)

lemma request_of_words: "request_ok q \<Longrightarrow> request_of (request_words q) = q"
proof -
  have low: "map tolower ''PING'' = ''ping''" "map tolower ''QUIT'' = ''quit''" "map tolower ''SCAN'' = ''scan''"
    "map tolower ''STATS'' = ''stats''" "map tolower ''TRUNCATE'' = ''truncate''" "map tolower ''HUP'' = ''hup''"
    "map tolower ''KILL'' = ''kill''" "map tolower ''STREAM'' = ''stream''" by code_simp+
  show "request_ok q \<Longrightarrow> request_of (request_words q) = q"
    by (cases q) (simp_all add: request_ok_def request_words_def request_of_def low arg_or_def Let_def
      atoll_c_ll c_int_atol atoi_c_int show_nat_uid del: list.map)
qed

lemma join_sp_no_nul: "\<forall>w \<in> set ws. NUL \<notin> set w \<Longrightarrow> NUL \<notin> set (join_sp ws)"
  by (induction ws rule: join_sp.induct) auto

lemma join_sp_no_lf: "\<forall>w \<in> set ws. set w \<inter> WS = {} \<Longrightarrow> LF \<notin> set (join_sp ws)"
  by (induction ws rule: join_sp.induct) (auto simp: WS_def)

lemma request_line:
  assumes "request_ok q"
  shows "request_of (tokens (cstr (join_sp (request_words q)))) = q"
  using request_words_ok [OF assms] request_of_words [OF assms]
  by (simp add: cstr_id join_sp_no_nul tokens_join)

subsection \<open>Reading request lines\<close>

text \<open>Interruptions between the bytes of a line are not seen.\<close>

lemma recv_loop_line:
  assumes "filter (\<lambda>a. a \<noteq> RecvIntr) as = map RecvByte s" and "LF \<notin> set s" and "length got < bufsize"
  shows "recv_loop bufsize (as @ RecvByte LF # rest) got = Some (Some (take (bufsize - 1) (got @ s)), rest)"
  using assms
proof (induction bufsize as got arbitrary: s rule: recv_loop.induct)
  case (5 bufsize c as got)
  then obtain s' where s: "s = c # s'" and c: "c \<noteq> LF" "LF \<notin> set s'"
    and as: "filter (\<lambda>a. a \<noteq> RecvIntr) as = map RecvByte s'" by auto
  show ?case
  proof (cases "length got + 1 < bufsize")
    case True
    then show ?thesis using "5.IH"(1) [OF c(1) True as c(2)] c s by simp
  next
    case False
    then have "take (bufsize - 1) (got @ s') = take (bufsize - 1) (got @ s)" using "5.prems"(3) by simp
    then show ?thesis using "5.IH"(2) [OF c(1) False as c(2) "5.prems"(3)] c False by simp
  qed
qed auto

lemma filter_RecvByte [simp]: "filter (\<lambda>a. a \<noteq> RecvIntr) (map RecvByte s) = map RecvByte s"
  by (induction s) auto

lemma length_join_sp: "length (join_sp ws) \<le> sum_list (map (\<lambda>w. Suc (length w)) ws)"
  by (induction ws rule: join_sp.induct) auto

lemma length_request:
  assumes "request_ok q"
  shows "length (join_sp (request_words q)) < 511"
proof -
  have "sum_list (map (\<lambda>w. Suc (length w)) (request_words q)) < 511"
  proof (cases q)
    case (R_scan m p u)
    with assms show ?thesis using length_show_u32 [of u]
      by (auto simp: request_ok_def request_words_def dest!: length_show_c_int length_show_c_ll)
  next
    case (R_stats m u)
    with assms show ?thesis using length_show_u32 [of u]
      by (auto simp: request_ok_def request_words_def dest!: length_show_c_ll)
  qed (use assms in \<open>auto simp: request_ok_def request_words_def dest!: length_show_c_int\<close>)
  then show ?thesis using length_join_sp [of "request_words q"] by simp
qed

text \<open>
  C7. Dispatch: for every line, the chain of tests on successive \<open>strtok_r\<close> results does what the
  table of the protocol says for the list of the line's tokens. Commands are recognised in any
  case, missing optional arguments take their defaults, missing mandatory ones give a usage error
  and leave the connection open, and superfluous arguments are ignored.
\<close>

theorem handle_command_refines_requests:
  "handle_command M args line c = run_request M args (request_of (tokens (cstr line))) c"
  by (rule handle_command_eq)

text \<open>
  C29. Requests are framed by newlines whatever their length: a line that arrives in any number of
  pieces, with any interruptions, is read as its first 511 bytes, which fit the buffer, and reading
  stops right behind its newline, so an oversized request never spills into the next one.
\<close>

theorem recv_line_frames:
  assumes "filter (\<lambda>a. a \<noteq> RecvIntr) as = map RecvByte s" and "LF \<notin> set s"
  shows "recv_line 512 (as @ RecvByte LF # rest) = Some (Some (take 511 s), rest)"
  using recv_loop_line [OF assms, of "[]" 512 rest] by (simp add: recv_line_def)

theorem recv_line_frames_witness:
  "recv_line 512 ([RecvByte CHR ''P'', RecvIntr, RecvByte CHR ''Q''] @ RecvByte LF # [RecvEOF]) = Some (Some ''PQ'', [RecvEOF])"
  by (subst recv_line_frames [where s = "''PQ''"]) simp_all

text \<open>
  C4. A request written the way the client writes it, sent over the socket in any number of
  pieces, is executed as that request: the numbers arrive unchanged (the 64-bit minimum size, the
  32-bit pid and descriptor, the user id), and the loop goes on behind it unless it was QUIT.
\<close>

theorem conn_loop_executes_request:
  assumes "request_ok q" and "filter (\<lambda>a. a \<noteq> RecvIntr) as = map RecvByte (join_sp (request_words q))"
    and "inbox c = as @ RecvByte LF # rest"
  shows "conn_loop M args c = (case run_request M args q (c\<lparr>inbox := rest\<rparr>) of
      None \<Rightarrow> None | Some (True, c') \<Rightarrow> Some c' | Some (False, c') \<Rightarrow> conn_loop M args c')"
proof -
  let ?line = "join_sp (request_words q)"
  have "LF \<notin> set ?line" using request_words_ok [OF assms(1)] by (intro join_sp_no_lf) auto
  then have "recv_line 512 (inbox c) = Some (Some (take 511 ?line), rest)"
    using recv_loop_line [OF assms(2), of "[]" 512 rest] by (simp add: recv_line_def assms(3))
  moreover have "take 511 ?line = ?line" using length_request [OF assms(1)] by simp
  ultimately show ?thesis
    by (subst conn_loop.simps) (simp add: handle_command_eq request_line [OF assms(1)])
qed

text \<open>The requests on threads that a STREAM issues: those of the next session of the connection.\<close>

definition stream_requests :: "('w, 'r) machine \<Rightarrow> conn_args_t \<Rightarrow> ('w, 'r) conn \<Rightarrow> int \<Rightarrow> int \<Rightarrow> tact list" where
  "stream_requests M args c p f = filter (\<lambda>a. req_target a \<noteq> None)
     (snd (snd (hsed_trace_fd (cpu M) (kern M) (kst c) stream_poll_cb (hd (sessions c)) p f (max_capture args) 256)))"

lemma handle_stream_requests:
  "handle_stream M c p f (max_capture args) = Some c' \<Longrightarrow>
   kst c' = fold (ptrace_effect M) (stream_requests M args c p f) (kst c)"
  using handle_stream_frame [of M c p f "max_capture args" c'] by (auto simp: stream_requests_def)

lemma stream_requests_targets:
  assumes "a \<in> set (stream_requests M args c p f)"
  shows "\<exists>t. req_target a = Some t \<and>
    ((\<exists>l. discover_tids (kern M) (kst c) p MAX_TRACKED_TIDS = Some l \<and> t \<in> set l) \<or>
     (\<exists>ev \<in> set (events (hd (sessions c))). t \<in> named_by ev))"
proof -
  let ?acts = "snd (snd (hsed_trace_fd (cpu M) (kern M) (kst c) stream_poll_cb (hd (sessions c)) p f (max_capture args) 256))"
  obtain t where t: "req_target a = Some t" "a \<in> set ?acts" using assms by (auto simp: stream_requests_def)
  then have "t \<in> targets ?acts" by (auto simp: targets_def)
  with hsed_trace_fd_targets t(1) show ?thesis by (fastforce split: option.split_asm)
qed

text \<open>
  C8. The effect of a command on the system is the one its name says and no other: TRUNCATE acts
  through \<open>hsed_truncate_fd\<close>, HUP and KILL send that one signal, STREAM applies the requests of its
  tracing session in their order, each of them to a thread listed under \<open>/proc/<pid>/task\<close> or to one
  the kernel itself named in an event of the session, and every other line (SCAN, STATS, PING,
  errors, anything unknown) leaves the kernel's state untouched.
\<close>

theorem handle_command_effect:
  assumes "handle_command M args line c = Some (quit, c')"
  shows "kst c' = (case request_of (tokens (cstr line)) of
      R_truncate p f \<Rightarrow> fst (hsed_truncate_fd (kern M) (kst c) p f 256)
    | R_hup p \<Rightarrow> snd (k_kill (kern M) (kst c) p SIGHUP)
    | R_kill p \<Rightarrow> snd (k_kill (kern M) (kst c) p SIGKILL)
    | R_stream p f \<Rightarrow> fold (ptrace_effect M) (stream_requests M args c p f) (kst c)
    | _ \<Rightarrow> kst c) \<and>
   (\<forall>p f. request_of (tokens (cstr line)) = R_stream p f \<longrightarrow> (\<forall>a \<in> set (stream_requests M args c p f).
      \<exists>t. req_target a = Some t \<and>
        ((\<exists>l. discover_tids (kern M) (kst c) p MAX_TRACKED_TIDS = Some l \<and> t \<in> set l) \<or>
         (\<exists>ev \<in> set (events (hd (sessions c))). t \<in> named_by ev))))"
proof (intro conjI allI impI ballI stream_requests_targets)
  show "kst c' = (case request_of (tokens (cstr line)) of
      R_truncate p f \<Rightarrow> fst (hsed_truncate_fd (kern M) (kst c) p f 256)
    | R_hup p \<Rightarrow> snd (k_kill (kern M) (kst c) p SIGHUP)
    | R_kill p \<Rightarrow> snd (k_kill (kern M) (kst c) p SIGKILL)
    | R_stream p f \<Rightarrow> fold (ptrace_effect M) (stream_requests M args c p f) (kst c)
    | _ \<Rightarrow> kst c)"
    using assms unfolding handle_command_eq
    by (cases "request_of (tokens (cstr line))")
      (auto simp: run_request_def handle_truncate_def handle_hup_def handle_kill_def hsed_send_signal_def
        dest: reply_frame reply_error_frame handle_scan_frame handle_stats_frame handle_stream_requests
        split: prod.splits sum.splits option.splits)
qed

section \<open>Replies on the wire\<close>

lemma send_loop_no_err:
  assumes "SendErr \<notin> set as" and "send_loop json sent as out = Some (r, so)"
  shows "r = 0 \<and> SendErr \<notin> set (answers so)"
  using assms
  by (induction json sent as out rule: send_loop.induct) (auto simp: Let_def split: if_split_asm send_ans.split_asm)

lemma hsed_send_line_no_err:
  assumes "SendErr \<notin> set (answers so)" and "hsed_send_line so m = Some (r, so')"
  shows "r = 0 \<and> SendErr \<notin> set (answers so')"
  using send_loop_no_err assms by (auto simp: hsed_send_line_def)

text \<open>An entry whose line fits the buffer.\<close>

definition entry_ok :: "hsed_entry_t \<Rightarrow> bool" where
  "entry_ok e = (is_c_int (e_pid e) \<and> is_c_ll (e_size e) \<and> is_c_ll (e_mtime e) \<and> entry_wf e \<and> length (e_comm e) \<le> 15)"

lemma entry_ok_line:
  assumes "entry_ok e"
  shows "hsed_format_entry e LINEBUF_SIZE = Some (entry_text e)" and "LF \<notin> set (entry_text e)"
    and "NUL \<notin> set (entry_text e)"
proof -
  show "hsed_format_entry e LINEBUF_SIZE = Some (entry_text e)"
    using assms length_entry_text by (simp add: entry_ok_def hsed_format_entry_eq snprintf_fits)
  show "LF \<notin> set (entry_text e)" using assms entry_text_no_lf by (simp add: entry_ok_def)
  have esc: "NUL \<notin> set (escaped n s)" for n s using escaped_printable [of NUL n s] by auto
  have "NUL \<notin> set (e_mode e)" using assms by (auto simp: entry_ok_def entry_wf_def)
  then show "NUL \<notin> set (entry_text e)"
    using show_nat_word(2) show_int_word(3) esc by (auto simp: entry_text_def entry_line_def)
qed

lemma scan_send_loop_sends:
  assumes "\<forall>e \<in> set es. entry_ok e" and "SendErr \<notin> set (answers so)"
    and "scan_send_loop es so t = Some (ok, so', t')"
  shows "ok \<and> t' = t + entry_total es \<and> SendErr \<notin> set (answers so') \<and>
    send_all hsed_send_line so (map entry_text es) = Some (0, so')"
  using assms
proof (induction es arbitrary: so t)
  case (Cons e es)
  then obtain r so1 where send: "hsed_send_line so (entry_text e) = Some (r, so1)"
    and rest: "(if r \<noteq> 0 then Some (False, so1, t) else scan_send_loop es so1 (t + word_of_int (e_size e))) = Some (ok, so', t')"
    by (auto simp: entry_ok_line split: bind_split_asm)
  from hsed_send_line_no_err [OF Cons.prems(2) send] have r: "r = 0" "SendErr \<notin> set (answers so1)" by auto
  with Cons.IH [of so1 "t + word_of_int (e_size e)"] Cons.prems(1) rest send show ?case
    by (simp add: ac_simps)
qed simp

lemma send_all_append:
  "send_all send s (xs @ ys) = do { (r, s') \<leftarrow> send_all send s xs; if r \<noteq> 0 then Some (r, s') else send_all send s' ys }"
  by (induction xs arbitrary: s) (auto split: bind_split)

lemma length_end_line: "length (show_nat n) \<le> 1900 \<Longrightarrow> length (end_line n tot) < 2047"
  using length_show_c_ll [of "sint tot"] sint_ge [of tot] sint_less [of tot]
  by (auto simp: end_line_def is_c_ll_def)

lemma reply_sends:
  assumes "reply c msg = Some c'" and "length msg < 2048" and "SendErr \<notin> set (answers (sk c))"
  shows "hsed_send_line (sk c) msg = Some (0, sk c') \<and> SendErr \<notin> set (answers (sk c'))"
  using assms hsed_send_line_no_err
  by (fastforce simp: reply_def hsed_send_linef_def snprintf_fits split: bind_split_asm)

lemma end_line_chars: "NUL \<notin> set (end_line n tot)" "LF \<notin> set (end_line n tot)"
  using show_nat_word(2) show_int_word(3) show_no_lf by (auto simp: end_line_def)

lemma length_show_size_t: "n < 2 ^ 64 \<Longrightarrow> length (show_nat n) \<le> 20"
  by (rule length_show_nat) (auto elim: less_trans)

lemma handle_scan_lines:
  assumes "hsed_scan (kern M) (kst c) hsed_list_init min_size only_pid uid_filter threads = (0, l)"
    and "\<forall>e \<in> set (list_contents l). entry_ok e" and "l_count l < 2 ^ 64"
    and "SendErr \<notin> set (answers (sk c))" and "wire (sk c) = []"
    and "handle_scan M c min_size only_pid uid_filter threads = Some c'"
  shows "lines_of (wire (sk c')) =
    map entry_text (list_contents l) @ [end_line (l_count l) (entry_total (list_contents l))]"
proof -
  let ?es = "list_contents l" and ?last = "end_line (l_count l) (entry_total (list_contents l))"
  obtain ok so tot where loop: "scan_send_loop ?es (sk c) 0 = Some (ok, so, tot)"
    and tail: "(if \<not> ok then Some (c\<lparr>sk := so\<rparr>) else reply (c\<lparr>sk := so\<rparr>) (end_line (l_count l) tot)) = Some c'"
    using assms(6) by (auto simp: handle_scan_def assms(1) split: bind_split_asm)
  from scan_send_loop_sends [OF assms(2,4) loop] have sent: "ok" "tot = entry_total ?es"
    "SendErr \<notin> set (answers so)" "send_all hsed_send_line (sk c) (map entry_text ?es) = Some (0, so)" by auto
  have "length ?last < 2047"
    using length_end_line [of "l_count l"] length_show_size_t [OF assms(3)]
    by simp
  then have "hsed_send_line so ?last = Some (0, sk c')"
    using reply_sends [of "c\<lparr>sk := so\<rparr>" ?last c'] tail sent(1,2,3) by simp
  then have "send_all hsed_send_line (sk c) (map entry_text ?es @ [?last]) = Some (0, sk c')"
    by (simp add: send_all_append sent(4))
  then show ?thesis
    by (rule sock_line.send_all_lines) (use assms(2,5) entry_ok_line end_line_chars in auto)
qed

text \<open>
  C11. The reply to SCAN: on a socket whose peer keeps reading, the complete lines the client sees
  are one JSON line per entry of the scan, in the order of the list, and then the end line with
  their number and the sum of their sizes.
\<close>

theorem handle_scan_reply:
  assumes "hsed_scan (kern M) (kst c) hsed_list_init min_size only_pid uid_filter threads = (0, l)"
    and "\<forall>e \<in> set (list_contents l). entry_ok e" and "l_count l < 2 ^ 64"
    and "SendErr \<notin> set (answers (sk c))" and "wire (sk c) = []"
    and "handle_scan M c min_size only_pid uid_filter threads = Some c'"
  shows "lines_of (wire (sk c')) =
    map entry_text (list_contents l) @ [end_line (l_count l) (entry_total (list_contents l))]"
  using assms by (rule handle_scan_lines)

lemma send_big:
  assumes "0 < length m" and "length m \<le> k" and "NUL \<notin> set m" and "answers so = Sent k # Sent k # as"
  shows "hsed_send_line so m = Some (0, \<lparr>answers = as, wire = wire so @ m @ [LF]\<rparr>)"
proof -
  have "send_loop m (length m + 1) as' out = Some (0, \<lparr>answers = as', wire = out\<rparr>)" for as' out
    by (cases as') simp_all
  moreover obtain k' where "k = Suc k'" using assms(1,2) by (cases k) auto
  ultimately show ?thesis using assms by (simp add: hsed_send_line_def cstr_id Let_def)
qed

text \<open>On the small machine every thread that is resumed appends a byte to the log.\<close>

definition demo_ptrace :: "tact \<Rightarrow> demo_state \<Rightarrow> demo_state" where
  "demo_ptrace a w = (case a of Resume t sig \<Rightarrow> (fst w + 1, snd w) | _ \<Rightarrow> w)"

definition demo_machine :: "(demo_state, x86_regs) machine" where
  "demo_machine = \<lparr>kern = demo_kernel, cpu = x86_64, scan_errno = (\<lambda>w. 12), ptrace_effect = demo_ptrace\<rparr>"

definition demo_conn :: "(demo_state, x86_regs) conn" where
  "demo_conn = \<lparr>kst = demo_w, sk = \<lparr>answers = [Sent 20000, Sent 20000, Sent 20000, Sent 20000], wire = []\<rparr>, sk_open = True, inbox = [], sessions = []\<rparr>"

lemma demo_entry_ok: "entry_ok (demo_entry 5000)"
  using demo_entry_wf [of 5000] by (simp add: entry_ok_def demo_entry_def is_c_int_def is_c_ll_def)

lemma length_demo_entry: "length (entry_text (demo_entry 5000)) \<le> 20000"
  using length_entry_text [of "demo_entry 5000"] demo_entry_ok
  by (auto simp: entry_ok_def LINEBUF_SIZE_def scan_consts)

lemma demo_scan_result:
  "\<exists>l. hsed_scan demo_kernel demo_w hsed_list_init 0 0 HSED_UID_ANY 4 = (0, l) \<and>
     list_contents l = [demo_entry 5000] \<and> l_count l = 1"
proof -
  obtain l where l: "hsed_scan demo_kernel demo_w hsed_list_init 0 0 HSED_UID_ANY 4 = (0, l)"
    using demo_scan_run by blast
  from hsed_scan_ok [OF _ _ l] have "list_contents l = [demo_entry 5000]" "list_inv l"
    by (auto simp: is_c_int_def demo_names all_entries_def demo_pid_names demo_pid_entries)
  moreover from this have "length (take (l_count l) (items l)) = 1" "l_count l \<le> length (items l)"
    by (simp_all add: list_inv_def list_contents_def)
  then have "l_count l = 1" by simp
  ultimately show ?thesis using l by blast
qed

lemma demo_handle_scan: "\<exists>c'. handle_scan demo_machine demo_conn 0 0 HSED_UID_ANY 4 = Some c'"
proof -
  obtain l where l: "hsed_scan demo_kernel demo_w hsed_list_init 0 0 HSED_UID_ANY 4 = (0, l)"
    "list_contents l = [demo_entry 5000]" "l_count l = 1" using demo_scan_result by blast
  have ne: "0 < length (entry_text (demo_entry 5000))" by (simp add: entry_text_def entry_line_def)
  have send1: "hsed_send_line (sk demo_conn) (entry_text (demo_entry 5000)) =
      Some (0, \<lparr>answers = [Sent 20000, Sent 20000], wire = entry_text (demo_entry 5000) @ [LF]\<rparr>)"
    using send_big [OF ne length_demo_entry entry_ok_line(3) [OF demo_entry_ok], of "sk demo_conn"]
    by (simp add: demo_conn_def)
  have len: "length (end_line 1 tot) < 2047" for tot by (rule length_end_line) (simp add: show_nat.simps)
  have "hsed_send_line \<lparr>answers = [Sent 20000, Sent 20000], wire = x\<rparr> (end_line 1 tot) =
      Some (0, \<lparr>answers = [], wire = x @ end_line 1 tot @ [LF]\<rparr>)" for x tot
    using send_big [of "end_line 1 tot" 20000 "\<lparr>answers = [Sent 20000, Sent 20000], wire = x\<rparr>"] end_line_chars len [of tot]
    by (simp add: end_line_def)
  then have "\<exists>so'. hsed_send_linef \<lparr>answers = [Sent 20000, Sent 20000], wire = x\<rparr> (end_line 1 tot) = Some (0, so')" for x tot
    using len [of tot] by (simp add: hsed_send_linef_def snprintf_fits)
  then obtain so' where fin: "hsed_send_linef \<lparr>answers = [Sent 20000, Sent 20000], wire = entry_text (demo_entry 5000) @ [LF]\<rparr>
      (end_line 1 (word_of_int (e_size (demo_entry 5000)))) = Some (0, so')" by blast
  define c' where "c' = demo_conn\<lparr>sk := so'\<rparr>"
  have "handle_scan demo_machine demo_conn 0 0 HSED_UID_ANY 4 = Some c'"
    using l send1 fin entry_ok_line(1) [OF demo_entry_ok]
    by (simp add: handle_scan_def demo_machine_def demo_conn_def reply_def c'_def)
  then show ?thesis by blast
qed

theorem handle_scan_reply_witness:
  "\<exists>c'. handle_scan demo_machine demo_conn 0 0 HSED_UID_ANY 4 = Some c' \<and>
     lines_of (wire (sk c')) = [entry_text (demo_entry 5000), end_line 1 5000]"
proof -
  obtain l where l: "hsed_scan demo_kernel demo_w hsed_list_init 0 0 HSED_UID_ANY 4 = (0, l)"
    "list_contents l = [demo_entry 5000]" "l_count l = 1" using demo_scan_result by blast
  obtain c' where run: "handle_scan demo_machine demo_conn 0 0 HSED_UID_ANY 4 = Some c'" using demo_handle_scan by blast
  have "lines_of (wire (sk c')) = map entry_text (list_contents l) @ [end_line (l_count l) (entry_total (list_contents l))]"
    using l run demo_entry_ok
    by (intro handle_scan_reply [of demo_machine demo_conn]) (auto simp: demo_machine_def demo_conn_def)
  with run l show ?thesis by (simp add: demo_entry_def)
qed

section \<open>Streamed writes\<close>

lemma stream_write_cb_eq:
  assumes "length buf \<le> 1452"
  shows "hsed_base64_encoded_len (length buf) \<le> 1937"
  using assms by (simp add: hsed_base64_encoded_len_def)

text \<open>The bytes of the line around the encoded data.\<close>

lemma length_write_line:
  assumes "is_c_int tid" and "is_c_ll ret" and "n < 10 ^ 5"
  shows "length (write_line tid ret n wv b64) \<le> 110 + length b64"
  using length_show_c_int [OF assms(1)] length_show_c_ll [OF assms(2)] length_show_nat [OF assms(3)]
  by (simp add: write_line_def)

lemma stream_write_cb_encodes:
  assumes "hsed_base64_encoded_len (length buf) \<le> 1024 \<or> k_realloc_ok (kern M) (kst c) (hsed_base64_encoded_len (length buf))"
  shows "stream_write_cb M tid ret buf wv c = reply c (write_line tid ret (length buf) wv (b64_enc buf))"
proof -
  have "\<exists>out. hsed_base64_encode buf (length buf) (replicate n NUL) = Some out \<and> cstr out = b64_enc buf"
    if "hsed_base64_encoded_len (length buf) \<le> n" for n
    using hsed_base64_encode_string [of "length buf" buf "replicate n NUL"] that by auto
  from this [of 1024] this [of "hsed_base64_encoded_len (length buf)"] show ?thesis
    using assms by (auto simp: stream_write_cb_def Let_def)
qed

lemma length_b64_enc_le: "length (b64_enc buf) + 1 = hsed_base64_encoded_len (length buf)"
  using length_b64_enc [of buf] by simp

text \<open>
  C27. A streamed write of up to 1452 captured bytes (the default limit is 200) reaches the client
  whole: when the encoding buffer can be had, the one line that is sent is the JSON record with
  the thread, the return value and the base-64 text, uncut by the 2048-byte line buffer, and that
  text decodes to the captured bytes.
\<close>

theorem stream_write_cb_whole:
  assumes "length buf \<le> 1452" and "is_c_int tid" and "is_c_ll ret"
    and "length buf > 765 \<longrightarrow> k_realloc_ok (kern M) (kst c) (hsed_base64_encoded_len (length buf))"
    and "SendErr \<notin> set (answers (sk c))"
    and "stream_write_cb M tid ret buf wv c = Some c'"
  shows "\<exists>b64. b64_dec b64 = Some buf \<and>
    wire (sk c') = wire (sk c) @ write_line tid ret (length buf) wv b64 @ [LF]"
proof -
  let ?m = "write_line tid ret (length buf) wv (b64_enc buf)"
  have "hsed_base64_encoded_len (length buf) \<le> 1024" if "length buf \<le> 765"
    using div_le_mono [of "length buf + 2" 767 3] that by (simp add: hsed_base64_encoded_len_def)
  then have enc: "reply c ?m = Some c'"
    using stream_write_cb_encodes [of buf M c tid ret wv] assms(4,6) by (metis not_le)
  have "length (b64_enc buf) \<le> 1936"
    using length_b64_enc_le [of buf] stream_write_cb_eq [OF assms(1)] by simp
  then have len: "length ?m < 2048"
    using length_write_line [OF assms(2,3), of "length buf" wv "b64_enc buf"] assms(1) by simp
  have "hsed_send_line (sk c) ?m = Some (0, sk c')" using reply_sends [OF enc len assms(5)] by simp
  moreover have "NUL \<notin> set ?m"
    using show_nat_word(2) show_int_word(3) b64_enc_no_nul [of buf] by (auto simp: write_line_def)
  ultimately have "wire (sk c') = wire (sk c) @ ?m @ [LF]" by (rule sock_line.send_ok)
  then show ?thesis using b64_dec_enc by blast
qed

lemma write_line_split:
  "\<exists>body. write_line tid ret n wv b64 = body @ b64 @ [QUOTE, CHR ''}''] \<and> NUL \<notin> set body"
proof -
  let ?body = "''{\"type\":\"write\",\"tid\":'' @ show_int tid @ '',\"ret\":'' @ show_int ret @
     '',\"captured\":'' @ show_nat n @ '',\"is_writev\":'' @ (if wv then ''true'' else ''false'') @ '',\"data_b64\":\"''"
  have "write_line tid ret n wv b64 = ?body @ b64 @ [QUOTE, CHR ''}'']" by (simp add: write_line_def)
  moreover have "NUL \<notin> set ?body"
    using show_nat_word(2) show_int_word(3) by auto
  ultimately show ?thesis by blast
qed

text \<open>
  C28. Beyond that the line buffer cuts: for a capture of 1536 bytes or more (the tracer allows
  65536), when the encoding buffer can be had, what is sent is the record \<open>write_line\<close> up to and
  including a proper prefix of its base-64 text, 2047 bytes in all; the rest of the text (which
  alone decodes to the captured bytes), the closing quote and the brace never reach the client.
\<close>

theorem stream_write_cb_cut:
  assumes "1536 \<le> length buf" and "length buf \<le> 65536" and "is_c_int tid" and "is_c_ll ret"
    and "k_realloc_ok (kern M) (kst c) (hsed_base64_encoded_len (length buf))"
    and "SendErr \<notin> set (answers (sk c))" and "stream_write_cb M tid ret buf wv c = Some c'"
  shows "\<exists>b64 pre k. b64_dec b64 = Some buf \<and>
    write_line tid ret (length buf) wv b64 = pre @ b64 @ [QUOTE, CHR ''}''] \<and>
    k < length b64 \<and> length (pre @ take k b64) = 2047 \<and>
    wire (sk c') = wire (sk c) @ pre @ take k b64 @ [LF]"
proof -
  let ?b = "b64_enc buf"
  let ?m = "write_line tid ret (length buf) wv ?b"
  obtain pre where m: "?m = pre @ ?b @ [QUOTE, CHR ''}'']" and nul: "NUL \<notin> set pre"
    using write_line_split by blast
  have pre: "length pre \<le> 108"
    using length_write_line [OF assms(3,4), of "length buf" wv ?b] assms(2) m by simp
  have b64: "2048 \<le> length ?b"
    using length_b64_enc_le [of buf] div_le_mono [of 1538 "length buf + 2" 3] assms(1)
    by (simp add: hsed_base64_encoded_len_def)
  let ?k = "2047 - length pre"
  have cut: "snprintf 2048 ?m = pre @ take ?k ?b" and len: "length (pre @ take ?k ?b) = 2047" and k: "?k < length ?b"
    unfolding m using pre b64 by (simp_all add: snprintf_def)
  have "stream_write_cb M tid ret buf wv c = reply c ?m" by (rule stream_write_cb_encodes) (simp add: assms(5))
  then obtain r where "hsed_send_line (sk c) (pre @ take ?k ?b) = Some (r, sk c')"
    using assms(7) by (auto simp: reply_def hsed_send_linef_def cut split: bind_split_asm)
  then have "hsed_send_line (sk c) (pre @ take ?k ?b) = Some (0, sk c')"
    using hsed_send_line_no_err [OF assms(6)] by blast
  moreover have "NUL \<notin> set (pre @ take ?k ?b)" using nul b64_enc_no_nul [of buf] by (auto dest: in_set_takeD)
  ultimately have "wire (sk c') = wire (sk c) @ (pre @ take ?k ?b) @ [LF]" by (rule sock_line.send_ok)
  then show ?thesis using m len k b64_dec_enc [of buf] by (metis append_assoc)
qed

text \<open>A number that is not one: \<open>atol\<close> gives 0, so the signal goes to the daemon's own process group.\<close>

lemma kill_without_number:
  assumes "strtol_raw 10 s = None" and "s \<noteq> []" and "set s \<inter> WS = {}" and "NUL \<notin> set s"
  shows "handle_command M args (''KILL '' @ s) c = map_option (Pair False) (handle_kill M c 0)"
proof -
  have "tokens (join_sp [''KILL'', s]) = [''KILL'', s]"
    using assms by (intro tokens_join) (auto simp: WS_def)
  moreover have "join_sp [''KILL'', s] = ''KILL '' @ s" by simp
  moreover have "cstr (''KILL '' @ s) = ''KILL '' @ s" using assms(4) by (simp add: cstr_id)
  moreover have "map tolower ''KILL'' = ''kill''" by code_simp
  moreover have "atol s = 0" using assms(1) by (simp add: atol_def strtol_def)
  ultimately show ?thesis
    by (simp add: handle_command_eq request_of_def run_request_def Let_def c_int_def del: list.map join_sp.simps)
qed

section \<open>Accepted connections\<close>

text \<open>The turns before the loop is left.\<close>

fun live_turns :: "srv_turn list \<Rightarrow> srv_turn list" where
  "live_turns [] = []"
| "live_turns (t # ts) =
     (if shutdown_flag t \<or> (\<exists>e. polled t = SrvPollErr e \<and> e \<noteq> EINTR) then [] else t # live_turns ts)"

definition accepted_fds :: "srv_turn list \<Rightarrow> nat list" where
  "accepted_fds ts = concat (map (\<lambda>t. case polled t of SrvReady (Accepted fd m e) \<Rightarrow> [fd] | _ \<Rightarrow> []) ts)"

fun disposed_fd :: "srv_act \<Rightarrow> nat list" where
  "disposed_fd (SrvSpawn a) = [sockfd a]"
| "disposed_fd (SrvClose fd) = [fd]"
| "disposed_fd _ = []"

lemma srv_loop_disposes:
  "concat (map disposed_fd (fst (srv_loop strerr capture threads ts))) = accepted_fds (live_turns ts)"
proof (induction ts)
  case (Cons t ts)
  have one: "concat (map disposed_fd (accept_one strerr capture threads a)) =
      (case a of Accepted fd m e \<Rightarrow> [fd] | AcceptErr e \<Rightarrow> [])" for a
    by (auto simp: accept_one_def split: accept_ans.split option.split)
  show ?case
    using Cons one by (cases "polled t") (auto simp: accepted_fds_def split: prod.split accept_ans.split)
qed (simp add: accepted_fds_def)

lemma srv_loop_configures:
  "SrvSpawn a \<in> set (fst (srv_loop strerr capture threads ts)) \<Longrightarrow> max_capture a = capture \<and> scan_threads a = threads"
proof (induction ts)
  case (Cons t ts)
  then show ?case
    by (cases "polled t") (auto simp: accept_one_def split: prod.split_asm accept_ans.split_asm option.split_asm if_split_asm)
qed simp

text \<open>
  C34. The accept loop neither loses nor duplicates a connection: until shutdown or a fatal poll
  error, every accepted descriptor is, in order and exactly once, either handed to a handler
  thread with the configured limits or closed; accept errors, timeouts and interrupts stop nothing.
\<close>

theorem srv_loop_disposes_each:
  "concat (map disposed_fd (fst (srv_loop strerr capture threads ts))) = accepted_fds (live_turns ts) \<and>
   list_all (\<lambda>a. case a of SrvSpawn x \<Rightarrow> max_capture x = capture \<and> scan_threads x = threads | _ \<Rightarrow> True)
     (fst (srv_loop strerr capture threads ts))"
  using srv_loop_disposes srv_loop_configures by (auto simp: list_all_iff split: srv_act.split)

lemma unlink_last:
  assumes "acts = b @ SrvUnlink p # a" and "SrvBind q \<in> set b" and "set a \<subseteq> X"
  shows "\<exists>before after. acts = before @ SrvUnlink p # after \<and> SrvBind q \<in> set before \<and> set after \<subseteq> X"
  using assms by blast

text \<open>
  C35. \<open>hsed_server_run\<close> cleans up: whenever it returns after the socket was created, the listening
  descriptor has been closed, and if \<open>bind\<close> succeeded, the path the server was given has been
  unlinked after it, with nothing done to it later. The path that was bound is the first 107 bytes
  of the given one, so it is the path unlinked exactly when the given path is shorter than 108
  bytes. The result is 0 exactly when both \<open>bind\<close> and \<open>listen\<close> succeeded.
\<close>

theorem hsed_server_run_cleans_up:
  assumes "hsed_server_run strerr E path capture threads = (Some r, acts)" and "socket_ans E = Inr fd"
    and "NUL \<notin> set path"
  shows "SrvClose fd \<in> set acts \<and> (bind_err E = None \<longrightarrow>
    (\<exists>before after bound. acts = before @ SrvUnlink path # after \<and> SrvBind bound \<in> set before \<and>
      bound = take 107 path \<and> (bound = path \<longleftrightarrow> length path < 108) \<and>
      set after \<subseteq> {SrvLog ''shut down''})) \<and> (r = 0 \<longleftrightarrow> bind_err E = None \<and> listen_err E = None)"
proof -
  have bound: "strlcpy_val 108 path = take 107 path" "take 107 path = path \<longleftrightarrow> length path < 108"
    using assms(3) by (auto simp: strlcpy_val_def cstr_id take_all_iff)
  obtain dst n where cpy: "hsed_strlcpy (replicate SUN_PATH_SIZE NUL) path SUN_PATH_SIZE = Some (n, dst)"
    and dst: "cstr dst = strlcpy_val 108 path"
    using hsed_strlcpy_result [of "replicate SUN_PATH_SIZE NUL" SUN_PATH_SIZE path] by (auto simp: SUN_PATH_SIZE_def)
  obtain acts1 fin where loop: "srv_loop strerr capture threads (turns E) = (acts1, fin)" by force
  note run = assms(1) [unfolded hsed_server_run_def assms(2) sum.case Let_def cpy option.case prod.case dst loop]
  show ?thesis
  proof (cases "bind_err E")
    case (Some e)
    then show ?thesis using run by auto
  next
    case None
    show ?thesis
    proof (cases "listen_err E")
      case (Some e)
      let ?b = "[SrvUnlink path, SrvBind (strlcpy_val 108 path), SrvChmod path 384, SrvListen fd,
          SrvLogErr (''listen() failed: '' @ strerr e), SrvClose fd]"
      have acts: "r = - 1" "acts = ?b @ SrvUnlink path # []" using None Some run by auto
      from unlink_last [OF acts(2)] show ?thesis using acts Some bound by auto
    next
      case listen: None
      let ?b = "[SrvUnlink path, SrvBind (strlcpy_val 108 path), SrvChmod path 384, SrvListen fd,
          SrvLog (''listening on '' @ path)] @ acts1 @ [SrvClose fd]"
      have acts: "r = 0" "acts = ?b @ SrvUnlink path # [SrvLog ''shut down'']"
        using None listen run by (auto split: if_split_asm)
      from unlink_last [OF acts(2)] show ?thesis using acts None listen bound by auto
    qed
  qed
qed

section \<open>Concrete instances\<close>

lemma reply_demo:
  assumes "msg \<noteq> []" and "NUL \<notin> set msg" and "sk c = \<lparr>answers = Sent 20000 # Sent 20000 # as, wire = out\<rparr>"
  shows "reply c msg = Some (c\<lparr>sk := \<lparr>answers = as, wire = out @ snprintf 2048 msg @ [LF]\<rparr>\<rparr>)"
proof -
  have "0 < length (snprintf 2048 msg)" "length (snprintf 2048 msg) \<le> 20000" "NUL \<notin> set (snprintf 2048 msg)"
    using assms(1,2) by (auto simp: snprintf_def dest: in_set_takeD)
  from send_big [OF this, of "sk c" as] show ?thesis by (simp add: reply_def hsed_send_linef_def assms(3))
qed

lemma write_line_no_nul: "NUL \<notin> set (write_line tid ret n wv (b64_enc buf))" "write_line tid ret n wv b64 \<noteq> []"
  using show_nat_word(2) show_int_word(3) b64_enc_no_nul [of buf] by (auto simp: write_line_def)

lemma demo_write:
  "\<exists>c'. stream_write_cb demo_machine tid ret buf wv demo_conn = Some c'"
proof -
  have "stream_write_cb demo_machine tid ret buf wv demo_conn =
      reply demo_conn (write_line tid ret (length buf) wv (b64_enc buf))"
    by (rule stream_write_cb_encodes) (simp add: demo_machine_def)
  also have "\<dots> \<noteq> None"
    by (subst reply_demo [where as = "[Sent 20000, Sent 20000]" and out = "[]"]) (simp_all add: write_line_no_nul demo_conn_def)
  finally show ?thesis by simp
qed

theorem stream_write_cb_whole_witness:
  "\<exists>c' b64. stream_write_cb demo_machine 42 3 [104, 105, 10] False demo_conn = Some c' \<and>
     b64_dec b64 = Some [104, 105, 10] \<and> wire (sk c') = write_line 42 3 3 False b64 @ [LF]"
proof -
  obtain c' where run: "stream_write_cb demo_machine 42 3 [104, 105, 10] False demo_conn = Some c'"
    using demo_write by blast
  have "\<exists>b64. b64_dec b64 = Some [104, 105, 10] \<and>
      wire (sk c') = wire (sk demo_conn) @ write_line 42 3 (length [104 :: byte, 105, 10]) False b64 @ [LF]"
    by (rule stream_write_cb_whole [OF _ _ _ _ _ run]) (simp_all add: is_c_int_def is_c_ll_def demo_conn_def)
  with run show ?thesis by (auto simp: demo_conn_def numeral_3_eq_3)
qed

theorem stream_write_cb_cut_witness:
  "\<exists>c' b64 pre k. stream_write_cb demo_machine 42 1536 (replicate 1536 0) False demo_conn = Some c' \<and>
     b64_dec b64 = Some (replicate 1536 0) \<and> write_line 42 1536 1536 False b64 = pre @ b64 @ [QUOTE, CHR ''}''] \<and>
     k < length b64 \<and> length (pre @ take k b64) = 2047 \<and> wire (sk c') = pre @ take k b64 @ [LF]"
proof -
  let ?buf = "replicate 1536 (0 :: byte)"
  obtain c' where run: "stream_write_cb demo_machine 42 1536 ?buf False demo_conn = Some c'"
    using demo_write by blast
  have "\<exists>b64 pre k. b64_dec b64 = Some ?buf \<and>
      write_line 42 1536 (length ?buf) False b64 = pre @ b64 @ [QUOTE, CHR ''}''] \<and> k < length b64 \<and>
      length (pre @ take k b64) = 2047 \<and> wire (sk c') = wire (sk demo_conn) @ pre @ take k b64 @ [LF]"
    by (rule stream_write_cb_cut [OF _ _ _ _ _ _ run]) (simp_all add: demo_machine_def demo_conn_def is_c_int_def is_c_ll_def)
  then have "\<exists>b64 pre k. b64_dec b64 = Some ?buf \<and>
      write_line 42 1536 1536 False b64 = pre @ b64 @ [QUOTE, CHR ''}''] \<and> k < length b64 \<and>
      length (pre @ take k b64) = 2047 \<and> wire (sk c') = pre @ take k b64 @ [LF]"
    unfolding length_replicate by (simp only: demo_conn_def conn.simps sock.simps append_Nil)
  with run show ?thesis by blast
qed

definition demo_args :: conn_args_t where
  "demo_args = \<lparr>sockfd = 4, max_capture = 200, scan_threads = 4\<rparr>"

lemma demo_kill:
  "handle_kill demo_machine (c\<lparr>kst := demo_w\<rparr>) 42 = reply (c\<lparr>kst := demo_w\<rparr>) ''{\"type\":\"result\",\"ok\":true}''"
  by (simp add: handle_kill_def hsed_send_signal_def demo_machine_def demo_kernel_acts)

theorem conn_loop_executes_request_witness:
  "\<exists>c'. conn_loop demo_machine demo_args (demo_conn\<lparr>inbox := map RecvByte ''KILL 42'' @ RecvByte LF # [RecvEOF]\<rparr>) = Some c' \<and>
     wire (sk c') = ''{\"type\":\"result\",\"ok\":true}'' @ [LF]"
proof -
  let ?c = "demo_conn\<lparr>inbox := map RecvByte ''KILL 42'' @ RecvByte LF # [RecvEOF]\<rparr>"
  have words: "join_sp (request_words (R_kill 42)) = ''KILL 42''" by code_simp
  have "conn_loop demo_machine demo_args ?c =
      (case run_request demo_machine demo_args (R_kill 42) (?c\<lparr>inbox := [RecvEOF]\<rparr>) of
         None \<Rightarrow> None | Some (True, c') \<Rightarrow> Some c' | Some (False, c') \<Rightarrow> conn_loop demo_machine demo_args c')"
    by (rule conn_loop_executes_request [where as = "map RecvByte ''KILL 42''"])
      (simp_all add: request_ok_def is_c_int_def words del: list.map)
  also have "run_request demo_machine demo_args (R_kill 42) (?c\<lparr>inbox := [RecvEOF]\<rparr>) =
      Some (False, ?c\<lparr>inbox := [RecvEOF], sk := \<lparr>answers = [Sent 20000, Sent 20000],
        wire = ''{\"type\":\"result\",\"ok\":true}'' @ [LF]\<rparr>\<rparr>)"
    using demo_kill [of "?c\<lparr>inbox := [RecvEOF]\<rparr>"]
      reply_demo [where c = "?c\<lparr>inbox := [RecvEOF]\<rparr>" and msg = "''{\"type\":\"result\",\"ok\":true}''" and out = "[]" and as = "[Sent 20000, Sent 20000]"]
    by (simp add: run_request_def demo_conn_def snprintf_def)
  finally show ?thesis
    by (simp add: conn_loop.simps recv_line_def)
qed

text \<open>A client that asks to stop at the first poll: both threads are attached and let go again.\<close>

definition demo_stream :: "(x86_regs, poll_ans) session" where
  "demo_stream = \<lparr>attach_of = demo_attach, list_errno = 0, seize_errno = 0, malloc_ok = True,
     int_ok_of = (\<lambda>t. True), events = [W_idle (PollData ''STOP'')]\<rparr>"

lemma demo_seize: "seize_loop (\<lambda>n. 0) t 5 0 = (True, [Seize t])"
  by (simp add: eval_nat_numeral)

lemma demo_streamed:
  "hsed_trace_fd x86_64 demo_kernel demo_w stream_poll_cb demo_stream 42 3 200 256 =
   (Some 0, [], [Seize 42, Interrupt 42, WaitFor 42, Resume 42 0, Seize 43, Interrupt 43, WaitFor 43, Resume 43 0,
     AttachedCb, PollCb, Interrupt 42, WaitFor 42, Detach 42, Interrupt 43, WaitFor 43, Detach 43])"
proof -
  have "attach_all demo_attach [42, 43] [] = ([fresh_tid 42, fresh_tid 43],
      [Seize 42, Interrupt 42, WaitFor 42, Resume 42 0, Seize 43, Interrupt 43, WaitFor 43, Resume 43 0])"
    by (simp add: attach_one_def demo_attach_def demo_seize demo_status find_or_add_tid_def MAX_TRACKED_TIDS_def)
  moreover have "stream_poll_cb (PollData ''STOP'') = False" by code_simp
  ultimately show ?thesis
    by (simp add: hsed_trace_fd_def demo_discover demo_stream_def trace_step_def detach_all_def del: attach_all.simps)
qed

lemma demo_handle_stream:
  "\<exists>c'. handle_stream demo_machine (demo_conn\<lparr>sessions := [demo_stream]\<rparr>) 42 3 200 = Some c'"
proof -
  have "stream_attached_cb sc c = Some (c\<lparr>sk := \<lparr>answers = as, wire = out @ snprintf 2048 (''{\"type\":\"attached\",\"pid\":'' @ show_int (sc_pid sc) @ '',\"fd\":'' @ show_int (sc_fd sc) @ ''}'') @ [LF]\<rparr>\<rparr>)"
    if "sk c = \<lparr>answers = Sent 20000 # Sent 20000 # as, wire = out\<rparr>" for c :: "(demo_state, x86_regs) conn" and as out sc
    unfolding stream_attached_cb_def using that by (intro reply_demo) (simp_all add: show_int_word)
  moreover have "reply c ''{\"type\":\"stream_end\"}'' \<noteq> None"
    if "sk c = \<lparr>answers = Sent 20000 # Sent 20000 # as, wire = out\<rparr>" for c :: "(demo_state, x86_regs) conn" and as out
    using reply_demo [OF _ _ that, of "''{\"type\":\"stream_end\"}''"] by simp
  ultimately show ?thesis
    by (simp add: handle_stream_def demo_machine_def demo_conn_def demo_streamed)
qed

lemma demo_stream_request:
  "request_of (tokens (cstr ''STREAM 42 3'')) = R_stream 42 3"
proof -
  have "join_sp (request_words (R_stream 42 3)) = ''STREAM 42 3''" by code_simp
  with request_line [of "R_stream 42 3"] show ?thesis by (simp add: request_ok_def is_c_int_def)
qed

theorem handle_command_effect_witness:
  "(\<exists>c'. handle_command demo_machine demo_args ''truncate 42 3'' demo_conn = Some (False, c') \<and> kst c' = (0, [])) \<and>
   (\<exists>c'. handle_command demo_machine demo_args ''STREAM 42 3'' (demo_conn\<lparr>sessions := [demo_stream]\<rparr>) = Some (False, c') \<and>
     kst c' = (5002, []))"
proof
  let ?c = "demo_conn\<lparr>sessions := [demo_stream]\<rparr>"
  obtain c' where run: "handle_command demo_machine demo_args ''STREAM 42 3'' ?c = Some (False, c')"
    unfolding handle_command_eq demo_stream_request using demo_handle_stream by (auto simp: run_request_def demo_args_def)
  from handle_command_effect [OF run] have "kst c' = (5002, [])"
    unfolding demo_stream_request
    by (simp add: stream_requests_def demo_args_def demo_machine_def demo_conn_def demo_streamed demo_ptrace_def)
  with run show "\<exists>c'. handle_command demo_machine demo_args ''STREAM 42 3'' ?c = Some (False, c') \<and> kst c' = (5002, [])" by auto
next
  have t: "hsed_truncate_fd demo_kernel demo_w 42 3 256 = ((0, []), Inr 5000)" by code_simp
  have j: "join_sp [''truncate'', ''42'', ''3''] = ''truncate 42 3''" by simp
  have "tokens (join_sp [''truncate'', ''42'', ''3'']) = [''truncate'', ''42'', ''3'']"
    by (rule tokens_join) (simp add: WS_def)
  moreover have "request_of [''truncate'', ''42'', ''3''] = R_truncate 42 3" by code_simp
  ultimately have r: "request_of (tokens (cstr ''truncate 42 3'')) = R_truncate 42 3"
    unfolding j by (simp add: cstr_id)
  have "handle_truncate demo_machine demo_conn 42 3 =
      reply (demo_conn\<lparr>kst := (0, [])\<rparr>) (''{\"type\":\"result\",\"ok\":true,\"freed\":'' @ show_int 5000 @ ''}'')"
    using t by (simp add: handle_truncate_def demo_machine_def demo_conn_def)
  also have "\<dots> \<noteq> None"
    by (subst reply_demo [where as = "[Sent 20000, Sent 20000]" and out = "[]"]) (simp_all add: demo_conn_def show_int_word)
  finally obtain c' where "handle_truncate demo_machine demo_conn 42 3 = Some c'" by blast
  then have run: "handle_command demo_machine demo_args ''truncate 42 3'' demo_conn = Some (False, c')"
    unfolding handle_command_eq r by (simp add: run_request_def)
  from handle_command_effect [OF run] run
  show "\<exists>c'. handle_command demo_machine demo_args ''truncate 42 3'' demo_conn = Some (False, c') \<and> kst c' = (0, [])"
    unfolding r using t by (simp add: demo_machine_def demo_conn_def)
qed

theorem hsed_server_run_cleans_up_witness:
  "\<exists>acts. hsed_server_run (\<lambda>e. []) \<lparr>socket_ans = Inr 3, bind_err = None, listen_err = None,
      turns = [\<lparr>shutdown_flag = False, polled = SrvReady (Accepted 7 True None)\<rparr>, \<lparr>shutdown_flag = True, polled = SrvTimeout\<rparr>]\<rparr>
      ''/run/hsed.sock'' 200 0 = (Some 0, acts) \<and> SrvClose 3 \<in> set acts \<and>
     (\<exists>before after. acts = before @ SrvUnlink ''/run/hsed.sock'' # after \<and> SrvBind ''/run/hsed.sock'' \<in> set before)"
proof -
  let ?E = "\<lparr>socket_ans = Inr 3, bind_err = None, listen_err = None,
      turns = [\<lparr>shutdown_flag = False, polled = SrvReady (Accepted 7 True None)\<rparr>, \<lparr>shutdown_flag = True, polled = SrvTimeout\<rparr>]\<rparr>"
  obtain acts where run: "hsed_server_run (\<lambda>e. []) ?E ''/run/hsed.sock'' 200 0 = (Some 0, acts)"
    by (auto simp: hsed_server_run_def Let_def)
  from hsed_server_run_cleans_up [OF run] have "SrvClose 3 \<in> set acts"
    "\<exists>before after. acts = before @ SrvUnlink ''/run/hsed.sock'' # after \<and> SrvBind ''/run/hsed.sock'' \<in> set before"
    by auto
  with run show ?thesis by blast
qed

end
