(* ===== verification/Hsed_Daemon.thy ===== *)
theory Hsed_Daemon
  imports Hsed_Requests
begin

text \<open>
  \<open>hsed.c\<close>: the command line, the one-shot modes, becoming a daemon, the pid file and \<open>main\<close>. What
  the process does is a list of actions; what the system answers is a record.
\<close>

section \<open>The command line\<close>

definition DEFAULT_MAX_CAPTURE :: nat where "DEFAULT_MAX_CAPTURE = 200"
definition HSED_SCAN_THREADS_AUTO :: int where "HSED_SCAN_THREADS_AUTO = 0"

record options =
  o_foreground :: bool
  o_scan_once :: bool
  o_stats_once :: bool
  o_socket_path :: "string option"
  o_pidfile :: string
  o_max_capture :: nat
  o_min_size :: int
  o_uid_filter :: uid_t
  o_scan_threads :: int

definition default_options :: options where
  "default_options =
     \<lparr>o_foreground = False, o_scan_once = False, o_stats_once = False, o_socket_path = None,
      o_pidfile = ''/run/hsed.pid'', o_max_capture = DEFAULT_MAX_CAPTURE, o_min_size = 0,
      o_uid_filter = HSED_UID_ANY, o_scan_threads = HSED_SCAN_THREADS_AUTO\<rparr>"

datatype parsed = Run options | Help | Unknown string

text \<open>The loop over \<open>argv[1..]\<close>; an option that takes a value is recognised only in front of one.\<close>

function parse_args :: "string list \<Rightarrow> options \<Rightarrow> parsed" where
  "parse_args [] opt = Run opt"
| "parse_args (a # rest) opt =
     (if a = ''--foreground'' then parse_args rest (opt\<lparr>o_foreground := True\<rparr>)
      else if a = ''--scan-once'' then parse_args rest (opt\<lparr>o_scan_once := True\<rparr>)
      else if a = ''--stats-once'' then parse_args rest (opt\<lparr>o_stats_once := True\<rparr>)
      else if a = ''--socket'' \<and> rest \<noteq> [] then parse_args (tl rest) (opt\<lparr>o_socket_path := Some (hd rest)\<rparr>)
      else if a = ''--pidfile'' \<and> rest \<noteq> [] then parse_args (tl rest) (opt\<lparr>o_pidfile := hd rest\<rparr>)
      else if a = ''--max-capture'' \<and> rest \<noteq> []
        then parse_args (tl rest) (opt\<lparr>o_max_capture := unat (strtoul (hd rest))\<rparr>)
      else if a = ''--min-size'' \<and> rest \<noteq> []
        then parse_args (tl rest) (opt\<lparr>o_min_size := fst (strtol 10 (hd rest))\<rparr>)
      else if a = ''--uid'' \<and> rest \<noteq> []
        then parse_args (tl rest) (opt\<lparr>o_uid_filter := to_uid (strtoul (hd rest))\<rparr>)
      else if a = ''--scan-threads'' \<and> rest \<noteq> []
        then parse_args (tl rest) (opt\<lparr>o_scan_threads := atoi (hd rest)\<rparr>)
      else if a = ''--help'' \<or> a = ''-h'' then Help
      else Unknown a)"
  by pat_completeness auto
termination by (relation "measure (\<lambda>(as, opt). length as)") auto

declare parse_args.simps [simp del]

definition usage_text :: "string \<Rightarrow> string" where
  "usage_text prog =
     ''Usage: '' @ prog @ '' [--foreground] [--scan-once] [--stats-once] [--socket PATH] '' @
     ''[--pidfile PATH] [--max-capture N] [--min-size N] [--uid N] '' @ ''[--scan-threads N]'' @ [LF]"

section \<open>Actions and the system's answers\<close>

datatype act =
    Stdout string | Stderr string | Perror string | IgnoreSigpipe | CatchSignal int
  | Fork | Setsid | Umask nat | Chdir string | OpenNull | Dup2 int int | CloseFd int
  | LogEv log_event | WriteFile string string | Srv srv_act | UnlinkPid string

record ('w, 'r) host =
  h_machine :: "('w, 'r) machine"
  h_world :: 'w
  h_euid :: uid_t
  h_pid :: int
  h_fork1 :: int
  h_setsid :: int
  h_fork2 :: int
  h_devnull :: int
  h_pidfile_err :: "errno option"
  h_server :: srv_env

definition default_socket_path :: "uid_t \<Rightarrow> string" where
  "default_socket_path euid =
     (if euid = 0 then ''/run/hsed.sock''
      else snprintf 256 (''/tmp/hsed-'' @ show_nat (unat euid) @ ''.sock''))"

definition print_usage :: "string \<Rightarrow> act list" where
  "print_usage prog = [Stderr (usage_text prog)]"

section \<open>One-shot modes\<close>

text \<open>The loop of \<open>run_scan_once\<close>: the output and the total.\<close>

fun print_entries :: "hsed_entry_t list \<Rightarrow> ll \<Rightarrow> (act list \<times> ll) option" where
  "print_entries [] tot = Some ([], tot)"
| "print_entries (e # es) tot =
     do { linebuf \<leftarrow> hsed_format_entry e LINEBUF_SIZE;
          (acts, tot') \<leftarrow> print_entries es (tot + word_of_int (e_size e));
          Some (Stdout (linebuf @ [LF]) # acts, tot') }"

text \<open>The actions and the exit code, if the function exits.\<close>

definition run_scan_once :: "('w, 'r) host \<Rightarrow> int \<Rightarrow> uid_t \<Rightarrow> int \<Rightarrow> (act list \<times> int option) option" where
  "run_scan_once H min_size uid_filter threads =
     (let M = h_machine H; w = h_world H in
      case hsed_scan (kern M) w hsed_list_init min_size 0 uid_filter threads of (rc, l) \<Rightarrow>
        if rc \<noteq> 0 then
          Some ([Stderr (''scan failed: '' @ k_strerror (kern M) (scan_errno M w) @ [LF])], Some 1)
        else do { (acts, tot) \<leftarrow> print_entries (list_contents l) 0;
                  Some (acts @ [Stdout (end_line (l_count l) tot @ [LF])], None) })"

definition run_stats_once :: "('w, 'r) host \<Rightarrow> int \<Rightarrow> uid_t \<Rightarrow> int \<Rightarrow> act list \<times> int option" where
  "run_stats_once H min_size uid_filter threads =
     (let M = h_machine H; w = h_world H in
      case hsed_scan_stats (kern M) w stats_zero min_size uid_filter threads of (rc, s) \<Rightarrow>
        if rc \<noteq> 0 then
          ([Stderr (''stats scan failed: '' @ k_strerror (kern M) (scan_errno M w) @ [LF])], Some 1)
        else ([Stdout (stats_line s @ [LF])], None))"

section \<open>Becoming a daemon\<close>

definition daemonize :: "('w, 'r) host \<Rightarrow> act list \<times> int option" where
  "daemonize H =
     (if h_fork1 H < 0 then ([Fork, Perror ''fork''], Some 1)
      else if h_fork1 H > 0 then ([Fork], Some 0)
      else if h_setsid H < 0 then ([Fork, Setsid, Perror ''setsid''], Some 1)
      else if h_fork2 H < 0 then ([Fork, Setsid, Fork, Perror ''fork''], Some 1)
      else if h_fork2 H > 0 then ([Fork, Setsid, Fork], Some 0)
      else ([Fork, Setsid, Fork, Umask 0, Chdir ''/'', OpenNull] @
        (if h_devnull H \<ge> 0
         then [Dup2 (h_devnull H) 0, Dup2 (h_devnull H) 1, Dup2 (h_devnull H) 2] @
           (if h_devnull H > 2 then [CloseFd (h_devnull H)] else [])
         else []), None))"

definition write_pidfile :: "('w, 'r) host \<Rightarrow> log_state \<Rightarrow> string \<Rightarrow> act list" where
  "write_pidfile H lg path =
     (case h_pidfile_err H of
        Some e \<Rightarrow> map LogEv (hsed_log_err lg (''could not write pidfile '' @ path @ '': '' @
          k_strerror (kern (h_machine H)) e))
      | None \<Rightarrow> [WriteFile path (show_int (h_pid H) @ [LF])])"

section \<open>main\<close>

definition SIGINT :: int where "SIGINT = 2"
definition SIGTERM :: int where "SIGTERM = 15"

definition no_root_text :: string where
  "no_root_text =
     ''[!] Running without root: only your own processes are visible, '' @
     ''and truncate/signal/stream actions will fail with EPERM on '' @
     ''anything you don't own. Run with sudo for full coverage.'' @ [LF]"

text \<open>The part of \<open>main\<close> that runs the server, from the signal handlers on.\<close>

definition serve :: "('w, 'r) host \<Rightarrow> options \<Rightarrow> string \<Rightarrow> act list \<times> int option" where
  "serve H opt path =
     (let start = [IgnoreSigpipe, CatchSignal SIGTERM, CatchSignal SIGINT];
          run = (\<lambda>lg. map LogEv (hsed_log lg (''hsed starting (pid '' @ show_int (h_pid H) @ '', socket '' @ path @
            '', max_capture '' @ show_nat (o_max_capture opt) @ '', scan_threads '' @ show_int (o_scan_threads opt) @ '')'')));
          server = hsed_server_run (k_strerror (kern (h_machine H))) (h_server H) path (o_max_capture opt) (o_scan_threads opt);
          finish = (\<lambda>rc. if rc = 0 then 0 else 1)
      in if o_foreground opt then
           (case hsed_log_init False \<lparr>g_use_syslog = False\<rparr> of (lg, ev) \<Rightarrow>
              (start @ map LogEv ev @ run lg @ map Srv (snd server), map_option finish (fst server)))
         else (case daemonize H of
             (acts, Some code) \<Rightarrow> (start @ acts, Some code)
           | (acts, None) \<Rightarrow>
               (case hsed_log_init True \<lparr>g_use_syslog = False\<rparr> of (lg, ev) \<Rightarrow>
                  (start @ acts @ map LogEv ev @ write_pidfile H lg (o_pidfile opt) @ run lg @ map Srv (snd server) @
                     (case fst server of None \<Rightarrow> [] | Some rc \<Rightarrow> [UnlinkPid (o_pidfile opt)]),
                   map_option finish (fst server)))))"

text \<open>The actions and the exit code; no exit code while the server runs.\<close>

definition main :: "('w, 'r) host \<Rightarrow> string list \<Rightarrow> (act list \<times> int option) option" where
  "main H argv =
     (case parse_args (tl argv) default_options of
        Help \<Rightarrow> Some (print_usage (hd argv), Some 0)
      | Unknown a \<Rightarrow> Some (Stderr (''unknown argument: '' @ a @ [LF]) # print_usage (hd argv), Some 2)
      | Run opt \<Rightarrow>
          (let path = (case o_socket_path opt of Some p \<Rightarrow> p | None \<Rightarrow> default_socket_path (h_euid H)) in
           if o_scan_once opt then
             do { (acts, code) \<leftarrow> run_scan_once H (o_min_size opt) (o_uid_filter opt) (o_scan_threads opt);
                  Some (acts, Some (case code of Some n \<Rightarrow> n | None \<Rightarrow> 0)) }
           else if o_stats_once opt then
             (case run_stats_once H (o_min_size opt) (o_uid_filter opt) (o_scan_threads opt) of (acts, code) \<Rightarrow>
                Some (acts, Some (case code of Some n \<Rightarrow> n | None \<Rightarrow> 0)))
           else
             (case serve H opt path of (acts, code) \<Rightarrow>
                Some ((if h_euid H \<noteq> 0 then [Stderr no_root_text] else []) @ acts, code))))"

section \<open>The command line is read back\<close>

definition option_words :: "options \<Rightarrow> string list" where
  "option_words opt =
     (if o_foreground opt then [''--foreground''] else []) @
     (if o_scan_once opt then [''--scan-once''] else []) @
     (if o_stats_once opt then [''--stats-once''] else []) @
     (case o_socket_path opt of None \<Rightarrow> [] | Some p \<Rightarrow> [''--socket'', p]) @
     [''--pidfile'', o_pidfile opt, ''--max-capture'', show_nat (o_max_capture opt),
      ''--min-size'', show_int (o_min_size opt), ''--uid'', show_nat (unat (o_uid_filter opt)),
      ''--scan-threads'', show_int (o_scan_threads opt)]"

definition options_ok :: "options \<Rightarrow> bool" where
  "options_ok opt = (o_max_capture opt < 2 ^ 64 \<and> is_c_ll (o_min_size opt) \<and> is_c_int (o_scan_threads opt))"

lemma parse_flag [simp]:
  "parse_args (''--foreground'' # rest) opt = parse_args rest (opt\<lparr>o_foreground := True\<rparr>)"
  "parse_args (''--scan-once'' # rest) opt = parse_args rest (opt\<lparr>o_scan_once := True\<rparr>)"
  "parse_args (''--stats-once'' # rest) opt = parse_args rest (opt\<lparr>o_stats_once := True\<rparr>)"
  by (simp_all add: parse_args.simps(2))

lemma parse_value [simp]:
  "parse_args (''--socket'' # v # rest) opt = parse_args rest (opt\<lparr>o_socket_path := Some v\<rparr>)"
  "parse_args (''--pidfile'' # v # rest) opt = parse_args rest (opt\<lparr>o_pidfile := v\<rparr>)"
  "parse_args (''--max-capture'' # v # rest) opt = parse_args rest (opt\<lparr>o_max_capture := unat (strtoul v)\<rparr>)"
  "parse_args (''--min-size'' # v # rest) opt = parse_args rest (opt\<lparr>o_min_size := fst (strtol 10 v)\<rparr>)"
  "parse_args (''--uid'' # v # rest) opt = parse_args rest (opt\<lparr>o_uid_filter := to_uid (strtoul v)\<rparr>)"
  "parse_args (''--scan-threads'' # v # rest) opt = parse_args rest (opt\<lparr>o_scan_threads := atoi v\<rparr>)"
  by (simp_all add: parse_args.simps(2))

lemma parse_nothing [simp]: "parse_args [] opt = Run opt"
  by (simp add: parse_args.simps)

lemma strtol_c_ll: "is_c_ll m \<Longrightarrow> fst (strtol 10 (show_int m)) = m"
  using atoll_c_ll [of m] by (simp add: atoll_def)

text \<open>
  C37. Every setting can be given on the command line and arrives as given: for any options with
  values in the range of their C types (the 64-bit capture limit and minimum size, the 32-bit
  thread count and user id), writing them out and parsing them yields those options.
\<close>

theorem parse_args_roundtrip:
  assumes "options_ok opt"
  shows "parse_args (option_words opt) default_options = Run opt"
proof -
  have "unat (strtoul (show_nat (o_max_capture opt))) = o_max_capture opt"
    using assms by (simp add: options_ok_def strtoul_show_nat unat_of_nat)
  then show ?thesis
    using assms
    by (cases opt) (auto simp: option_words_def default_options_def options_ok_def strtol_c_ll show_nat_uid
      atoi_c_int split: option.split)
qed

theorem parse_args_roundtrip_witness:
  "parse_args (option_words (default_options\<lparr>o_scan_once := True, o_min_size := 4096, o_uid_filter := 1000\<rparr>)) default_options
   = Run (default_options\<lparr>o_scan_once := True, o_min_size := 4096, o_uid_filter := 1000\<rparr>)"
  by (rule parse_args_roundtrip)
    (simp add: options_ok_def default_options_def is_c_ll_def is_c_int_def DEFAULT_MAX_CAPTURE_def HSED_SCAN_THREADS_AUTO_def)

section \<open>The one-shot scan\<close>

lemma print_entries_ok:
  "\<forall>e \<in> set es. entry_ok e \<Longrightarrow>
   print_entries es tot = Some (map (\<lambda>e. Stdout (entry_text e @ [LF])) es, tot + entry_total es)"
  by (induction es arbitrary: tot) (auto simp: entry_ok_line ac_simps)

text \<open>
  C36. \<open>--scan-once\<close> prints what SCAN would send: when a SCAN of the whole machine with the same
  state, filters and thread count is answered on a socket whose peer keeps reading, the standard
  output of \<open>--scan-once\<close> is, line by line, the reply of \<open>handle_scan\<close>, and the process exits with 0.
  When the scan fails, it prints nothing but the reason on standard error and exits with 1.
\<close>

theorem scan_once_prints_scan:
  assumes "parse_args args default_options = Run opt" and "o_scan_once opt"
    and "hsed_scan (kern (h_machine H)) (h_world H) hsed_list_init (o_min_size opt) 0 (o_uid_filter opt) (o_scan_threads opt) = (rc, l)"
    and "\<forall>e \<in> set (list_contents l). entry_ok e" and "l_count l < 2 ^ 64"
    and "kst c = h_world H" and "SendErr \<notin> set (answers (sk c))" and "wire (sk c) = []"
    and "handle_scan (h_machine H) c (o_min_size opt) 0 (o_uid_filter opt) (o_scan_threads opt) = Some c'"
  shows "main H (prog # args) = Some (if rc = 0
    then (map (\<lambda>m. Stdout (m @ [LF])) (lines_of (wire (sk c'))), Some 0)
    else ([Stderr (''scan failed: '' @ k_strerror (kern (h_machine H)) (scan_errno (h_machine H) (h_world H)) @ [LF])], Some 1))"
proof (cases "rc = 0")
  case True
  with assms have "lines_of (wire (sk c')) =
      map entry_text (list_contents l) @ [end_line (l_count l) (entry_total (list_contents l))]"
    by (intro handle_scan_lines) simp_all
  then show ?thesis using assms True by (simp add: main_def run_scan_once_def Let_def print_entries_ok)
next
  case False
  then show ?thesis using assms by (simp add: main_def run_scan_once_def Let_def)
qed

text \<open>The default socket path is short enough to be bound as it is.\<close>

lemma default_socket_path_bound: "strlcpy_val SUN_PATH_SIZE (default_socket_path euid) = default_socket_path euid"
proof -
  have "length (show_nat (unat euid)) \<le> 10" by (rule length_show_u32)
  then have "length (default_socket_path euid) < 108" and "NUL \<notin> set (default_socket_path euid)"
    using show_nat_word(2) [of "unat euid"] by (auto simp: default_socket_path_def snprintf_def dest: in_set_takeD)
  then show ?thesis by (simp add: SUN_PATH_SIZE_def strlcpy_val_id)
qed

section \<open>The pid file\<close>

fun touches_pidfile :: "act \<Rightarrow> bool" where
  "touches_pidfile (WriteFile p s) = True"
| "touches_pidfile (UnlinkPid p) = True"
| "touches_pidfile _ = False"

lemma no_pidfile_acts [simp]:
  "filter touches_pidfile (map LogEv xs) = []" "filter touches_pidfile (map Srv ys) = []"
  "filter touches_pidfile (fst (daemonize H)) = []"
  by (auto simp: filter_empty_conv daemonize_def)

text \<open>Only the process in which both forks answered 0 comes back from \<open>daemonize\<close>.\<close>

lemma daemonize_stays: "snd (daemonize H) = None \<longleftrightarrow> h_fork1 H = 0 \<and> 0 \<le> h_setsid H \<and> h_fork2 H = 0"
  by (auto simp: daemonize_def)

lemma serve_pidfile:
  "filter touches_pidfile (fst (serve H opt path)) =
     (if o_foreground opt \<or> snd (daemonize H) \<noteq> None then []
      else (if h_pidfile_err H = None then [WriteFile (o_pidfile opt) (show_int (h_pid H) @ [LF])] else []) @
        (if snd (serve H opt path) = None then [] else [UnlinkPid (o_pidfile opt)]))"
proof -
  obtain acts code where d: "daemonize H = (acts, code)" by force
  then have f: "filter touches_pidfile acts = []" using no_pidfile_acts(3) [of H] by simp
  have w: "filter touches_pidfile (write_pidfile H lg p) =
      (if h_pidfile_err H = None then [WriteFile p (show_int (h_pid H) @ [LF])] else [])" for lg p
    by (simp add: write_pidfile_def split: option.split)
  obtain rc sacts where srv: "hsed_server_run (k_strerror (kern (h_machine H))) (h_server H) path (o_max_capture opt)
      (o_scan_threads opt) = (rc, sacts)" by force
  show ?thesis
    by (cases "o_foreground opt"; cases code; cases rc)
      (simp_all add: serve_def Let_def d f w srv hsed_log_init_def)
qed

definition demo_host :: "(demo_state, x86_regs) host" where
  "demo_host = \<lparr>h_machine = demo_machine, h_world = demo_w, h_euid = 1000, h_pid = 77, h_fork1 = 0, h_setsid = 5,
     h_fork2 = 0, h_devnull = 3, h_pidfile_err = None,
     h_server = \<lparr>socket_ans = Inr 3, bind_err = None, listen_err = None,
       turns = [\<lparr>shutdown_flag = True, polled = SrvTimeout\<rparr>]\<rparr>\<rparr>"

lemma demo_parse:
  "parse_args [''--scan-once'', ''--scan-threads'', ''4''] default_options =
   Run (default_options\<lparr>o_scan_once := True, o_scan_threads := 4\<rparr>)"
proof -
  have "atoi ''4'' = 4" by code_simp
  then show ?thesis by simp
qed

theorem scan_once_prints_scan_witness:
  "\<exists>c'. handle_scan demo_machine demo_conn 0 0 HSED_UID_ANY 4 = Some c' \<and> length (lines_of (wire (sk c'))) = 2 \<and>
     main demo_host [''hsedd'', ''--scan-once'', ''--scan-threads'', ''4''] =
       Some (map (\<lambda>m. Stdout (m @ [LF])) (lines_of (wire (sk c'))), Some 0)"
proof -
  obtain l where l: "hsed_scan demo_kernel demo_w hsed_list_init 0 0 HSED_UID_ANY 4 = (0, l)"
    "list_contents l = [demo_entry 5000]" "l_count l = 1" using demo_scan_result by blast
  obtain c' where c': "handle_scan demo_machine demo_conn 0 0 HSED_UID_ANY 4 = Some c'" using demo_handle_scan by blast
  have "lines_of (wire (sk c')) = map entry_text (list_contents l) @ [end_line (l_count l) (entry_total (list_contents l))]"
    by (rule handle_scan_lines [OF _ _ _ _ _ c']) (use l demo_entry_ok in \<open>simp_all add: demo_machine_def demo_conn_def\<close>)
  moreover have "main demo_host (''hsedd'' # [''--scan-once'', ''--scan-threads'', ''4'']) = Some (if (0 :: int) = 0
      then (map (\<lambda>m. Stdout (m @ [LF])) (lines_of (wire (sk c'))), Some 0)
      else ([Stderr (''scan failed: '' @ k_strerror (kern (h_machine demo_host))
        (scan_errno (h_machine demo_host) (h_world demo_host)) @ [LF])], Some 1))"
    by (rule scan_once_prints_scan [OF demo_parse, where l = l and c = demo_conn])
      (use l c' demo_entry_ok in \<open>simp_all add: demo_host_def demo_machine_def demo_conn_def default_options_def\<close>)
  ultimately show ?thesis using c' l by simp
qed

lemma main_serves:
  assumes "parse_args args default_options = Run opt" and "\<not> o_scan_once opt" and "\<not> o_stats_once opt"
  shows "\<exists>warn path. filter touches_pidfile warn = [] \<and>
    main H (prog # args) = Some (warn @ fst (serve H opt path), snd (serve H opt path))"
proof -
  define path where "path = (case o_socket_path opt of Some p \<Rightarrow> p | None \<Rightarrow> default_socket_path (h_euid H))"
  define warn where "warn = (if h_euid H \<noteq> 0 then [Stderr no_root_text] else [])"
  have "main H (prog # args) = Some (warn @ fst (serve H opt path), snd (serve H opt path))"
    using assms by (simp add: main_def Let_def case_prod_beta path_def warn_def)
  moreover have "filter touches_pidfile warn = []" by (simp add: warn_def)
  ultimately show ?thesis by blast
qed

text \<open>
  C38. The pid file belongs to the process that serves: it is written, with that process's pid, only
  by the process in which both forks answered 0 and \<open>setsid\<close> worked (never in the foreground, in
  either exiting parent or after a failed fork), and only that process removes it, when the server
  returns, whatever the server's result.
\<close>

theorem main_pidfile:
  assumes "parse_args args default_options = Run opt" and "\<not> o_scan_once opt" and "\<not> o_stats_once opt"
    and "main H (prog # args) = Some (acts, code)"
  shows "filter touches_pidfile acts =
     (if o_foreground opt \<or> h_fork1 H \<noteq> 0 \<or> h_setsid H < 0 \<or> h_fork2 H \<noteq> 0 then []
      else (if h_pidfile_err H = None then [WriteFile (o_pidfile opt) (show_int (h_pid H) @ [LF])] else []) @
        (if code = None then [] else [UnlinkPid (o_pidfile opt)]))"
proof -
  obtain warn path where "filter touches_pidfile warn = []"
    and run: "main H (prog # args) = Some (warn @ fst (serve H opt path), snd (serve H opt path))"
    using main_serves [OF assms(1-3)] by blast
  then show ?thesis using serve_pidfile [of H opt path] assms(4) daemonize_stays [of H] by (simp add: not_le)
qed

lemma serve_code:
  "snd (daemonize H) = None \<Longrightarrow> snd (serve H opt path) = map_option (\<lambda>rc. if rc = 0 then 0 else 1)
    (fst (hsed_server_run (k_strerror (kern (h_machine H))) (h_server H) path (o_max_capture opt) (o_scan_threads opt)))"
  by (cases "daemonize H") (simp add: serve_def Let_def hsed_log_init_def)

theorem main_pidfile_witness:
  "\<exists>acts. main demo_host [''hsedd''] = Some (acts, Some 0) \<and>
     filter touches_pidfile acts = [WriteFile ''/run/hsed.pid'' (show_int 77 @ [LF]), UnlinkPid ''/run/hsed.pid'']"
proof -
  have p: "parse_args [] default_options = Run default_options" by simp
  have d: "snd (daemonize demo_host) = None" by (simp add: daemonize_def demo_host_def)
  have "fst (hsed_server_run strerr (h_server demo_host) path n t) = Some 0" for strerr path n t
    by (simp add: hsed_server_run_def demo_host_def Let_def)
  then have code: "snd (serve demo_host default_options path) = Some 0" for path
    by (simp add: serve_code [OF d])
  have "\<not> o_scan_once default_options" "\<not> o_stats_once default_options" by (simp_all add: default_options_def)
  then obtain acts where run: "main demo_host (''hsedd'' # []) = Some (acts, Some 0)"
    using main_serves [OF p, of demo_host "''hsedd''"] code by metis
  have "filter touches_pidfile acts = [WriteFile ''/run/hsed.pid'' (show_int 77 @ [LF]), UnlinkPid ''/run/hsed.pid'']"
    using main_pidfile [OF p _ _ run] by (simp add: default_options_def demo_host_def)
  with run show ?thesis by auto
qed

text \<open>
  C39. Without \<open>--socket\<close> the daemon protects the socket it really bound: for every user the default
  path fits the socket address, so the path given to \<open>bind\<close> is the one whose mode is then set to
  owner-only access before the server listens.
\<close>

theorem default_socket_bound_and_protected:
  assumes "socket_ans E = Inr fd" and "bind_err E = None"
  shows "\<exists>rest. snd (hsed_server_run strerr E (default_socket_path euid) capture threads) =
    [SrvUnlink (default_socket_path euid), SrvBind (default_socket_path euid),
     SrvChmod (default_socket_path euid) 0x180, SrvListen fd] @ rest"
proof -
  let ?p = "default_socket_path euid"
  obtain n dst where "hsed_strlcpy (replicate SUN_PATH_SIZE NUL) ?p SUN_PATH_SIZE = Some (n, dst)" and "cstr dst = ?p"
    using hsed_strlcpy_result [of "replicate SUN_PATH_SIZE NUL" SUN_PATH_SIZE ?p] default_socket_path_bound [of euid]
    by (auto simp: SUN_PATH_SIZE_def)
  then show ?thesis
    using assms by (auto simp: hsed_server_run_def Let_def split: option.split prod.split)
qed

theorem default_socket_bound_and_protected_witness:
  "\<exists>rest. snd (hsed_server_run (\<lambda>e. []) (h_server demo_host) (default_socket_path 0) 200 0) =
    [SrvUnlink ''/run/hsed.sock'', SrvBind ''/run/hsed.sock'', SrvChmod ''/run/hsed.sock'' 0x180, SrvListen 3] @ rest"
  using default_socket_bound_and_protected [of "h_server demo_host" 3 "\<lambda>e. []" 0 200 0]
  by (simp add: demo_host_def default_socket_path_def)

end
