(* ===== verification/Spec2Isabelle.thy ===== *)
theory Spec2Isabelle
  imports Hsed_Daemon
begin

text \<open>
  \<^bold>\<open>The hsed daemon.\<close> \<open>hsedd\<close> finds files that were deleted but still take up disk space because a
  process holds them open, and lets a client truncate them, signal the holder, or watch the writes
  to them. All of its C sources are under \<open>src/backend/src\<close>. A client connects to a Unix socket,
  sends request lines and reads JSON lines. The parts and their theories:

  \<^item> \<open>util.c\<close> (\<open>Hsed_Util\<close>): the bounded string copy, on the destination array, and logging.
  \<^item> \<open>base64.c\<close> (\<open>Hsed_Base64\<close>): the encoder for captured bytes, on its arrays.
  \<^item> \<open>proc_scan.c\<close>, one process (\<open>Hsed_ProcScan\<close>): the growable entry list, the readers of
    \<open>/proc\<close> files, which descriptors count (\<open>match_fd\<close>), \<open>scan_one_pid\<close> with its caches.
  \<^item> \<open>proc_scan.c\<close>, the machine (\<open>Hsed_ParScan\<close>): \<open>gather_pids\<close>, the split into slices, the worker
    threads, merging, sorting, \<open>hsed_scan\<close> and \<open>hsed_scan_stats\<close>.
  \<^item> \<open>protocol.c\<close> (\<open>Hsed_Protocol\<close>): JSON escaping, formatting of an entry, sending lines.
  \<^item> \<open>reclaim.c\<close> (\<open>Hsed_Reclaim\<close>): truncation through \<open>/proc/pid/fd\<close>, and signals.
  \<^item> \<open>tracer.c\<close> (\<open>Hsed_Tracer\<close>, \<open>Hsed_TraceLoop\<close>): registers of both architectures, reading the
    tracee's memory, the thread table, attaching, the wait loop, detaching.
  \<^item> \<open>server.c\<close> (\<open>Hsed_Server\<close>, \<open>Hsed_Requests\<close>): request lines, dispatch, the handlers, the
    streaming callbacks, the accept loop.
  \<^item> \<open>hsed.c\<close> (\<open>Hsed_Daemon\<close>): the command line, the one-shot modes, becoming a daemon, \<open>main\<close>.

  \<open>Hsed_Prelude\<close> has the shared vocabulary (C strings, arrays with checked reads and writes, the
  simplification collections), \<open>Hsed_CLib\<close> the C library functions the code calls, and
  \<open>Hsed_Kernel\<close> the kernel.

  \<^bold>\<open>How the code is modelled.\<close> Definitions carry the names of the C functions. A call that writes an
  array works on the array and is \<open>None\<close> for an access outside it, so a result \<open>Some\<close> includes
  memory safety. The kernel is outside the repository and is a parameter: a record of the calls
  over an abstract state, where queries read the state and actions return the next one; a scan sees
  one state. Where a call can answer differently every time (\<open>send\<close>, \<open>recv\<close>, \<open>waitpid\<close>, \<open>poll\<close>,
  \<open>accept\<close>), the answers are a list, the loops recurse over it, and \<open>None\<close> (or a flag) says that the
  call has not returned when the answers are used up. That list is the only fuel in the
  development: no bound is chosen, and theorems about results hold for every list. What the daemon
  does to the outside (\<open>ptrace\<close> requests, callbacks, sockets, forks) is a list of actions in order;
  a STREAM applies its \<open>ptrace\<close> requests to the kernel state through the parameter \<open>ptrace_effect\<close>,
  about which nothing is assumed. \<open>qsort\<close> is fixed to one implementation, a stable one; C leaves the
  order of files of equal size open.
  C integers keep their width where it matters: 64-bit sums wrap, pids and descriptors go through
  the narrowing conversions of the source.

  \<^bold>\<open>Interfaces.\<close> The components rely on each other through locales, each interpreted on the
  definitions of its provider: \<open>growable\<close> and \<open>growable_total\<close> (the entry list and the pid list),
  \<open>qsort_contract\<close> (what C promises of \<open>qsort\<close>), \<open>line_channel\<close> (sending on a socket appends whole
  lines), \<open>bounded_table\<close> (the tracer's thread table as a bounded map) and \<open>syscall_abi\<close> (what the
  tracer needs of an architecture, for x86-64 and aarch64).

  \<^bold>\<open>What is shown.\<close>

  \<^item> Scanning: a scan of the machine returns exactly the hidden files of every process, sorted,
    for any number of threads and any interleaving of the workers; the slices partition the process
    list; STATS agrees with SCAN; entries are well formed.
  \<^item> Encoding: base 64 and JSON escaping stay inside their buffers and are undone by decoders;
    the line of an entry fits when the process name has the 15 bytes Linux allows; a line is delivered whole or as a prefix, and sending ends.
  \<^item> Tracing: the reports of each thread equal those of a reference that sees only that thread;
    every stop is resumed once, with its signal unless that is \<open>SIGTRAP\<close> or \<open>SIGSTOP\<close>; the table is
    a bounded map; attached threads are tracked or detached; captures are bounded; when the client
    leaves, every tracked thread is detached, and the loop otherwise returns only when no thread is
    left or the kernel knows no child; requests go only to listed threads and threads the kernel named.
  \<^item> Serving: dispatch equals a table over tokens; requests survive the way from the client to
    the handler; each command changes the system exactly as its name says; replies arrive as whole
    lines; no accepted connection is lost; long captures are cut by the line buffer; the socket path
    given to the server is removed, and is the one bound when it is shorter than 108 bytes.
  \<^item> The main program: options are read back as written, \<open>--scan-once\<close> prints what SCAN sends, the
    pid file is written and removed only by the process left after both forks, the default socket is
    the protected one.

  \<^bold>\<open>What is not modelled.\<close> Releasing memory (\<open>free\<close>) and sleeping have no effect in the model.
  A \<open>read\<close> of a \<open>/proc\<close> file returns all it was asked for that the file has.
  Changes of \<open>/proc\<close> during a scan, and the effect of several connections on the kernel state at
  once, are outside: a handler runs on the state it finds. Concurrent tracing sessions are treated
  one at a time. The Go client and user interface (\<open>src/tui\<close>) and the packaging are left out; the
  format of the client's request lines appears as \<open>request_words\<close>. Further work: a parser for whole
  JSON lines and the round trip of entries through it, interleaved connections over a shared
  kernel state, and that a connection keeps being served when its peer keeps reading.
\<close>

end
